theory Spec2Isabelle
  imports Complex_Main "HOL-Library.Word"
begin

section \<open>The one-dimensional total-variation denoiser \<^verbatim>\<open>TV1D_denoise\<close>\<close>

text \<open>
  Source: \<^verbatim>\<open>src/waffles/utils/denoising/tv1d_cpp/tv1ddenoise.c\<close>.

  Conventions of the embedding.
  \<^item> The record field \<open>output_buf\<close> is the buffer \<^verbatim>\<open>output\<close> (\<open>output\<close> is a keyword here).
  \<^item> \<^verbatim>\<open>float\<close> and \<^verbatim>\<open>double\<close> values are exact reals: rounding is not modelled.
  \<^item> \<^verbatim>\<open>unsigned int\<close> is \<open>32 word\<close>: \<open>+\<close> and \<open>-\<close> wrap around, \<open>unat\<close> reads the value.
  \<^item> The three buffers the function allocates (\<^verbatim>\<open>output\<close>, \<^verbatim>\<open>indstart_low\<close>,
    \<^verbatim>\<open>indstart_up\<close>) hold \<^verbatim>\<open>width\<close> cells each and start uninitialised: a buffer is a
    list of optional cells, \<open>None\<close> being a cell never written. Every access names the
    number of cells of the buffer; an index at or beyond it is the error
    \<open>OutOfBounds\<close>, a read of a cell never written is the error \<open>Uninitialised\<close>.
  \<^item> The caller's buffer \<^verbatim>\<open>input\<close> is a list of reals; a read beyond its end is
    \<open>OutOfBounds\<close>.
  \<^item> A division whose unsigned divisor is zero has no real value (IEEE gives an
    infinity or a NaN): it is the error \<open>DivByZero\<close>.
  \<^item> Allocation is assumed to succeed; \<^verbatim>\<open>free\<close> has no effect on the result.
\<close>

subsection \<open>Errors, buffers and arithmetic\<close>

datatype err = OutOfBounds | Uninitialised | DivByZero

type_synonym u32 = "32 word"

definition ebind :: "err + 'a \<Rightarrow> ('a \<Rightarrow> err + 'b) \<Rightarrow> err + 'b" where
  "ebind m f = (case m of Inl e \<Rightarrow> Inl e | Inr v \<Rightarrow> f v)"

lemma ebind_cong [fundef_cong]:
  "m = m' \<Longrightarrow> (\<And>v. m' = Inr v \<Longrightarrow> f v = f' v) \<Longrightarrow> ebind m f = ebind m' f'"
  by (cases m') (simp_all add: ebind_def)

text \<open>\<open>rd n a k\<close> reads cell \<open>k\<close> of the buffer \<open>a\<close> of \<open>n\<close> cells; \<open>wr n a k v\<close> writes it.\<close>

definition rd :: "u32 \<Rightarrow> 'a option list \<Rightarrow> u32 \<Rightarrow> err + 'a" where
  "rd n a k =
     (if k < n \<and> unat k < length a
      then (case a ! unat k of None \<Rightarrow> Inl Uninitialised | Some v \<Rightarrow> Inr v)
      else Inl OutOfBounds)"

definition wr :: "u32 \<Rightarrow> 'a option list \<Rightarrow> u32 \<Rightarrow> 'a \<Rightarrow> err + 'a option list" where
  "wr n a k v =
     (if k < n \<and> unat k < length a then Inr (a[unat k := Some v]) else Inl OutOfBounds)"

definition rd_in :: "real list \<Rightarrow> u32 \<Rightarrow> err + real" where
  "rd_in inp k = (if unat k < length inp then Inr (inp ! unat k) else Inl OutOfBounds)"

text \<open>\<open>divu x d\<close> is \<^verbatim>\<open>x / d\<close> and \<open>ratio a b\<close> is \<^verbatim>\<open>(double)a / b\<close>, for unsigned \<open>a\<close>, \<open>b\<close>, \<open>d\<close>.\<close>

definition divu :: "real \<Rightarrow> u32 \<Rightarrow> err + real" where
  "divu x d = (if d = 0 then Inl DivByZero else Inr (x / real (unat d)))"

definition ratio :: "u32 \<Rightarrow> u32 \<Rightarrow> err + real" where
  "ratio a b = (if b = 0 then Inl DivByZero else Inr (real (unat a) / real (unat b)))"

subsection \<open>Unsigned arithmetic without wrap-around\<close>

lemma unat_inc: "(a::u32) < b \<Longrightarrow> unat (a + 1) = unat a + 1"
  by unat_arith

lemma unat_dec: "(b::u32) < a \<Longrightarrow> unat (a - 1) = unat a - 1"
  by unat_arith

lemma unat_sub_le: "(b::u32) \<le> a \<Longrightarrow> unat (a - b) = unat a - unat b"
  by unat_arith

lemma measure_inc: "(a::u32) < b \<Longrightarrow> unat b - unat (a + 1) < unat b - unat a"
  by unat_arith

lemma measure_dec: "(b::u32) < a \<Longrightarrow> unat (a - 1) < unat a"
  by unat_arith

subsection \<open>The local variables\<close>

text \<open>
  The locals of \<^verbatim>\<open>TV1D_denoise\<close> that live across statements. \<^verbatim>\<open>i\<close> and \<^verbatim>\<open>width\<close>
  are arguments of the functions below; \<^verbatim>\<open>ind\<close> and \<^verbatim>\<open>indjseg2\<close> are assigned
  before every use and are bound where they are assigned.
\<close>

record st =
  indstart_low :: "u32 option list"
  indstart_up :: "u32 option list"
  output_buf :: "real option list"
  j_low :: u32
  j_up :: u32
  jseg :: u32
  indjseg :: u32
  output_low_first :: real
  output_low_curr :: real
  output_up_first :: real
  output_up_curr :: real

subsection \<open>The loops\<close>

text \<open>Lines 8-10: \<^verbatim>\<open>for (i = 0; i < width; i++) output[i] = input[i];\<close>\<close>

function copy_loop :: "u32 \<Rightarrow> real list \<Rightarrow> u32 \<Rightarrow> u32 \<Rightarrow> real option list
    \<Rightarrow> err + real option list" where
  "copy_loop n inp width i out =
     (if i < width
      then ebind (rd_in inp i) (\<lambda>x.
           ebind (wr n out i x) (\<lambda>out'.
           copy_loop n inp width (i + 1) out'))
      else Inr out)"
  by pat_completeness auto
termination
  by (relation "measure (\<lambda>(n, inp, width, i, out). unat width - unat i)")
     (simp_all add: measure_inc measure_dec)

declare copy_loop.simps [simp del]

text \<open>\<^verbatim>\<open>while (indjseg < bound) output[indjseg++] = v;\<close> (lines 39, 57, 75, 87, 90, \<dots>)\<close>

function fill_lt :: "u32 \<Rightarrow> u32 \<Rightarrow> real \<Rightarrow> real option list \<Rightarrow> u32
    \<Rightarrow> err + (real option list \<times> u32)" where
  "fill_lt n bound v out k =
     (if k < bound
      then ebind (wr n out k v) (\<lambda>out'. fill_lt n bound v out' (k + 1))
      else Inr (out, k))"
  by pat_completeness auto
termination
  by (relation "measure (\<lambda>(n, bound, v, out, k). unat bound - unat k)")
     (simp_all add: measure_inc measure_dec)

declare fill_lt.simps [simp del]

text \<open>\<^verbatim>\<open>while (indjseg <= i) output[indjseg++] = v;\<close> (lines 108, 121, 130)\<close>

function fill_le :: "u32 \<Rightarrow> u32 \<Rightarrow> real \<Rightarrow> real option list \<Rightarrow> u32
    \<Rightarrow> err + (real option list \<times> u32)" where
  "fill_le n bound v out k =
     (if k \<le> bound
      then ebind (wr n out k v) (\<lambda>out'. fill_le n bound v out' (k + 1))
      else Inr (out, k))"
  by pat_completeness auto
termination
  by (relation "measure (\<lambda>(n, bound, v, out, k). unat n - unat k)")
     (auto simp: wr_def measure_inc split: if_splits)

declare fill_le.simps [simp del]

text \<open>
  Lines 31-33 (again 67-69 and 112-114):
  \<^verbatim>\<open>while ((j_up>jseg)&&(output_up_curr<=output[ind=indstart_up[j_up-1]]))
      output_up_curr+=(output[ind]-output_up_curr)*
          ((double)(indstart_up[j_up--]-ind)/(i-ind+1));\<close>
\<close>

function unwind_up :: "u32 \<Rightarrow> u32 \<Rightarrow> st \<Rightarrow> err + st" where
  "unwind_up n i s =
     (if j_up s > jseg s
      then ebind (rd n (indstart_up s) (j_up s - 1)) (\<lambda>ind.
           ebind (rd n (output_buf s) ind) (\<lambda>o_ind.
           if output_up_curr s \<le> o_ind
           then ebind (rd n (indstart_up s) (j_up s)) (\<lambda>top.
                ebind (ratio (top - ind) (i - ind + 1)) (\<lambda>r.
                unwind_up n i
                  (s\<lparr>output_up_curr := output_up_curr s + (o_ind - output_up_curr s) * r,
                     j_up := j_up s - 1\<rparr>)))
           else Inr s))
      else Inr s)"
  by pat_completeness auto
termination
  by (relation "measure (\<lambda>(n, i, s). unat (j_up s))")
     (simp_all add: measure_inc measure_dec)

declare unwind_up.simps [simp del]

text \<open>
  Lines 49-51 (again 103-105):
  \<^verbatim>\<open>while ((j_low>jseg)&&(output_low_curr>=output[ind=indstart_low[j_low-1]]))
      output_low_curr+=(output[ind]-output_low_curr)*
          ((double)(indstart_low[j_low--]-ind)/(i-ind+1));\<close>
\<close>

function unwind_low :: "u32 \<Rightarrow> u32 \<Rightarrow> st \<Rightarrow> err + st" where
  "unwind_low n i s =
     (if j_low s > jseg s
      then ebind (rd n (indstart_low s) (j_low s - 1)) (\<lambda>ind.
           ebind (rd n (output_buf s) ind) (\<lambda>o_ind.
           if output_low_curr s \<ge> o_ind
           then ebind (rd n (indstart_low s) (j_low s)) (\<lambda>top.
                ebind (ratio (top - ind) (i - ind + 1)) (\<lambda>r.
                unwind_low n i
                  (s\<lparr>output_low_curr := output_low_curr s + (o_ind - output_low_curr s) * r,
                     j_low := j_low s - 1\<rparr>)))
           else Inr s))
      else Inr s)"
  by pat_completeness auto
termination
  by (relation "measure (\<lambda>(n, i, s). unat (j_low s))")
     (simp_all add: measure_inc measure_dec)

declare unwind_low.simps [simp del]

text \<open>
  Lines 35-41 (again 71-77):
  \<^verbatim>\<open>while ((output_up_curr<=output_low_first)&&(jseg<j_low)) {
      indjseg2=indstart_low[++jseg];
      output_up_curr+=(output_up_curr-output_low_first)*
          ((double)(indjseg2-indjseg)/(i-indjseg2+1));
      while (indjseg<indjseg2) output[indjseg++]=output_low_first;
      output_low_first=output[indjseg];
  }\<close>
\<close>

function commit_low :: "u32 \<Rightarrow> u32 \<Rightarrow> st \<Rightarrow> err + st" where
  "commit_low n i s =
     (if output_up_curr s \<le> output_low_first s \<and> jseg s < j_low s
      then ebind (rd n (indstart_low s) (jseg s + 1)) (\<lambda>indjseg2.
           ebind (ratio (indjseg2 - indjseg s) (i - indjseg2 + 1)) (\<lambda>r.
           ebind (fill_lt n indjseg2 (output_low_first s) (output_buf s) (indjseg s)) (\<lambda>(out, k).
           ebind (rd n out k) (\<lambda>v.
           commit_low n i
             (s\<lparr>jseg := jseg s + 1,
                output_up_curr :=
                  output_up_curr s + (output_up_curr s - output_low_first s) * r,
                output_buf := out, indjseg := k, output_low_first := v\<rparr>)))))
      else Inr s)"
  by pat_completeness auto
termination
  by (relation "measure (\<lambda>(n, i, s). unat (j_low s) - unat (jseg s))")
     (simp_all add: measure_inc measure_dec)

declare commit_low.simps [simp del]

text \<open>
  Lines 53-59:
  \<^verbatim>\<open>while ((output_low_curr>=output_up_first)&&(jseg<j_up)) {
      indjseg2=indstart_up[++jseg];
      output_low_curr+=(output_low_curr-output_up_first)*
          ((double)(indjseg2-indjseg)/(i-indjseg2+1));
      while (indjseg<indjseg2) output[indjseg++]=output_up_first;
      output_up_first=output[indjseg];
  }\<close>
\<close>

function commit_up :: "u32 \<Rightarrow> u32 \<Rightarrow> st \<Rightarrow> err + st" where
  "commit_up n i s =
     (if output_low_curr s \<ge> output_up_first s \<and> jseg s < j_up s
      then ebind (rd n (indstart_up s) (jseg s + 1)) (\<lambda>indjseg2.
           ebind (ratio (indjseg2 - indjseg s) (i - indjseg2 + 1)) (\<lambda>r.
           ebind (fill_lt n indjseg2 (output_up_first s) (output_buf s) (indjseg s)) (\<lambda>(out, k).
           ebind (rd n out k) (\<lambda>v.
           commit_up n i
             (s\<lparr>jseg := jseg s + 1,
                output_low_curr :=
                  output_low_curr s + (output_low_curr s - output_up_first s) * r,
                output_buf := out, indjseg := k, output_up_first := v\<rparr>)))))
      else Inr s)"
  by pat_completeness auto
termination
  by (relation "measure (\<lambda>(n, i, s). unat (j_up s) - unat (jseg s))")
     (simp_all add: measure_inc measure_dec)

declare commit_up.simps [simp del]

text \<open>
  Lines 85-89 (again 124-128):
  \<^verbatim>\<open>while (jseg<j_low) {
      indjseg2=indstart_low[++jseg];
      while (indjseg<indjseg2) output[indjseg++]=output_low_first;
      output_low_first=output[indjseg];
  }\<close>
\<close>

function flush_low :: "u32 \<Rightarrow> st \<Rightarrow> err + st" where
  "flush_low n s =
     (if jseg s < j_low s
      then ebind (rd n (indstart_low s) (jseg s + 1)) (\<lambda>indjseg2.
           ebind (fill_lt n indjseg2 (output_low_first s) (output_buf s) (indjseg s)) (\<lambda>(out, k).
           ebind (rd n out k) (\<lambda>v.
           flush_low n
             (s\<lparr>jseg := jseg s + 1, output_buf := out, indjseg := k, output_low_first := v\<rparr>))))
      else Inr s)"
  by pat_completeness auto
termination
  by (relation "measure (\<lambda>(n, s). unat (j_low s) - unat (jseg s))")
     (simp_all add: measure_inc measure_dec)

declare flush_low.simps [simp del]

text \<open>
  Lines 93-97 (again 115-119):
  \<^verbatim>\<open>while (jseg<j_up) {
      indjseg2=indstart_up[++jseg];
      while (indjseg<indjseg2) output[indjseg++]=output_up_first;
      output_up_first=output[indjseg];
  }\<close>
\<close>

function flush_up :: "u32 \<Rightarrow> st \<Rightarrow> err + st" where
  "flush_up n s =
     (if jseg s < j_up s
      then ebind (rd n (indstart_up s) (jseg s + 1)) (\<lambda>indjseg2.
           ebind (fill_lt n indjseg2 (output_up_first s) (output_buf s) (indjseg s)) (\<lambda>(out, k).
           ebind (rd n out k) (\<lambda>v.
           flush_up n
             (s\<lparr>jseg := jseg s + 1, output_buf := out, indjseg := k, output_up_first := v\<rparr>))))
      else Inr s)"
  by pat_completeness auto
termination
  by (relation "measure (\<lambda>(n, s). unat (j_up s) - unat (jseg s))")
     (simp_all add: measure_inc measure_dec)

declare flush_up.simps [simp del]

subsection \<open>The statements of the main loop\<close>

text \<open>
  Lines 29-33, with \<open>x\<close> the sample \<^verbatim>\<open>input[i]\<close> (again the tail of line 64 with lines
  66-69, and lines 110-114 with \<open>x\<close> the value \<^verbatim>\<open>input[i]-lambda\<close>):
  \<^verbatim>\<open>output_up_curr+=(x-output_up_curr)/(i-indstart_up[j_up]+1);
  output[indjseg]=output_up_first;\<close>
  followed by the unwinding loop.
\<close>

definition up_absorb :: "u32 \<Rightarrow> u32 \<Rightarrow> real \<Rightarrow> st \<Rightarrow> err + st" where
  "up_absorb n i x s =
     ebind (rd n (indstart_up s) (j_up s)) (\<lambda>a.
     ebind (divu (x - output_up_curr s) (i - a + 1)) (\<lambda>q.
     ebind (wr n (output_buf s) (indjseg s) (output_up_first s)) (\<lambda>out.
     unwind_up n i (s\<lparr>output_up_curr := output_up_curr s + q, output_buf := out\<rparr>))))"

text \<open>
  Lines 47-51 (again lines 101-105 with \<open>x\<close> the value \<^verbatim>\<open>input[i]+lambda\<close>):
  \<^verbatim>\<open>output_low_curr+=(x-output_low_curr)/(i-indstart_low[j_low]+1);
  output[indjseg]=output_low_first;\<close>
  followed by the unwinding loop.
\<close>

definition low_absorb :: "u32 \<Rightarrow> u32 \<Rightarrow> real \<Rightarrow> st \<Rightarrow> err + st" where
  "low_absorb n i x s =
     ebind (rd n (indstart_low s) (j_low s)) (\<lambda>a.
     ebind (divu (x - output_low_curr s) (i - a + 1)) (\<lambda>q.
     ebind (wr n (output_buf s) (indjseg s) (output_low_first s)) (\<lambda>out.
     unwind_low n i (s\<lparr>output_low_curr := output_low_curr s + q, output_buf := out\<rparr>))))"

text \<open>Line 46: \<^verbatim>\<open>output_up_curr=output[i]=input[indstart_up[++j_up]=i];\<close>\<close>

definition push_up :: "u32 \<Rightarrow> real list \<Rightarrow> u32 \<Rightarrow> st \<Rightarrow> err + st" where
  "push_up n inp i s =
     ebind (wr n (indstart_up s) (j_up s + 1) i) (\<lambda>a.
     ebind (rd_in inp i) (\<lambda>x.
     ebind (wr n (output_buf s) i x) (\<lambda>out.
     Inr (s\<lparr>j_up := j_up s + 1, indstart_up := a, output_buf := out, output_up_curr := x\<rparr>))))"

text \<open>
  The assignments nested in line 64:
  \<^verbatim>\<open>output_low_curr=output[i]=input[indstart_low[++j_low] = i]\<close>
\<close>

definition push_low :: "u32 \<Rightarrow> real list \<Rightarrow> u32 \<Rightarrow> st \<Rightarrow> err + st" where
  "push_low n inp i s =
     ebind (wr n (indstart_low s) (j_low s + 1) i) (\<lambda>a.
     ebind (rd_in inp i) (\<lambda>x.
     ebind (wr n (output_buf s) i x) (\<lambda>out.
     Inr (s\<lparr>j_low := j_low s + 1, indstart_low := a, output_buf := out, output_low_curr := x\<rparr>))))"

text \<open>Line 44 (again line 80): \<^verbatim>\<open>output[indstart_up[j_up]]=output_up_curr;\<close>\<close>

definition store_up :: "u32 \<Rightarrow> st \<Rightarrow> err + st" where
  "store_up n s =
     ebind (rd n (indstart_up s) (j_up s)) (\<lambda>k.
     ebind (wr n (output_buf s) k (output_up_curr s)) (\<lambda>out.
     Inr (s\<lparr>output_buf := out\<rparr>)))"

text \<open>Line 62: \<^verbatim>\<open>output[indstart_low[j_low]]=output_low_curr;\<close>\<close>

definition store_low :: "u32 \<Rightarrow> st \<Rightarrow> err + st" where
  "store_low n s =
     ebind (rd n (indstart_low s) (j_low s)) (\<lambda>k.
     ebind (wr n (output_buf s) k (output_low_curr s)) (\<lambda>out.
     Inr (s\<lparr>output_buf := out\<rparr>)))"

text \<open>
  Lines 34-44, after the unwinding loop of the upper envelope:
  \<^verbatim>\<open>if (j_up==jseg) {
      while (...) {...}
      output_up_first=output_up_curr;
      indstart_up[j_up=jseg]=indjseg;
  } else output[indstart_up[j_up]]=output_up_curr;\<close>
\<close>

definition up_close_mid :: "u32 \<Rightarrow> u32 \<Rightarrow> st \<Rightarrow> err + st" where
  "up_close_mid n i s =
     (if j_up s = jseg s
      then ebind (commit_low n i s) (\<lambda>s'.
           ebind (wr n (indstart_up s') (jseg s') (indjseg s')) (\<lambda>a.
           Inr (s'\<lparr>output_up_first := output_up_curr s', j_up := jseg s',
                   indstart_up := a\<rparr>)))
      else store_up n s)"

text \<open>
  Lines 70-80:
  \<^verbatim>\<open>if (j_up==jseg) {
      while (...) {...}
      if ((indstart_up[j_up=jseg]=indjseg)==i) output_up_first=output_low_first+twolambda;
      else output_up_first=output_up_curr;
  } else output[indstart_up[j_up]]=output_up_curr;\<close>
\<close>

definition up_close_below :: "u32 \<Rightarrow> real \<Rightarrow> u32 \<Rightarrow> st \<Rightarrow> err + st" where
  "up_close_below n lam i s =
     (if j_up s = jseg s
      then ebind (commit_low n i s) (\<lambda>s'.
           ebind (wr n (indstart_up s') (jseg s') (indjseg s')) (\<lambda>a.
           Inr (s'\<lparr>j_up := jseg s', indstart_up := a,
                   output_up_first :=
                     (if indjseg s' = i then output_low_first s' + 2 * lam
                      else output_up_curr s')\<rparr>)))
      else store_up n s)"

text \<open>
  Lines 52-62:
  \<^verbatim>\<open>if (j_low==jseg) {
      while (...) {...}
      if ((indstart_low[j_low=jseg]=indjseg)==i) output_low_first=output_up_first-twolambda;
      else output_low_first=output_low_curr;
  } else output[indstart_low[j_low]]=output_low_curr;\<close>
\<close>

definition low_close :: "u32 \<Rightarrow> real \<Rightarrow> u32 \<Rightarrow> st \<Rightarrow> err + st" where
  "low_close n lam i s =
     (if j_low s = jseg s
      then ebind (commit_up n i s) (\<lambda>s'.
           ebind (wr n (indstart_low s') (jseg s') (indjseg s')) (\<lambda>a.
           Inr (s'\<lparr>j_low := jseg s', indstart_low := a,
                   output_low_first :=
                     (if indjseg s' = i then output_up_first s' - 2 * lam
                      else output_low_curr s')\<rparr>)))
      else store_low n s)"

text \<open>The body of the main loop, lines 27-81.\<close>

definition step :: "u32 \<Rightarrow> real list \<Rightarrow> real \<Rightarrow> u32 \<Rightarrow> st \<Rightarrow> err + st" where
  "step n inp lam i s =
     ebind (rd_in inp i) (\<lambda>x.
     if x \<ge> output_low_curr s
     then ebind (if x \<le> output_up_curr s
                 then ebind (up_absorb n i x s) (up_close_mid n i)
                 else push_up n inp i s) (\<lambda>s1.
          ebind (low_absorb n i x s1) (low_close n lam i))
     else ebind (push_low n inp i s) (\<lambda>s1.
          ebind (up_absorb n i x s1) (up_close_below n lam i)))"

text \<open>Line 26: \<^verbatim>\<open>for (; i<width; i++) {...}\<close>; the result carries the final \<^verbatim>\<open>i\<close>.\<close>

function main_loop :: "u32 \<Rightarrow> real list \<Rightarrow> real \<Rightarrow> u32 \<Rightarrow> u32 \<Rightarrow> st \<Rightarrow> err + (u32 \<times> st)" where
  "main_loop n inp lam width i s =
     (if i < width
      then ebind (step n inp lam i s) (\<lambda>s'. main_loop n inp lam width (i + 1) s')
      else Inr (i, s))"
  by pat_completeness auto
termination
  by (relation "measure (\<lambda>(n, inp, lam, width, i, s). unat width - unat i)")
     (simp_all add: measure_inc measure_dec)

declare main_loop.simps [simp del]

subsection \<open>The closing step\<close>

text \<open>\<open>set_output\<close> replaces the buffer and the fill position after one of the fill loops.\<close>

definition set_output :: "st \<Rightarrow> real option list \<times> u32 \<Rightarrow> st" where
  "set_output s p = s\<lparr>output_buf := fst p, indjseg := snd p\<rparr>"

text \<open>Lines 84-132; \<open>i\<close> is the last index.\<close>

definition finish :: "u32 \<Rightarrow> real list \<Rightarrow> real \<Rightarrow> u32 \<Rightarrow> st \<Rightarrow> err + st" where
  "finish n inp lam i s =
     ebind (rd_in inp i) (\<lambda>x.
     if x + lam \<le> output_low_curr s
     then ebind (flush_low n s) (\<lambda>s1.
          ebind (fill_lt n i (output_low_first s1) (output_buf s1) (indjseg s1)) (\<lambda>p.
          ebind (wr n (fst p) (snd p) (x + lam)) (\<lambda>out.
          Inr (s1\<lparr>output_buf := out, indjseg := snd p\<rparr>))))
     else if x - lam \<ge> output_up_curr s
     then ebind (flush_up n s) (\<lambda>s1.
          ebind (fill_lt n i (output_up_first s1) (output_buf s1) (indjseg s1)) (\<lambda>p.
          ebind (wr n (fst p) (snd p) (x - lam)) (\<lambda>out.
          Inr (s1\<lparr>output_buf := out, indjseg := snd p\<rparr>))))
     else ebind (low_absorb n i (x + lam) s) (\<lambda>s1.
          if j_low s1 = jseg s1
          then if output_up_first s1 \<ge> output_low_curr s1
               then ebind (fill_le n i (output_low_curr s1) (output_buf s1) (indjseg s1)) (\<lambda>p.
                    Inr (set_output s1 p))
               else ebind (up_absorb n i (x - lam) s1) (\<lambda>s2.
                    ebind (flush_up n s2) (\<lambda>s3.
                    ebind (rd n (indstart_up s3) (j_up s3)) (\<lambda>k.
                    ebind (fill_le n i (output_up_curr s3) (output_buf s3) k) (\<lambda>p.
                    Inr (set_output s3 p)))))
          else ebind (flush_low n s1) (\<lambda>s2.
               ebind (rd n (indstart_low s2) (j_low s2)) (\<lambda>k.
               ebind (fill_le n i (output_low_curr s2) (output_buf s2) k) (\<lambda>p.
               Inr (set_output s2 p))))))"

subsection \<open>The function\<close>

text \<open>
  \<^verbatim>\<open>float* TV1D_denoise(float* input, unsigned int width, const double lambda)\<close>.
  The result is the returned buffer of \<^verbatim>\<open>width\<close> cells.
\<close>

definition TV1D_denoise :: "real list \<Rightarrow> u32 \<Rightarrow> real \<Rightarrow> err + real option list" where
  "TV1D_denoise inp width lam =
     (let out0 = replicate (unat width) None in
      if lam = 0 then copy_loop width inp width 0 out0
      else
        ebind (rd_in inp 0) (\<lambda>x0.
        let s0 = \<lparr>indstart_low = replicate (unat width) None,
                  indstart_up = replicate (unat width) None,
                  output_buf = out0,
                  j_low = 0, j_up = 0, jseg = 0, indjseg = 0,
                  output_low_first = x0 - lam, output_low_curr = x0 - lam,
                  output_up_first = x0 + lam, output_up_curr = x0 + lam\<rparr>
        in if width = 1 then wr width out0 0 x0
           else
             ebind (wr width (indstart_low s0) 0 0) (\<lambda>al.
             ebind (wr width (indstart_up s0) 0 0) (\<lambda>au.
             ebind (main_loop width inp lam (width - 1) 1
                      (s0\<lparr>indstart_low := al, indstart_up := au\<rparr>)) (\<lambda>(i, s).
             ebind (finish width inp lam i s) (\<lambda>s'.
             Inr (output_buf s')))))))"

section \<open>Basic facts\<close>

lemma ebind_Inr [simp]: "ebind (Inr v) f = f v"
  by (simp add: ebind_def)

lemma ebind_Inl [simp]: "ebind (Inl e) f = Inl e"
  by (simp add: ebind_def)

subsection \<open>The copy loop\<close>

lemma copy_loop_copies:
  "n = width \<Longrightarrow> length inp = unat width \<Longrightarrow> length out = unat width \<Longrightarrow> i \<le> width \<Longrightarrow>
   take (unat i) out = map Some (take (unat i) inp) \<Longrightarrow>
   copy_loop n inp width i out = Inr (map Some inp)"
proof (induction n inp width i out rule: copy_loop.induct)
  case (1 n inp width i out)
  show ?case
  proof (cases "i < width")
    case True
    then have lt: "unat i < unat width" by (simp add: word_less_nat_alt)
    have suc: "unat (i + 1) = Suc (unat i)" using True by (simp add: unat_inc)
    have le: "i + 1 \<le> width" using lt suc by (simp add: word_le_nat_alt)
    let ?out = "out[unat i := Some (inp ! unat i)]"
    have rdi: "rd_in inp i = Inr (inp ! unat i)" using lt 1 by (simp add: rd_in_def)
    have wri: "wr n out i (inp ! unat i) = Inr ?out" using lt 1 True by (simp add: wr_def)
    have tk: "take (unat (i + 1)) ?out = map Some (take (unat (i + 1)) inp)"
      using lt 1 by (simp add: suc take_Suc_conv_app_nth)
    have "copy_loop n inp width (i + 1) ?out = Inr (map Some inp)"
      using "1.IH"[OF True rdi wri] 1 le tk by simp
    then show ?thesis using True rdi wri by (subst copy_loop.simps) simp
  next
    case False
    then have "i = width" using 1 by simp
    then show ?thesis using 1 by (subst copy_loop.simps) simp
  qed
qed

section \<open>Memory safety and termination\<close>

text \<open>
  A structural invariant of the two index buffers, independent of the sample values and of
  \<open>lambda\<close>: under it no access is out of bounds, no cell is read before it is written, no
  unsigned operation wraps around and no divisor is zero. The statements on the lower
  envelope are obtained from those on the upper envelope by the symmetry \<open>mirror\<close>, which
  exchanges the two envelopes and negates every value.
\<close>

lemma rd_Some: "k < n \<Longrightarrow> unat k < length a \<Longrightarrow> a ! unat k = Some v \<Longrightarrow> rd n a k = Inr v"
  by (simp add: rd_def)

lemma wr_ok: "k < n \<Longrightarrow> unat k < length a \<Longrightarrow> wr n a k v = Inr (a[unat k := Some v])"
  by (simp add: wr_def)

lemma fill_lt_ok:
  "length out = unat n \<Longrightarrow> k \<le> b \<Longrightarrow> b \<le> n \<Longrightarrow>
   \<exists>out'. fill_lt n b v out k = Inr (out', b) \<and> length out' = unat n \<and>
     (\<forall>t < unat n. out' ! t = (if unat k \<le> t \<and> t < unat b then Some v else out ! t))"
proof (induction n b v out k rule: fill_lt.induct)
  case (1 n b v out k)
  show ?case
  proof (cases "k < b")
    case True
    then have lt: "unat k < unat b" by (simp add: word_less_nat_alt)
    have suc: "unat (k + 1) = Suc (unat k)" using True by (simp add: unat_inc)
    have kn: "k < n" using True 1 by simp
    have w: "wr n out k v = Inr (out[unat k := Some v])"
      using kn 1 by (simp add: wr_ok word_less_nat_alt)
    have le: "k + 1 \<le> b" using lt suc by (simp add: word_le_nat_alt)
    obtain out' where o: "fill_lt n b v (out[unat k := Some v]) (k + 1) = Inr (out', b)"
      "length out' = unat n"
      "\<forall>t < unat n. out' ! t = (if unat (k + 1) \<le> t \<and> t < unat b then Some v else (out[unat k := Some v]) ! t)"
      using "1.IH"[OF True w _ le] 1 by auto
    have "\<forall>t < unat n. out' ! t = (if unat k \<le> t \<and> t < unat b then Some v else out ! t)"
      using o(3) lt 1 by (auto simp: suc nth_list_update)
    then show ?thesis using o True w by (subst fill_lt.simps) simp
  next
    case False
    then have "k = b" using 1 by simp
    then show ?thesis using 1 by (subst fill_lt.simps) auto
  qed
qed

lemma fill_le_ok:
  "length out = unat n \<Longrightarrow> k \<le> b + 1 \<Longrightarrow> b < n \<Longrightarrow>
   \<exists>out'. fill_le n b v out k = Inr (out', b + 1) \<and> length out' = unat n \<and>
     (\<forall>t < unat n. out' ! t = (if unat k \<le> t \<and> t \<le> unat b then Some v else out ! t))"
proof (induction n b v out k rule: fill_le.induct)
  case (1 n b v out k)
  have bs: "unat (b + 1) = Suc (unat b)" using 1 by (simp add: unat_inc)
  show ?case
  proof (cases "k \<le> b")
    case True
    then have lt: "unat k \<le> unat b" by (simp add: word_le_nat_alt)
    have kn: "k < n" using True 1 by simp
    have suc: "unat (k + 1) = Suc (unat k)" using kn by (simp add: unat_inc)
    have w: "wr n out k v = Inr (out[unat k := Some v])"
      using kn 1 by (simp add: wr_ok word_less_nat_alt)
    have le: "k + 1 \<le> b + 1" using lt suc bs by (simp add: word_le_nat_alt)
    obtain out' where o: "fill_le n b v (out[unat k := Some v]) (k + 1) = Inr (out', b + 1)"
      "length out' = unat n"
      "\<forall>t < unat n. out' ! t = (if unat (k + 1) \<le> t \<and> t \<le> unat b then Some v else (out[unat k := Some v]) ! t)"
      using "1.IH"[OF True w _ le] 1 by auto
    have "\<forall>t < unat n. out' ! t = (if unat k \<le> t \<and> t \<le> unat b then Some v else out ! t)"
      using o(3) lt 1 by (auto simp: suc nth_list_update)
    then show ?thesis using o True w by (subst fill_le.simps) simp
  next
    case False
    then have "unat k = Suc (unat b)" using 1 bs by (simp add: word_le_nat_alt)
    then have "k = b + 1" using bs by (simp add: word_unat_eq_iff)
    then show ?thesis using 1 False bs by (subst fill_le.simps) (auto simp: word_le_nat_alt)
  qed
qed

definition seg_ok :: "nat \<Rightarrow> u32 option list \<Rightarrow> real option list \<Rightarrow> u32 \<Rightarrow> u32 \<Rightarrow> u32 \<Rightarrow> bool" where
  "seg_ok m a out js ij j \<longleftrightarrow>
     unat js \<le> unat j \<and> unat j \<le> m \<and> a ! unat js = Some ij \<and>
     (\<forall>k. unat js \<le> k \<and> k \<le> unat j \<longrightarrow> a ! k \<noteq> None \<and> unat (the (a ! k)) \<le> m) \<and>
     (\<forall>k. unat js \<le> k \<and> k < unat j \<longrightarrow> unat (the (a ! k)) < unat (the (a ! Suc k))) \<and>
     (\<forall>k. unat js < k \<and> k \<le> unat j \<longrightarrow> out ! unat (the (a ! k)) \<noteq> None)"

lemma seg_ok_shrink:
  "seg_ok m a out js ij j \<Longrightarrow> unat js \<le> unat j' \<Longrightarrow> unat j' \<le> unat j \<Longrightarrow> seg_ok m a out js ij j'"
  by (auto simp: seg_ok_def)

lemma seg_ok_some:
  "seg_ok m a out js ij j \<Longrightarrow> unat js \<le> k \<Longrightarrow> k \<le> unat j \<Longrightarrow> \<exists>v. a ! k = Some v \<and> unat v \<le> m"
  by (auto simp: seg_ok_def)

lemma seg_ok_incr:
  "seg_ok m a out js ij j \<Longrightarrow> unat js \<le> k \<Longrightarrow> k < unat j \<Longrightarrow> a ! k = Some v \<Longrightarrow>
   a ! Suc k = Some w \<Longrightarrow> unat v < unat w"
  by (auto simp: seg_ok_def)

lemma seg_ok_init:
  "seg_ok m a out js ij j \<Longrightarrow> unat js < k \<Longrightarrow> k \<le> unat j \<Longrightarrow> a ! k = Some v \<Longrightarrow>
   out ! unat v \<noteq> None"
  by (auto simp: seg_ok_def)

lemma seg_ok_first: "seg_ok m a out js ij j \<Longrightarrow> a ! unat js = Some ij"
  by (simp add: seg_ok_def)

lemma seg_ok_bounds: "seg_ok m a out js ij j \<Longrightarrow> unat js \<le> unat j \<and> unat j \<le> m"
  by (simp add: seg_ok_def)

lemma unat_less_word: "unat (a::u32) < unat b \<Longrightarrow> a < b"
  by (simp add: word_less_nat_alt)

lemma unat_le_word: "unat (a::u32) \<le> unat b \<Longrightarrow> a \<le> b"
  by (simp add: word_le_nat_alt)

lemma unat_span: "unat (a::u32) \<le> unat i \<Longrightarrow> i < n \<Longrightarrow> unat (i - a + 1) = unat i - unat a + 1"
  by unat_arith

lemma span_nonzero: "unat (a::u32) \<le> unat i \<Longrightarrow> i < n \<Longrightarrow> i - a + 1 \<noteq> 0"
  using unat_span[of a i n] by (metis Suc_eq_plus1 nat.simps(3) unat_0)

lemma unwind_up_ok:
  "length (output_buf s) = unat n \<Longrightarrow> length (indstart_up s) = unat n \<Longrightarrow> i < n \<Longrightarrow>
   seg_ok (unat i) (indstart_up s) (output_buf s) (jseg s) (indjseg s) (j_up s) \<Longrightarrow>
   output_buf s ! unat (indjseg s) \<noteq> None \<Longrightarrow>
   \<exists>c j. unwind_up n i s = Inr (s\<lparr>output_up_curr := c, j_up := j\<rparr>) \<and>
      unat (jseg s) \<le> unat j \<and> unat j \<le> unat (j_up s)"
proof (induction n i s rule: unwind_up.induct)
  case (1 n i s)
  note ok = \<open>seg_ok (unat i) (indstart_up s) (output_buf s) (jseg s) (indjseg s) (j_up s)\<close>
  have triv: "unwind_up n i s = Inr s \<Longrightarrow> ?case"
  proof -
    assume a: "unwind_up n i s = Inr s"
    show ?case using a seg_ok_bounds[OF ok]
      by (intro exI[of _ "output_up_curr s"] exI[of _ "j_up s"]) simp
  qed
  show ?case
  proof (cases "j_up s > jseg s")
    case False
    then show ?thesis by (intro triv) (subst unwind_up.simps, simp)
  next
    case True
    then have jlt: "unat (jseg s) < unat (j_up s)" by (simp add: word_less_nat_alt)
    have dec: "unat (j_up s - 1) = unat (j_up s) - 1" using True by (rule unat_dec)
    have in_n: "unat i < unat n" using 1 by (simp add: word_less_nat_alt)
    have jm: "unat (j_up s) \<le> unat i" using seg_ok_bounds[OF ok] by simp
    have p: "unat (jseg s) \<le> unat (j_up s) - 1" "unat (j_up s) - 1 \<le> unat (j_up s)"
      "unat (j_up s) - 1 < unat (j_up s)" "Suc (unat (j_up s) - 1) = unat (j_up s)"
      "unat (jseg s) \<le> unat (j_up s)"
      using jlt by auto
    obtain ind where ind: "indstart_up s ! (unat (j_up s) - 1) = Some ind" and indm: "unat ind \<le> unat i"
      using seg_ok_some[OF ok p(1) p(2)] by auto
    obtain top where top: "indstart_up s ! unat (j_up s) = Some top"
      using seg_ok_some[OF ok p(5) order_refl] by auto
    have indtop: "unat ind < unat top"
      using seg_ok_incr[OF ok p(1) p(3) ind] top p(4) by simp
    have r1: "rd n (indstart_up s) (j_up s - 1) = Inr ind"
      using ind dec jm in_n 1 by (intro rd_Some unat_less_word) auto
    have r3: "rd n (indstart_up s) (j_up s) = Inr top"
      using top jm in_n 1 by (intro rd_Some unat_less_word) auto
    have init: "output_buf s ! unat ind \<noteq> None"
    proof (cases "unat (jseg s) = unat (j_up s) - 1")
      case True
      then have "ind = indjseg s" using seg_ok_first[OF ok] ind by simp
      then show ?thesis using 1 by simp
    next
      case False
      then have "unat (jseg s) < unat (j_up s) - 1" using jlt by simp
      then show ?thesis using seg_ok_init[OF ok _ _ ind] by simp
    qed
    then obtain o_ind where o_ind: "output_buf s ! unat ind = Some o_ind" by auto
    have r2: "rd n (output_buf s) ind = Inr o_ind"
      using o_ind indm in_n 1 by (intro rd_Some unat_less_word) auto
    have nz: "i - ind + 1 \<noteq> 0" using indm 1 by (intro span_nonzero)
    show ?thesis
    proof (cases "output_up_curr s \<le> o_ind")
      case False
      then show ?thesis
        by (intro triv) (subst unwind_up.simps, simp add: True r1 r2)
    next
      case c: True
      let ?r = "real (unat (top - ind)) / real (unat (i - ind + 1))"
      let ?s' = "s\<lparr>output_up_curr := output_up_curr s + (o_ind - output_up_curr s) * ?r,
                    j_up := j_up s - 1\<rparr>"
      have r4: "ratio (top - ind) (i - ind + 1) = Inr ?r" using nz by (simp add: ratio_def)
      have ok': "seg_ok (unat i) (indstart_up ?s') (output_buf ?s') (jseg ?s') (indjseg ?s') (j_up ?s')"
        using seg_ok_shrink[OF ok, of "j_up s - 1"] jlt dec by simp
      obtain c' j' where res: "unwind_up n i ?s' = Inr (?s'\<lparr>output_up_curr := c', j_up := j'\<rparr>)"
        and j': "unat (jseg ?s') \<le> unat j'" "unat j' \<le> unat (j_up ?s')"
        using "1.IH"[OF True r1 r2 c r3 r4 _ _ _ ok'] 1 by auto
      have "unwind_up n i s = Inr (s\<lparr>output_up_curr := c', j_up := j'\<rparr>)"
        using res by (subst unwind_up.simps) (simp add: True r1 r2 c r3 r4)
      moreover have "unat j' \<le> unat (j_up s)" using j' dec by simp
      ultimately show ?thesis using j'(1) by (intro exI[of _ c'] exI[of _ j']) simp
    qed
  qed
qed

definition neg_buf :: "real option list \<Rightarrow> real option list" where
  "neg_buf out = map (map_option uminus) out"

definition mirror :: "st \<Rightarrow> st" where
  "mirror s =
     \<lparr>indstart_low = indstart_up s, indstart_up = indstart_low s,
      output_buf = neg_buf (output_buf s),
      j_low = j_up s, j_up = j_low s, jseg = jseg s, indjseg = indjseg s,
      output_low_first = - output_up_first s, output_low_curr = - output_up_curr s,
      output_up_first = - output_low_first s, output_up_curr = - output_low_curr s\<rparr>"

definition mres :: "err + st \<Rightarrow> err + st" where
  "mres r = (case r of Inl e \<Rightarrow> Inl e | Inr s \<Rightarrow> Inr (mirror s))"

lemma neg_buf_invol [simp]: "neg_buf (neg_buf out) = out"
  by (simp add: neg_buf_def option.map_comp comp_def option.map_ident)

lemma length_neg_buf [simp]: "length (neg_buf out) = length out"
  by (simp add: neg_buf_def)

lemma neg_buf_update [simp]: "neg_buf (out[k := Some v]) = (neg_buf out)[k := Some (- v)]"
  by (simp add: neg_buf_def map_update)

lemma mirror_invol [simp]: "mirror (mirror s) = s"
  by (simp add: mirror_def)

lemma mirror_sel [simp]:
  "indstart_low (mirror s) = indstart_up s" "indstart_up (mirror s) = indstart_low s"
  "output_buf (mirror s) = neg_buf (output_buf s)"
  "j_low (mirror s) = j_up s" "j_up (mirror s) = j_low s"
  "jseg (mirror s) = jseg s" "indjseg (mirror s) = indjseg s"
  "output_low_first (mirror s) = - output_up_first s"
  "output_low_curr (mirror s) = - output_up_curr s"
  "output_up_first (mirror s) = - output_low_first s"
  "output_up_curr (mirror s) = - output_low_curr s"
  by (simp_all add: mirror_def)

lemma mres_simps [simp]: "mres (Inl e) = Inl e" "mres (Inr s) = Inr (mirror s)"
  by (simp_all add: mres_def)

lemma mres_invol [simp]: "mres (mres r) = r"
  by (cases r) simp_all

lemma mres_ebind: "mres (ebind m f) = ebind m (\<lambda>v. mres (f v))"
  by (cases m) simp_all

lemma rd_neg_buf: "rd n (neg_buf out) k = ebind (rd n out k) (\<lambda>v. Inr (- v))"
  by (auto simp: rd_def neg_buf_def split: option.splits)

lemma wr_neg_buf: "wr n (neg_buf out) k v = ebind (wr n out k (- v)) (\<lambda>o'. Inr (neg_buf o'))"
  by (auto simp: wr_def)

lemma ebind_assoc: "ebind (ebind m f) g = ebind m (\<lambda>v. ebind (f v) g)"
  by (cases m) simp_all

lemma mirror_upd [simp]:
  "mirror (s\<lparr>output_up_curr := c\<rparr>) = (mirror s)\<lparr>output_low_curr := - c\<rparr>"
  "mirror (s\<lparr>output_low_curr := c\<rparr>) = (mirror s)\<lparr>output_up_curr := - c\<rparr>"
  "mirror (s\<lparr>output_up_first := c\<rparr>) = (mirror s)\<lparr>output_low_first := - c\<rparr>"
  "mirror (s\<lparr>output_low_first := c\<rparr>) = (mirror s)\<lparr>output_up_first := - c\<rparr>"
  "mirror (s\<lparr>j_up := j\<rparr>) = (mirror s)\<lparr>j_low := j\<rparr>"
  "mirror (s\<lparr>j_low := j\<rparr>) = (mirror s)\<lparr>j_up := j\<rparr>"
  "mirror (s\<lparr>jseg := j\<rparr>) = (mirror s)\<lparr>jseg := j\<rparr>"
  "mirror (s\<lparr>indjseg := j\<rparr>) = (mirror s)\<lparr>indjseg := j\<rparr>"
  "mirror (s\<lparr>indstart_up := a\<rparr>) = (mirror s)\<lparr>indstart_low := a\<rparr>"
  "mirror (s\<lparr>indstart_low := a\<rparr>) = (mirror s)\<lparr>indstart_up := a\<rparr>"
  "mirror (s\<lparr>output_buf := b\<rparr>) = (mirror s)\<lparr>output_buf := neg_buf b\<rparr>"
  by (simp_all add: mirror_def)

lemma unwind_low_mirror: "unwind_low n i s = mres (unwind_up n i (mirror s))"
proof (induction n i s rule: unwind_low.induct)
  case (1 n i s)
  show ?case
    apply (subst unwind_low.simps, subst unwind_up.simps)
    apply (auto simp: ebind_def rd_neg_buf "1.IH" split: sum.splits)
    apply (simp_all add: algebra_simps)
    done
qed

definition mpair :: "err + (real option list \<times> u32) \<Rightarrow> err + (real option list \<times> u32)" where
  "mpair r = (case r of Inl e \<Rightarrow> Inl e | Inr (out, k) \<Rightarrow> Inr (neg_buf out, k))"

lemma mpair_simps [simp]: "mpair (Inl e) = Inl e" "mpair (Inr (out, k)) = Inr (neg_buf out, k)"
  by (simp_all add: mpair_def)

lemma fill_lt_mirror: "fill_lt n b v (neg_buf out) k = mpair (fill_lt n b (- v) out k)"
proof (induction n b "- v" out k rule: fill_lt.induct)
  case (1 n b out k)
  show ?case
    apply (subst fill_lt.simps, subst (2) fill_lt.simps)
    apply (auto simp: ebind_def wr_neg_buf "1.hyps" split: sum.splits)
    done
qed

lemma fill_le_mirror: "fill_le n b v (neg_buf out) k = mpair (fill_le n b (- v) out k)"
proof (induction n b "- v" out k rule: fill_le.induct)
  case (1 n b out k)
  show ?case
    apply (subst fill_le.simps, subst (2) fill_le.simps)
    apply (auto simp: ebind_def wr_neg_buf "1.hyps" split: sum.splits)
    done
qed

lemma commit_up_mirror: "commit_up n i s = mres (commit_low n i (mirror s))"
proof (induction n i s rule: commit_up.induct)
  case (1 n i s)
  show ?case
    apply (subst commit_up.simps, subst commit_low.simps)
    apply (auto simp: ebind_def rd_neg_buf fill_lt_mirror mpair_def "1.IH" split: sum.splits prod.splits)
    apply (simp_all add: algebra_simps)
    done
qed

lemma flush_up_mirror: "flush_up n s = mres (flush_low n (mirror s))"
proof (induction n s rule: flush_up.induct)
  case (1 n s)
  show ?case
    apply (subst flush_up.simps, subst flush_low.simps)
    apply (auto simp: ebind_def rd_neg_buf fill_lt_mirror mpair_def "1.IH" split: sum.splits prod.splits)
    done
qed

lemma low_absorb_mirror: "low_absorb n i x s = mres (up_absorb n i (- x) (mirror s))"
  apply (simp add: low_absorb_def up_absorb_def unwind_low_mirror)
  apply (auto simp: ebind_def wr_neg_buf divu_def split: sum.splits)
  apply (simp_all add: algebra_simps diff_divide_distrib)
  done

lemma rd_in_neg: "rd_in (map uminus inp) k = ebind (rd_in inp k) (\<lambda>v. Inr (- v))"
  by (simp add: rd_in_def)

lemma push_up_mirror: "push_up n inp i s = mres (push_low n (map uminus inp) i (mirror s))"
  by (auto simp: push_up_def push_low_def ebind_def wr_neg_buf rd_in_neg split: sum.splits)

lemma store_low_mirror: "store_low n s = mres (store_up n (mirror s))"
  by (auto simp: store_low_def store_up_def ebind_def wr_neg_buf split: sum.splits)

lemma low_close_mirror: "low_close n lam i s = mres (up_close_below n lam i (mirror s))"
  by (auto simp: low_close_def up_close_below_def commit_up_mirror store_low_mirror ebind_def
           split: sum.splits)

definition up_ok :: "nat \<Rightarrow> st \<Rightarrow> bool" where
  "up_ok m s = seg_ok m (indstart_up s) (output_buf s) (jseg s) (indjseg s) (j_up s)"

definition low_ok :: "nat \<Rightarrow> st \<Rightarrow> bool" where
  "low_ok m s = seg_ok m (indstart_low s) (output_buf s) (jseg s) (indjseg s) (j_low s)"

definition bufs :: "u32 \<Rightarrow> st \<Rightarrow> bool" where
  "bufs n s \<longleftrightarrow> length (output_buf s) = unat n \<and> length (indstart_low s) = unat n \<and>
     length (indstart_up s) = unat n"

definition filled :: "st \<Rightarrow> bool" where
  "filled s \<longleftrightarrow> (\<forall>t < unat (indjseg s). t < length (output_buf s) \<longrightarrow> output_buf s ! t \<noteq> None)"

definition init_mono :: "real option list \<Rightarrow> real option list \<Rightarrow> bool" where
  "init_mono out out' \<longleftrightarrow> length out' = length out \<and> (\<forall>t < length out. out ! t \<noteq> None \<longrightarrow> out' ! t \<noteq> None)"

lemma init_mono_refl [simp]: "init_mono out out"
  by (simp add: init_mono_def)

lemma init_mono_trans: "init_mono a b \<Longrightarrow> init_mono b c \<Longrightarrow> init_mono a c"
  by (auto simp: init_mono_def)

lemma init_mono_update [simp]: "init_mono out (out[k := Some v])"
  by (cases "k < length out") (auto simp: init_mono_def nth_list_update)

lemma seg_ok_init_mono:
  assumes ok: "seg_ok m a out js ij j" and mono: "init_mono out out'" and m: "m < length out"
  shows "seg_ok m a out' js ij j"
proof -
  have "out' ! unat (the (a ! k)) \<noteq> None" if k: "unat js < k" "k \<le> unat j" for k
  proof -
    have "unat (the (a ! k)) \<le> m" "out ! unat (the (a ! k)) \<noteq> None"
      using ok k by (simp_all add: seg_ok_def)
    then show ?thesis using mono m by (simp add: init_mono_def)
  qed
  then show ?thesis using ok by (simp add: seg_ok_def)
qed

lemma neg_buf_None: "t < length out \<Longrightarrow> neg_buf out ! t = None \<longleftrightarrow> out ! t = None"
  by (simp add: neg_buf_def)

lemma init_mono_neg_buf: "init_mono out (neg_buf out)" "init_mono (neg_buf out) out"
  by (simp_all add: init_mono_def neg_buf_None)

lemma seg_ok_neg_buf: "m < length out \<Longrightarrow> seg_ok m a (neg_buf out) js ij j = seg_ok m a out js ij j"
  using seg_ok_init_mono[OF _ init_mono_neg_buf(1), of m a out js ij j]
        seg_ok_init_mono[OF _ init_mono_neg_buf(2), of m a out js ij j]
  by auto

lemma seg_ok_advance:
  assumes ok: "seg_ok m a out js ij j" and lt: "unat js < unat j"
    and e: "a ! Suc (unat js) = Some e"
  shows "seg_ok m a out (js + 1) e j"
proof -
  have w: "js < j" using lt by (rule unat_less_word)
  have suc: "unat (js + 1) = Suc (unat js)" using unat_inc[OF w] by simp
  have 1: "unat (js + 1) \<le> unat j" using lt suc by simp
  have 2: "unat j \<le> m" using ok by (simp add: seg_ok_def)
  have 3: "a ! unat (js + 1) = Some e" using e suc by simp
  have 4: "\<forall>k. unat (js + 1) \<le> k \<and> k \<le> unat j \<longrightarrow> a ! k \<noteq> None \<and> unat (the (a ! k)) \<le> m"
    using ok suc by (simp add: seg_ok_def)
  have 5: "\<forall>k. unat (js + 1) \<le> k \<and> k < unat j \<longrightarrow> unat (the (a ! k)) < unat (the (a ! Suc k))"
    using ok suc by (simp add: seg_ok_def)
  have 6: "\<forall>k. unat (js + 1) < k \<and> k \<le> unat j \<longrightarrow> out ! unat (the (a ! k)) \<noteq> None"
    using ok suc by (simp add: seg_ok_def)
  show ?thesis unfolding seg_ok_def using 1 2 3 4 5 6 by blast
qed

lemma commit_low_ok:
  "bufs n s \<Longrightarrow> i < n \<Longrightarrow> low_ok (unat i) s \<Longrightarrow> filled s \<Longrightarrow>
   \<exists>s'. commit_low n i s = Inr s' \<and> bufs n s' \<and> low_ok (unat i) s' \<and> filled s' \<and>
     indstart_up s' = indstart_up s \<and> indstart_low s' = indstart_low s \<and>
     j_up s' = j_up s \<and> j_low s' = j_low s \<and>
     init_mono (output_buf s) (output_buf s')"
proof (induction n i s rule: commit_low.induct)
  case (1 n i s)
  note ok = \<open>low_ok (unat i) s\<close>[unfolded low_ok_def]
  have in_n: "unat i < unat n" using 1 by (simp add: word_less_nat_alt)
  show ?case
  proof (cases "output_up_curr s \<le> output_low_first s \<and> jseg s < j_low s")
    case False
    then have "commit_low n i s = Inr s" by (subst commit_low.simps) (simp only: if_False)
    then show ?thesis using 1 by simp
  next
    case True
    then have jlt: "unat (jseg s) < unat (j_low s)" by (simp add: word_less_nat_alt)
    have suc: "unat (jseg s + 1) = Suc (unat (jseg s))" using unat_inc[of "jseg s" "j_low s"] True by simp
    have jm: "unat (j_low s) \<le> unat i" using seg_ok_bounds[OF ok] by simp
    obtain e where e: "indstart_low s ! Suc (unat (jseg s)) = Some e" and em: "unat e \<le> unat i"
      using seg_ok_some[OF ok, of "Suc (unat (jseg s))"] jlt by auto
    have lte: "unat (indjseg s) < unat e"
      using seg_ok_incr[OF ok order_refl jlt seg_ok_first[OF ok] e] .
    have einit: "output_buf s ! unat e \<noteq> None"
      using seg_ok_init[OF ok _ _ e] jlt by simp
    have r1: "rd n (indstart_low s) (jseg s + 1) = Inr e"
      using e suc jlt jm in_n 1 by (intro rd_Some unat_less_word) (auto simp: bufs_def)
    have nz: "i - e + 1 \<noteq> 0" using em 1 by (intro span_nonzero)
    let ?r = "real (unat (e - indjseg s)) / real (unat (i - e + 1))"
    have r2: "ratio (e - indjseg s) (i - e + 1) = Inr ?r" using nz by (simp add: ratio_def)
    obtain out' where f: "fill_lt n e (output_low_first s) (output_buf s) (indjseg s) = Inr (out', e)"
      and len: "length out' = unat n"
      and cells: "\<forall>t < unat n. out' ! t =
          (if unat (indjseg s) \<le> t \<and> t < unat e then Some (output_low_first s) else output_buf s ! t)"
      using fill_lt_ok[of "output_buf s" n "indjseg s" e "output_low_first s"] lte em in_n 1
      by (auto simp: bufs_def word_le_nat_alt)
    have mono: "init_mono (output_buf s) out'"
      using cells len 1 by (auto simp: init_mono_def bufs_def)
    have "out' ! unat e = output_buf s ! unat e" using cells em in_n by simp
    then obtain v where v: "out' ! unat e = Some v" using einit by auto
    have r3: "rd n out' e = Inr v"
      using v em in_n len by (intro rd_Some unat_less_word) auto
    let ?s' = "s\<lparr>jseg := jseg s + 1,
                output_up_curr := output_up_curr s + (output_up_curr s - output_low_first s) * ?r,
                output_buf := out', indjseg := e, output_low_first := v\<rparr>"
    have b': "bufs n ?s'" using 1 len by (simp add: bufs_def)
    have ok': "low_ok (unat i) ?s'"
      unfolding low_ok_def using seg_ok_init_mono[OF seg_ok_advance[OF ok jlt e] mono] in_n 1
      by (simp add: bufs_def)
    have fl': "filled ?s'"
      using \<open>filled s\<close> cells em in_n len 1 by (auto simp: filled_def bufs_def)
    obtain s'' where res: "commit_low n i ?s' = Inr s''" and post: "bufs n s''" "low_ok (unat i) s''"
      "filled s''" "indstart_up s'' = indstart_up ?s'" "indstart_low s'' = indstart_low ?s'"
      "j_up s'' = j_up ?s'" "j_low s'' = j_low ?s'"
      "init_mono (output_buf ?s') (output_buf s'')"
      using "1.IH"[OF True r1 r2 f refl r3 b' \<open>i < n\<close> ok' fl'] by blast
    have "commit_low n i s = Inr s''"
      using res by (subst commit_low.simps) (simp add: True r1 r2 f r3)
    then show ?thesis using post init_mono_trans[OF mono] by auto
  qed
qed

definition sinv :: "u32 \<Rightarrow> nat \<Rightarrow> st \<Rightarrow> bool" where
  "sinv n m s \<longleftrightarrow> bufs n s \<and> m < unat n \<and> low_ok m s \<and> up_ok m s \<and> filled s"

lemma bufs_mirror [simp]: "bufs n (mirror s) = bufs n s"
  by (auto simp: bufs_def)

lemma filled_mirror [simp]: "filled (mirror s) = filled s"
  by (auto simp: filled_def neg_buf_None)

lemma low_ok_mirror: "m < length (output_buf s) \<Longrightarrow> low_ok m (mirror s) = up_ok m s"
  by (simp add: low_ok_def up_ok_def seg_ok_neg_buf)

lemma up_ok_mirror: "m < length (output_buf s) \<Longrightarrow> up_ok m (mirror s) = low_ok m s"
  by (simp add: low_ok_def up_ok_def seg_ok_neg_buf)

lemma seg_ok_idx: "seg_ok m a out js ij j \<Longrightarrow> unat ij \<le> m"
  using seg_ok_some[of m a out js ij j "unat js"] by (auto simp: seg_ok_def)

lemma sinv_mirror: "sinv n m (mirror s) = sinv n m s"
proof (cases "bufs n s \<and> m < unat n")
  case True
  then have "m < length (output_buf s)" by (simp add: bufs_def)
  then show ?thesis using True by (auto simp: sinv_def low_ok_mirror up_ok_mirror)
next
  case False
  then show ?thesis by (auto simp: sinv_def)
qed

lemma sinv_idx: "sinv n m s \<Longrightarrow> unat (indjseg s) \<le> m"
  by (auto simp: sinv_def low_ok_def dest: seg_ok_idx)

lemma seg_ok_weaken: "seg_ok m a out js ij j \<Longrightarrow> m \<le> m' \<Longrightarrow> seg_ok m' a out js ij j"
  unfolding seg_ok_def by (meson le_trans)

lemma sinv_weaken: "sinv n m s \<Longrightarrow> m \<le> m' \<Longrightarrow> m' < unat n \<Longrightarrow> sinv n m' s"
  by (auto simp: sinv_def low_ok_def up_ok_def intro: seg_ok_weaken)

lemma filled_init_mono:
  "filled s \<Longrightarrow> init_mono (output_buf s) (output_buf s') \<Longrightarrow> indjseg s' = indjseg s \<Longrightarrow> filled s'"
  by (auto simp: filled_def init_mono_def)

lemma up_absorb_ok:
  assumes inv: "sinv n (unat i) s" and i: "i < n"
  shows "\<exists>s'. up_absorb n i x s = Inr s' \<and> sinv n (unat i) s' \<and>
           output_buf s' ! unat (indjseg s') \<noteq> None \<and> indjseg s' = indjseg s \<and>
           jseg s' = jseg s \<and> j_low s' = j_low s"
proof -
  have b: "bufs n s" and up: "up_ok (unat i) s" and low: "low_ok (unat i) s" and fl: "filled s"
    and in_n: "unat i < unat n"
    using inv by (auto simp: sinv_def)
  note ok = up[unfolded up_ok_def]
  have jm: "unat (jseg s) \<le> unat (j_up s)" "unat (j_up s) \<le> unat i" using seg_ok_bounds[OF ok] by auto
  obtain a where a: "indstart_up s ! unat (j_up s) = Some a" and am: "unat a \<le> unat i"
    using seg_ok_some[OF ok jm(1) order_refl] by auto
  have r1: "rd n (indstart_up s) (j_up s) = Inr a"
    using a jm in_n b by (intro rd_Some unat_less_word) (auto simp: bufs_def)
  have nz: "i - a + 1 \<noteq> 0" using am i by (intro span_nonzero)
  let ?q = "(x - output_up_curr s) / real (unat (i - a + 1))"
  have r2: "divu (x - output_up_curr s) (i - a + 1) = Inr ?q" using nz by (simp add: divu_def)
  have im: "unat (indjseg s) \<le> unat i" using sinv_idx[OF inv] .
  let ?out = "(output_buf s)[unat (indjseg s) := Some (output_up_first s)]"
  have r3: "wr n (output_buf s) (indjseg s) (output_up_first s) = Inr ?out"
    using im in_n b by (intro wr_ok unat_less_word) (auto simp: bufs_def)
  let ?s1 = "s\<lparr>output_up_curr := output_up_curr s + ?q, output_buf := ?out\<rparr>"
  have len: "unat i < length (output_buf s)" using in_n b by (simp add: bufs_def)
  have ok1: "seg_ok (unat i) (indstart_up ?s1) (output_buf ?s1) (jseg ?s1) (indjseg ?s1) (j_up ?s1)"
    using seg_ok_init_mono[OF ok init_mono_update len] by simp
  have init1: "output_buf ?s1 ! unat (indjseg ?s1) \<noteq> None" using im len by simp
  obtain c j where res: "unwind_up n i ?s1 = Inr (?s1\<lparr>output_up_curr := c, j_up := j\<rparr>)"
    and j: "unat (jseg ?s1) \<le> unat j" "unat j \<le> unat (j_up ?s1)"
    using unwind_up_ok[OF _ _ i ok1 init1] b by (auto simp: bufs_def)
  let ?s' = "?s1\<lparr>output_up_curr := c, j_up := j\<rparr>"
  have "up_absorb n i x s = Inr ?s'" using res by (simp add: up_absorb_def r1 r2 r3)
  moreover have "bufs n ?s'" using b by (simp add: bufs_def)
  moreover have "up_ok (unat i) ?s'"
    unfolding up_ok_def using seg_ok_shrink[OF ok1, of j] j by simp
  moreover have "low_ok (unat i) ?s'"
    unfolding low_ok_def using seg_ok_init_mono[OF low[unfolded low_ok_def] init_mono_update len] by simp
  moreover have "filled ?s'" using fl by (auto simp: filled_def)
  ultimately show ?thesis using in_n init1 by (intro exI[of _ ?s']) (simp add: sinv_def)
qed

lemma store_up_ok:
  assumes inv: "sinv n (unat i) s" and i: "i < n"
  shows "\<exists>s'. store_up n s = Inr s' \<and> sinv n (unat i) s'"
proof -
  have b: "bufs n s" and up: "up_ok (unat i) s" and low: "low_ok (unat i) s" and fl: "filled s"
    and in_n: "unat i < unat n"
    using inv by (auto simp: sinv_def)
  note ok = up[unfolded up_ok_def]
  have jm: "unat (jseg s) \<le> unat (j_up s)" "unat (j_up s) \<le> unat i" using seg_ok_bounds[OF ok] by auto
  obtain a where a: "indstart_up s ! unat (j_up s) = Some a" and am: "unat a \<le> unat i"
    using seg_ok_some[OF ok jm(1) order_refl] by auto
  have r1: "rd n (indstart_up s) (j_up s) = Inr a"
    using a jm in_n b by (intro rd_Some unat_less_word) (auto simp: bufs_def)
  let ?out = "(output_buf s)[unat a := Some (output_up_curr s)]"
  have r3: "wr n (output_buf s) a (output_up_curr s) = Inr ?out"
    using am in_n b by (intro wr_ok unat_less_word) (auto simp: bufs_def)
  have len: "unat i < length (output_buf s)" using in_n b by (simp add: bufs_def)
  let ?s' = "s\<lparr>output_buf := ?out\<rparr>"
  have "store_up n s = Inr ?s'" by (simp add: store_up_def r1 r3)
  moreover have "bufs n ?s'" using b by (simp add: bufs_def)
  moreover have "up_ok (unat i) ?s'"
    unfolding up_ok_def using seg_ok_init_mono[OF ok init_mono_update len] by simp
  moreover have "low_ok (unat i) ?s'"
    unfolding low_ok_def using seg_ok_init_mono[OF low[unfolded low_ok_def] init_mono_update len] by simp
  moreover have "filled ?s'" using fl by (rule filled_init_mono) simp_all
  ultimately show ?thesis using in_n by (intro exI[of _ ?s']) (simp add: sinv_def)
qed

lemma seg_ok_single:
  "unat js \<le> m \<Longrightarrow> unat ij \<le> m \<Longrightarrow> a ! unat js = Some ij \<Longrightarrow> seg_ok m a out js ij js"
  by (auto simp: seg_ok_def dest: le_antisym)

lemma up_reset_ok:
  assumes b: "bufs n s" and i: "i < n" and low: "low_ok (unat i) s" and fl: "filled s"
  shows "\<exists>a. wr n (indstart_up s) (jseg s) (indjseg s) = Inr a \<and>
           (\<forall>s'. indstart_low s' = indstart_low s \<and> indstart_up s' = a \<and>
                 output_buf s' = output_buf s \<and> j_low s' = j_low s \<and> j_up s' = jseg s \<and>
                 jseg s' = jseg s \<and> indjseg s' = indjseg s \<longrightarrow> sinv n (unat i) s')"
proof -
  have in_n: "unat i < unat n" using i by (simp add: word_less_nat_alt)
  note ok = low[unfolded low_ok_def]
  have jm: "unat (jseg s) \<le> unat i" using seg_ok_bounds[OF ok] by auto
  have im: "unat (indjseg s) \<le> unat i" using seg_ok_idx[OF ok] .
  let ?a = "(indstart_up s)[unat (jseg s) := Some (indjseg s)]"
  have w: "wr n (indstart_up s) (jseg s) (indjseg s) = Inr ?a"
    using jm in_n b by (intro wr_ok unat_less_word) (auto simp: bufs_def)
  have "sinv n (unat i) s'"
    if "indstart_low s' = indstart_low s \<and> indstart_up s' = ?a \<and>
        output_buf s' = output_buf s \<and> j_low s' = j_low s \<and> j_up s' = jseg s \<and>
        jseg s' = jseg s \<and> indjseg s' = indjseg s" for s'
    using that b in_n low fl jm im
    by (auto simp: sinv_def bufs_def low_ok_def up_ok_def filled_def intro!: seg_ok_single)
  then show ?thesis using w by blast
qed

lemma up_close_below_ok:
  assumes inv: "sinv n (unat i) s" and i: "i < n"
  shows "\<exists>s'. up_close_below n lam i s = Inr s' \<and> sinv n (unat i) s'"
proof (cases "j_up s = jseg s")
  case False
  then show ?thesis using store_up_ok[OF inv i] by (simp add: up_close_below_def)
next
  case True
  have b: "bufs n s" and low: "low_ok (unat i) s" and fl: "filled s"
    using inv by (auto simp: sinv_def)
  obtain s1 where c: "commit_low n i s = Inr s1" and p: "bufs n s1" "low_ok (unat i) s1" "filled s1"
    using commit_low_ok[OF b i low fl] by blast
  obtain a where w: "wr n (indstart_up s1) (jseg s1) (indjseg s1) = Inr a"
    and r: "\<forall>s'. indstart_low s' = indstart_low s1 \<and> indstart_up s' = a \<and>
                 output_buf s' = output_buf s1 \<and> j_low s' = j_low s1 \<and> j_up s' = jseg s1 \<and>
                 jseg s' = jseg s1 \<and> indjseg s' = indjseg s1 \<longrightarrow> sinv n (unat i) s'"
    using up_reset_ok[OF p(1) i p(2) p(3)] by blast
  show ?thesis using True c w r by (simp add: up_close_below_def)
qed

lemma up_close_mid_ok:
  assumes inv: "sinv n (unat i) s" and i: "i < n"
  shows "\<exists>s'. up_close_mid n i s = Inr s' \<and> sinv n (unat i) s'"
proof (cases "j_up s = jseg s")
  case False
  then show ?thesis using store_up_ok[OF inv i] by (simp add: up_close_mid_def)
next
  case True
  have b: "bufs n s" and low: "low_ok (unat i) s" and fl: "filled s"
    using inv by (auto simp: sinv_def)
  obtain s1 where c: "commit_low n i s = Inr s1" and p: "bufs n s1" "low_ok (unat i) s1" "filled s1"
    using commit_low_ok[OF b i low fl] by blast
  obtain a where w: "wr n (indstart_up s1) (jseg s1) (indjseg s1) = Inr a"
    and r: "\<forall>s'. indstart_low s' = indstart_low s1 \<and> indstart_up s' = a \<and>
                 output_buf s' = output_buf s1 \<and> j_low s' = j_low s1 \<and> j_up s' = jseg s1 \<and>
                 jseg s' = jseg s1 \<and> indjseg s' = indjseg s1 \<longrightarrow> sinv n (unat i) s'"
    using up_reset_ok[OF p(1) i p(2) p(3)] by blast
  show ?thesis using True c w r by (simp add: up_close_mid_def)
qed

lemma seg_ok_push:
  assumes ok: "seg_ok m a out js ij j" and w: "m < unat w" "unat w \<le> m'"
    and j: "unat (j + 1) = Suc (unat j)" "Suc (unat j) \<le> m'"
    and len: "Suc (unat j) < length a" "unat w < length out"
  shows "seg_ok m' (a[Suc (unat j) := Some w]) (out[unat w := Some x]) js ij (j + 1)"
proof -
  let ?a = "a[Suc (unat j) := Some w]" and ?out = "out[unat w := Some x]"
  have b: "unat js \<le> unat j" "unat j \<le> m" using seg_ok_bounds[OF ok] by auto
  have old: "?a ! k = a ! k" if "k \<le> unat j" for k using that by simp
  have new: "?a ! Suc (unat j) = Some w" using len by simp
  have 1: "unat js \<le> unat (j + 1)" using b j by simp
  have 2: "unat (j + 1) \<le> m'" using j by simp
  have 3: "?a ! unat js = Some ij" using old[OF b(1)] seg_ok_first[OF ok] by simp
  have 4: "?a ! k \<noteq> None \<and> unat (the (?a ! k)) \<le> m'" if "unat js \<le> k" "k \<le> unat (j + 1)" for k
  proof (cases "k \<le> unat j")
    case True
    then show ?thesis using old[OF True] seg_ok_some[OF ok that(1) True] w by auto
  next
    case False
    then have "k = Suc (unat j)" using that j by simp
    then show ?thesis using new w by simp
  qed
  have 5: "unat (the (?a ! k)) < unat (the (?a ! Suc k))" if "unat js \<le> k" "k < unat (j + 1)" for k
  proof (cases "k < unat j")
    case True
    then have "?a ! k = a ! k" "?a ! Suc k = a ! Suc k" by simp_all
    then show ?thesis using ok that True by (simp add: seg_ok_def)
  next
    case False
    then have k: "k = unat j" using that j by simp
    have "unat (the (a ! unat j)) \<le> m" using seg_ok_some[OF ok b(1) order_refl] by auto
    then show ?thesis using k new w by simp
  qed
  have 6: "?out ! unat (the (?a ! k)) \<noteq> None" if "unat js < k" "k \<le> unat (j + 1)" for k
  proof (cases "k \<le> unat j")
    case True
    have "out ! unat (the (a ! k)) \<noteq> None" using ok that True by (simp add: seg_ok_def)
    moreover have "init_mono out ?out" by simp
    moreover have "unat (the (a ! k)) < length out"
      using seg_ok_some[OF ok _ True] that w len by auto
    ultimately show ?thesis using old[OF True] by (simp add: init_mono_def)
  next
    case False
    then have "k = Suc (unat j)" using that j by simp
    then show ?thesis using new len by simp
  qed
  show ?thesis unfolding seg_ok_def using 1 2 3 4 5 6 by blast
qed

lemma rd_in_ok: "unat k < length inp \<Longrightarrow> rd_in inp k = Inr (inp ! unat k)"
  by (simp add: rd_in_def)

lemma push_low_ok:
  assumes inv: "sinv n (unat i - 1) s" and i: "0 < i" "i < n" and inp: "unat n \<le> length inp"
  shows "\<exists>s'. push_low n inp i s = Inr s' \<and> sinv n (unat i) s'"
proof -
  have b: "bufs n s" and up: "up_ok (unat i - 1) s" and low: "low_ok (unat i - 1) s" and fl: "filled s"
    using inv by (auto simp: sinv_def)
  have in_n: "unat i < unat n" and ipos: "0 < unat i" using i by (simp_all add: word_less_nat_alt)
  note ok = low[unfolded low_ok_def]
  have jm: "unat (j_low s) \<le> unat i - 1" using seg_ok_bounds[OF ok] by auto
  then have jlt: "j_low s < i" using ipos by (intro unat_less_word) simp
  have suc: "unat (j_low s + 1) = Suc (unat (j_low s))" using unat_inc[OF jlt] by simp
  let ?a = "(indstart_low s)[Suc (unat (j_low s)) := Some i]"
  have w1: "wr n (indstart_low s) (j_low s + 1) i = Inr ?a"
    using suc jm ipos in_n b wr_ok[of "j_low s + 1" n "indstart_low s" i]
    by (simp add: bufs_def word_less_nat_alt)
  have r: "rd_in inp i = Inr (inp ! unat i)" using in_n inp by (intro rd_in_ok) simp
  let ?out = "(output_buf s)[unat i := Some (inp ! unat i)]"
  have w2: "wr n (output_buf s) i (inp ! unat i) = Inr ?out"
    using in_n b i by (intro wr_ok) (auto simp: bufs_def)
  let ?s' = "s\<lparr>j_low := j_low s + 1, indstart_low := ?a, output_buf := ?out,
               output_low_curr := inp ! unat i\<rparr>"
  have res: "push_low n inp i s = Inr ?s'" by (simp add: push_low_def w1 r w2 suc)
  have len: "unat i < length (output_buf s)" using in_n b by (simp add: bufs_def)
  have "low_ok (unat i) ?s'"
    unfolding low_ok_def
    using seg_ok_push[OF ok, of i "unat i" "inp ! unat i"] suc jm ipos in_n b
    by (simp add: bufs_def)
  moreover have "up_ok (unat i) ?s'"
    unfolding up_ok_def
    using seg_ok_init_mono[OF seg_ok_weaken[OF up[unfolded up_ok_def], of "unat i"] init_mono_update len]
    by simp
  moreover have "filled ?s'" using fl by (rule filled_init_mono) simp_all
  moreover have "bufs n ?s'" using b by (simp add: bufs_def)
  ultimately show ?thesis using res in_n by (intro exI[of _ ?s']) (simp add: sinv_def)
qed

lemma flush_low_ok:
  "bufs n s \<Longrightarrow> unat m < unat n \<Longrightarrow> low_ok (unat m) s \<Longrightarrow> filled s \<Longrightarrow>
   \<exists>s'. flush_low n s = Inr s' \<and> bufs n s' \<and> low_ok (unat m) s' \<and> filled s' \<and>
     indstart_up s' = indstart_up s \<and> indstart_low s' = indstart_low s \<and>
     j_up s' = j_up s \<and> j_low s' = j_low s \<and> jseg s' = j_low s \<and>
     init_mono (output_buf s) (output_buf s')"
proof (induction n s rule: flush_low.induct)
  case (1 n s)
  note ok = \<open>low_ok (unat m) s\<close>[unfolded low_ok_def]
  note in_n = \<open>unat m < unat n\<close>
  show ?case
  proof (cases "jseg s < j_low s")
    case False
    have "unat (jseg s) = unat (j_low s)" using False seg_ok_bounds[OF ok] by (simp add: word_less_nat_alt)
    then have eq: "jseg s = j_low s" by (simp add: word_unat_eq_iff)
    have "flush_low n s = Inr s" using False by (subst flush_low.simps) simp
    then show ?thesis using 1 eq by simp
  next
    case True
    then have jlt: "unat (jseg s) < unat (j_low s)" by (simp add: word_less_nat_alt)
    have suc: "unat (jseg s + 1) = Suc (unat (jseg s))" using unat_inc[of "jseg s" "j_low s"] True by simp
    have jm: "unat (j_low s) \<le> unat m" using seg_ok_bounds[OF ok] by simp
    obtain e where e: "indstart_low s ! Suc (unat (jseg s)) = Some e" and em: "unat e \<le> unat m"
      using seg_ok_some[OF ok, of "Suc (unat (jseg s))"] jlt by auto
    have lte: "unat (indjseg s) < unat e"
      using seg_ok_incr[OF ok order_refl jlt seg_ok_first[OF ok] e] .
    have einit: "output_buf s ! unat e \<noteq> None"
      using seg_ok_init[OF ok _ _ e] jlt by simp
    have r1: "rd n (indstart_low s) (jseg s + 1) = Inr e"
      using e suc jlt jm in_n 1 by (intro rd_Some unat_less_word) (auto simp: bufs_def)
    obtain out' where f: "fill_lt n e (output_low_first s) (output_buf s) (indjseg s) = Inr (out', e)"
      and len: "length out' = unat n"
      and cells: "\<forall>t < unat n. out' ! t =
          (if unat (indjseg s) \<le> t \<and> t < unat e then Some (output_low_first s) else output_buf s ! t)"
      using fill_lt_ok[of "output_buf s" n "indjseg s" e "output_low_first s"] lte em in_n 1
      by (auto simp: bufs_def word_le_nat_alt)
    have mono: "init_mono (output_buf s) out'"
      using cells len 1 by (auto simp: init_mono_def bufs_def)
    have "out' ! unat e = output_buf s ! unat e" using cells em in_n by simp
    then obtain v where v: "out' ! unat e = Some v" using einit by auto
    have r3: "rd n out' e = Inr v"
      using v em in_n len by (intro rd_Some unat_less_word) auto
    let ?s' = "s\<lparr>jseg := jseg s + 1, output_buf := out', indjseg := e, output_low_first := v\<rparr>"
    have b': "bufs n ?s'" using 1 len by (simp add: bufs_def)
    have ok': "low_ok (unat m) ?s'"
      unfolding low_ok_def using seg_ok_init_mono[OF seg_ok_advance[OF ok jlt e] mono] in_n 1
      by (simp add: bufs_def)
    have fl': "filled ?s'"
      using \<open>filled s\<close> cells em in_n len 1 by (auto simp: filled_def bufs_def)
    obtain s'' where res: "flush_low n ?s' = Inr s''" and post: "bufs n s''" "low_ok (unat m) s''"
      "filled s''" "indstart_up s'' = indstart_up ?s'" "indstart_low s'' = indstart_low ?s'"
      "j_up s'' = j_up ?s'" "j_low s'' = j_low ?s'" "jseg s'' = j_low ?s'"
      "init_mono (output_buf ?s') (output_buf s'')"
      using "1.IH"[OF True r1 f refl r3 b' in_n ok' fl'] by blast
    have "flush_low n s = Inr s''"
      using res by (subst flush_low.simps) (simp add: True r1 f r3)
    then show ?thesis using post init_mono_trans[OF mono] by auto
  qed
qed

lemma mres_Inr_iff: "mres r = Inr s' \<longleftrightarrow> r = Inr (mirror s')"
  by (cases r) (auto simp: mres_def intro: mirror_invol[symmetric])

lemma low_absorb_ok:
  assumes inv: "sinv n (unat i) s" and i: "i < n"
  shows "\<exists>s'. low_absorb n i x s = Inr s' \<and> sinv n (unat i) s' \<and>
           output_buf s' ! unat (indjseg s') \<noteq> None \<and> indjseg s' = indjseg s \<and>
           jseg s' = jseg s \<and> j_up s' = j_up s"
proof -
  obtain t where t: "up_absorb n i (- x) (mirror s) = Inr t" "sinv n (unat i) t"
    "output_buf t ! unat (indjseg t) \<noteq> None" "indjseg t = indjseg (mirror s)"
    "jseg t = jseg (mirror s)" "j_low t = j_low (mirror s)"
    using up_absorb_ok[of n i "mirror s" "- x"] inv i by (auto simp: sinv_mirror)
  have "unat (indjseg t) < length (output_buf t)"
    using sinv_idx[OF t(2)] t(2) by (simp add: sinv_def bufs_def)
  then have "output_buf (mirror t) ! unat (indjseg (mirror t)) \<noteq> None"
    using t(3) by (simp add: neg_buf_None)
  then show ?thesis using t by (intro exI[of _ "mirror t"]) (simp add: low_absorb_mirror sinv_mirror)
qed

lemma low_close_ok:
  assumes inv: "sinv n (unat i) s" and i: "i < n"
  shows "\<exists>s'. low_close n lam i s = Inr s' \<and> sinv n (unat i) s'"
proof -
  obtain t where t: "up_close_below n lam i (mirror s) = Inr t" "sinv n (unat i) t"
    using up_close_below_ok[of n i "mirror s" lam] inv i by (auto simp: sinv_mirror)
  then show ?thesis by (intro exI[of _ "mirror t"]) (simp add: low_close_mirror sinv_mirror)
qed

lemma push_up_ok:
  assumes inv: "sinv n (unat i - 1) s" and i: "0 < i" "i < n" and inp: "unat n \<le> length inp"
  shows "\<exists>s'. push_up n inp i s = Inr s' \<and> sinv n (unat i) s'"
proof -
  obtain t where t: "push_low n (map uminus inp) i (mirror s) = Inr t" "sinv n (unat i) t"
    using push_low_ok[of n i "mirror s" "map uminus inp"] inv i inp by (auto simp: sinv_mirror)
  then show ?thesis by (intro exI[of _ "mirror t"]) (simp add: push_up_mirror sinv_mirror)
qed

lemma flush_up_ok:
  assumes "bufs n s" "unat m < unat n" "up_ok (unat m) s" "filled s"
  shows "\<exists>s'. flush_up n s = Inr s' \<and> bufs n s' \<and> up_ok (unat m) s' \<and> filled s' \<and>
     indstart_up s' = indstart_up s \<and> indstart_low s' = indstart_low s \<and>
     j_up s' = j_up s \<and> j_low s' = j_low s \<and> jseg s' = j_up s \<and>
     init_mono (output_buf s) (output_buf s')"
proof -
  have len: "unat m < length (output_buf s)" using assms by (simp add: bufs_def)
  obtain t where t: "flush_low n (mirror s) = Inr t" "bufs n t" "low_ok (unat m) t" "filled t"
     "indstart_up t = indstart_up (mirror s)" "indstart_low t = indstart_low (mirror s)"
     "j_up t = j_up (mirror s)" "j_low t = j_low (mirror s)" "jseg t = j_low (mirror s)"
     "init_mono (output_buf (mirror s)) (output_buf t)"
    using flush_low_ok[of n "mirror s" m] assms len by (auto simp: low_ok_mirror)
  have len': "unat m < length (output_buf t)" using t assms by (simp add: bufs_def)
  have "init_mono (output_buf s) (output_buf (mirror t))"
    using init_mono_trans[OF init_mono_trans[OF init_mono_neg_buf(1) t(10)[simplified]] init_mono_neg_buf(1)]
    by simp
  then show ?thesis using t len'
    by (intro exI[of _ "mirror t"]) (simp add: flush_up_mirror up_ok_mirror)
qed

lemma step_ok:
  assumes inv: "sinv n (unat i - 1) s" and i: "0 < i" "i < n" and inp: "unat n \<le> length inp"
  shows "\<exists>s'. step n inp lam i s = Inr s' \<and> sinv n (unat i) s'"
proof -
  have in_n: "unat i < unat n" using i by (simp add: word_less_nat_alt)
  have r: "rd_in inp i = Inr (inp ! unat i)" using in_n inp by (intro rd_in_ok) simp
  have inv': "sinv n (unat i) s" using sinv_weaken[OF inv _ in_n] by simp
  let ?x = "inp ! unat i"
  show ?thesis
  proof (cases "?x \<ge> output_low_curr s")
    case False
    obtain s1 where 1: "push_low n inp i s = Inr s1" "sinv n (unat i) s1"
      using push_low_ok[OF inv i inp] by blast
    obtain s2 where 2: "up_absorb n i ?x s1 = Inr s2" "sinv n (unat i) s2"
      using up_absorb_ok[OF 1(2) i(2)] by blast
    obtain s3 where 3: "up_close_below n lam i s2 = Inr s3" "sinv n (unat i) s3"
      using up_close_below_ok[OF 2(2) i(2)] by blast
    show ?thesis using False r 1 2 3 by (simp add: step_def)
  next
    case True
    have "\<exists>s1. (if ?x \<le> output_up_curr s
                 then ebind (up_absorb n i ?x s) (up_close_mid n i)
                 else push_up n inp i s) = Inr s1 \<and> sinv n (unat i) s1"
    proof (cases "?x \<le> output_up_curr s")
      case True
      obtain s1 where 1: "up_absorb n i ?x s = Inr s1" "sinv n (unat i) s1"
        using up_absorb_ok[OF inv' i(2)] by blast
      obtain s2 where 2: "up_close_mid n i s1 = Inr s2" "sinv n (unat i) s2"
        using up_close_mid_ok[OF 1(2) i(2)] by blast
      show ?thesis using True 1 2 by simp
    next
      case False
      then show ?thesis using push_up_ok[OF inv i inp] by simp
    qed
    then obtain s1 where 1: "(if ?x \<le> output_up_curr s
                 then ebind (up_absorb n i ?x s) (up_close_mid n i)
                 else push_up n inp i s) = Inr s1" "sinv n (unat i) s1" by blast
    obtain s2 where 2: "low_absorb n i ?x s1 = Inr s2" "sinv n (unat i) s2"
      using low_absorb_ok[OF 1(2) i(2)] by blast
    obtain s3 where 3: "low_close n lam i s2 = Inr s3" "sinv n (unat i) s3"
      using low_close_ok[OF 2(2) i(2)] by blast
    show ?thesis using True r 1 2 3 by (simp add: step_def)
  qed
qed

lemma main_loop_ok:
  "sinv n (unat i - 1) s \<Longrightarrow> 0 < i \<Longrightarrow> i \<le> width \<Longrightarrow> width < n \<Longrightarrow> unat n \<le> length inp \<Longrightarrow>
   \<exists>s'. main_loop n inp lam width i s = Inr (width, s') \<and> sinv n (unat width - 1) s'"
proof (induction n inp lam width i s rule: main_loop.induct)
  case (1 n inp lam width i s)
  show ?case
  proof (cases "i < width")
    case False
    then have "i = width" using 1 by simp
    then show ?thesis using 1 by (subst main_loop.simps) simp
  next
    case True
    have i_n: "i < n" using True 1 by simp
    obtain s1 where s1: "step n inp lam i s = Inr s1" "sinv n (unat i) s1"
      using step_ok[OF "1.prems"(1,2) i_n "1.prems"(5)] by blast
    have suc: "unat (i + 1) = Suc (unat i)" using unat_inc[OF True] by simp
    have le: "i + 1 \<le> width" using True suc by (simp add: word_le_nat_alt word_less_nat_alt)
    have pos: "0 < i + 1" using suc by (simp add: word_less_nat_alt)
    obtain s' where "main_loop n inp lam width (i + 1) s1 = Inr (width, s')" "sinv n (unat width - 1) s'"
      using "1.IH"[OF True s1(1) _ pos le "1.prems"(4,5)] s1(2) suc by auto
    then show ?thesis using True s1 by (subst main_loop.simps) simp
  qed
qed

definition all_init :: "u32 \<Rightarrow> real option list \<Rightarrow> bool" where
  "all_init n out \<longleftrightarrow> length out = unat n \<and> (\<forall>t < unat n. out ! t \<noteq> None)"

lemma fill_le_all:
  assumes b: "bufs n s" and fl: "filled s" and k: "unat (indjseg s) \<le> unat i"
    and last: "Suc (unat i) = unat n"
  shows "\<exists>p. fill_le n i v (output_buf s) (indjseg s) = Inr p \<and> all_init n (fst p)"
proof -
  have i: "i < n" using last by (simp add: word_less_nat_alt)
  have suc: "unat (i + 1) = Suc (unat i)" using unat_inc[OF i] by simp
  have le: "indjseg s \<le> i + 1" using k suc by (simp add: word_le_nat_alt)
  obtain out' where f: "fill_le n i v (output_buf s) (indjseg s) = Inr (out', i + 1)"
    and len: "length out' = unat n"
    and cells: "\<forall>t < unat n. out' ! t =
       (if unat (indjseg s) \<le> t \<and> t \<le> unat i then Some v else output_buf s ! t)"
    using fill_le_ok[of "output_buf s" n "indjseg s" i v] b le i by (auto simp: bufs_def)
  have "out' ! t \<noteq> None" if "t < unat n" for t
    using cells that fl b last by (cases "unat (indjseg s) \<le> t") (auto simp: filled_def bufs_def)
  then show ?thesis using f len by (simp add: all_init_def)
qed

lemma fill_lt_wr_all:
  assumes b: "bufs n s" and fl: "filled s" and k: "unat (indjseg s) \<le> unat i"
    and last: "Suc (unat i) = unat n"
  shows "\<exists>p out. fill_lt n i v (output_buf s) (indjseg s) = Inr p \<and>
            wr n (fst p) (snd p) w = Inr out \<and> all_init n out"
proof -
  have i: "i < n" using last by (simp add: word_less_nat_alt)
  have le: "indjseg s \<le> i" using k by (simp add: word_le_nat_alt)
  obtain out' where f: "fill_lt n i v (output_buf s) (indjseg s) = Inr (out', i)"
    and len: "length out' = unat n"
    and cells: "\<forall>t < unat n. out' ! t =
       (if unat (indjseg s) \<le> t \<and> t < unat i then Some v else output_buf s ! t)"
    using fill_lt_ok[of "output_buf s" n "indjseg s" i v] b le less_imp_le[OF i] by (auto simp: bufs_def)
  have w: "wr n out' i w = Inr (out'[unat i := Some w])"
    using i len last by (intro wr_ok) auto
  have "out'[unat i := Some w] ! t \<noteq> None" if "t < unat n" for t
  proof (cases "t = unat i")
    case True
    then show ?thesis using len that by simp
  next
    case False
    then have "t < unat i" using that last by simp
    then show ?thesis using cells that fl b False
      by (cases "unat (indjseg s) \<le> t") (auto simp: filled_def bufs_def)
  qed
  then show ?thesis using f w len by (simp add: all_init_def)
qed

lemma finish_ok:
  assumes inv: "sinv n (unat i - 1) s" and ipos: "0 < i" and last: "Suc (unat i) = unat n"
    and inp: "unat n \<le> length inp"
  shows "\<exists>s'. finish n inp lam i s = Inr s' \<and> all_init n (output_buf s')"
proof -
  have i: "i < n" using last by (simp add: word_less_nat_alt)
  have in_n: "unat i < unat n" using last by simp
  have r: "rd_in inp i = Inr (inp ! unat i)" using in_n inp by (intro rd_in_ok) simp
  have inv': "sinv n (unat i) s" using sinv_weaken[OF inv _ in_n] by simp
  then have b: "bufs n s" and low: "low_ok (unat i) s" and up: "up_ok (unat i) s" and fl: "filled s"
    by (auto simp: sinv_def)
  let ?x = "inp ! unat i"
  consider (a) "?x + lam \<le> output_low_curr s"
    | (b) "\<not> ?x + lam \<le> output_low_curr s" "?x - lam \<ge> output_up_curr s"
    | (c) "\<not> ?x + lam \<le> output_low_curr s" "\<not> ?x - lam \<ge> output_up_curr s" by blast
  then show ?thesis
  proof cases
    case a
    obtain s1 where 1: "flush_low n s = Inr s1" "bufs n s1" "low_ok (unat i) s1" "filled s1"
      using flush_low_ok[OF b in_n low fl] by blast
    have k: "unat (indjseg s1) \<le> unat i" using seg_ok_idx[OF 1(3)[unfolded low_ok_def]] .
    obtain p out where 2: "fill_lt n i (output_low_first s1) (output_buf s1) (indjseg s1) = Inr p"
      "wr n (fst p) (snd p) (?x + lam) = Inr out" "all_init n out"
      using fill_lt_wr_all[OF 1(2) 1(4) k last] by blast
    show ?thesis using a r 1 2 by (simp add: finish_def)
  next
    case b
    obtain s1 where 1: "flush_up n s = Inr s1" "bufs n s1" "up_ok (unat i) s1" "filled s1"
      using flush_up_ok[OF \<open>bufs n s\<close> in_n up fl] by blast
    have k: "unat (indjseg s1) \<le> unat i" using seg_ok_idx[OF 1(3)[unfolded up_ok_def]] .
    obtain p out where 2: "fill_lt n i (output_up_first s1) (output_buf s1) (indjseg s1) = Inr p"
      "wr n (fst p) (snd p) (?x - lam) = Inr out" "all_init n out"
      using fill_lt_wr_all[OF 1(2) 1(4) k last] by blast
    show ?thesis using b r 1 2 by (simp add: finish_def)
  next
    case c
    obtain s1 where 1: "low_absorb n i (?x + lam) s = Inr s1" "sinv n (unat i) s1"
      using low_absorb_ok[OF inv' i] by blast
    then have b1: "bufs n s1" and low1: "low_ok (unat i) s1" and up1: "up_ok (unat i) s1"
      and fl1: "filled s1" by (auto simp: sinv_def)
    show ?thesis
    proof (cases "j_low s1 = jseg s1")
      case True
      show ?thesis
      proof (cases "output_up_first s1 \<ge> output_low_curr s1")
        case t2: True
        obtain p where 2: "fill_le n i (output_low_curr s1) (output_buf s1) (indjseg s1) = Inr p"
          "all_init n (fst p)"
          using fill_le_all[OF b1 fl1 sinv_idx[OF 1(2)] last] by blast
        show ?thesis using c r 1 True t2 2 by (simp add: finish_def set_output_def)
      next
        case f2: False
        obtain s2 where 2: "up_absorb n i (?x - lam) s1 = Inr s2" "sinv n (unat i) s2"
          using up_absorb_ok[OF 1(2) i] by blast
        then have b2: "bufs n s2" and up2: "up_ok (unat i) s2" and fl2: "filled s2"
          by (auto simp: sinv_def)
        obtain s3 where 3: "flush_up n s2 = Inr s3" "bufs n s3" "up_ok (unat i) s3" "filled s3"
          "jseg s3 = j_up s2" "j_up s3 = j_up s2"
          using flush_up_ok[OF b2 in_n up2 fl2] by blast
        note ok3 = 3(3)[unfolded up_ok_def]
        have fst3: "indstart_up s3 ! unat (j_up s3) = Some (indjseg s3)"
          using seg_ok_first[OF ok3] 3(5,6) by simp
        have r3: "rd n (indstart_up s3) (j_up s3) = Inr (indjseg s3)"
          using fst3 seg_ok_bounds[OF ok3] in_n 3(2)
          by (intro rd_Some unat_less_word) (auto simp: bufs_def)
        obtain p where 4: "fill_le n i (output_up_curr s3) (output_buf s3) (indjseg s3) = Inr p"
          "all_init n (fst p)"
          using fill_le_all[OF 3(2) 3(4) seg_ok_idx[OF ok3] last] by blast
        show ?thesis using c r 1 True f2 2 3 r3 4 by (simp add: finish_def set_output_def)
      qed
    next
      case False
      obtain s2 where 2: "flush_low n s1 = Inr s2" "bufs n s2" "low_ok (unat i) s2" "filled s2"
          "jseg s2 = j_low s1" "j_low s2 = j_low s1"
        using flush_low_ok[OF b1 in_n low1 fl1] by blast
      note ok2 = 2(3)[unfolded low_ok_def]
      have fst2: "indstart_low s2 ! unat (j_low s2) = Some (indjseg s2)"
        using seg_ok_first[OF ok2] 2(5,6) by simp
      have r2: "rd n (indstart_low s2) (j_low s2) = Inr (indjseg s2)"
        using fst2 seg_ok_bounds[OF ok2] in_n 2(2)
        by (intro rd_Some unat_less_word) (auto simp: bufs_def)
      obtain p where 4: "fill_le n i (output_low_curr s2) (output_buf s2) (indjseg s2) = Inr p"
        "all_init n (fst p)"
        using fill_le_all[OF 2(2) 2(4) seg_ok_idx[OF ok2] last] by blast
      show ?thesis using c r 1 False 2 r2 4 by (simp add: finish_def set_output_def)
    qed
  qed
qed

lemma all_init_map: "all_init n out \<Longrightarrow> out = map Some (map the out) \<and> length (map the out) = unat n"
  by (auto simp: all_init_def intro!: nth_equalityI)

lemma denoise_returns:
  assumes len: "length inp = unat width" and ne: "width \<noteq> 0 \<or> lam = 0"
  shows "\<exists>ys. TV1D_denoise inp width lam = Inr (map Some ys) \<and> length ys = length inp"
proof (cases "lam = 0")
  case True
  then show ?thesis
    using copy_loop_copies[of width width inp "replicate (unat width) None" 0] len
    by (auto simp: TV1D_denoise_def)
next
  case False
  then have w0: "width \<noteq> 0" using ne by simp
  then have wpos: "0 < unat width" by (simp add: unat_gt_0)
  have r0: "rd_in inp 0 = Inr (inp ! 0)" using wpos len by (simp add: rd_in_def)
  show ?thesis
  proof (cases "width = 1")
    case True
    then have "TV1D_denoise inp width lam = Inr (map Some [inp ! 0])"
      using False r0 by (simp add: TV1D_denoise_def Let_def wr_def)
    then show ?thesis using True len by (intro exI[of _ "[inp ! 0]"]) simp
  next
    case w1: False
    then have w2: "2 \<le> unat width" using wpos
      by (metis One_nat_def Suc_1 Suc_leI le_neq_implies_less unat_1 word_unat_eq_iff)
    let ?N = "replicate (unat width) None"
    let ?s0 = "\<lparr>indstart_low = ?N, indstart_up = ?N, output_buf = replicate (unat width) None,
                j_low = 0, j_up = 0, jseg = 0, indjseg = 0,
                output_low_first = inp ! 0 - lam, output_low_curr = inp ! 0 - lam,
                output_up_first = inp ! 0 + lam, output_up_curr = inp ! 0 + lam\<rparr>"
    let ?a = "?N[0 := Some (0::u32)]"
    let ?s1 = "?s0\<lparr>indstart_low := ?a, indstart_up := ?a\<rparr>"
    have wa: "wr width ?N 0 (0::u32) = Inr ?a" using wpos w0 by (simp add: wr_def word_gt_0)
    have inv: "sinv width (unat (1::u32) - 1) ?s1"
      using wpos by (auto simp: sinv_def bufs_def low_ok_def up_ok_def filled_def seg_ok_def)
    have dec: "unat (width - 1) = unat width - 1" using w0 by (simp add: unat_minus_one)
    have le: "(1::u32) \<le> width - 1" using dec w2 by (simp add: word_le_nat_alt)
    have lt: "width - 1 < width" using dec wpos by (simp add: word_less_nat_alt)
    obtain s' where m: "main_loop width inp lam (width - 1) 1 ?s1 = Inr (width - 1, s')"
      and inv': "sinv width (unat (width - 1) - 1) s'"
      using main_loop_ok[OF inv _ le lt, of inp lam] len by auto
    have pos: "0 < width - 1" using dec w2 by (simp add: word_less_nat_alt)
    obtain s'' where f: "finish width inp lam (width - 1) s' = Inr s''"
      and ai: "all_init width (output_buf s'')"
      using finish_ok[OF inv' pos, of inp lam] dec wpos len by auto
    have "TV1D_denoise inp width lam = Inr (output_buf s'')"
      using False r0 w1 wa m f by (simp add: TV1D_denoise_def Let_def)
    then show ?thesis using all_init_map[OF ai] len
      by (intro exI[of _ "map the (output_buf s'')"]) simp
  qed
qed


section \<open>The objective and its optimality condition\<close>

text \<open>
  \<open>tv\<close> is the total variation of a sequence and \<open>sq_err\<close> the sum of squared
  differences of two sequences. \<open>spec_objective\<close> is the objective as the specification
  writes it, \<open>sum (x_i - y_i)^2 + lambda * sum |x_(i+1) - x_i|\<close>; \<open>half_objective\<close> has
  the factor one half on the quadratic term. \<open>kkt lam y x\<close> is the optimality condition
  of \<open>half_objective lam y\<close> at \<open>x\<close>, on the running sums of \<open>x - y\<close>: they vanish at
  the end, stay within \<open>-lam\<close> and \<open>lam\<close>, and sit at \<open>+lam\<close> where \<open>x\<close> steps up and at \<open>-lam\<close>
  where it steps down.
\<close>

fun tv :: "real list \<Rightarrow> real" where
  "tv [] = 0"
| "tv [x] = 0"
| "tv (x # y # zs) = \<bar>y - x\<bar> + tv (y # zs)"

definition sq_err :: "real list \<Rightarrow> real list \<Rightarrow> real" where
  "sq_err x y = sum_list (map2 (\<lambda>a b. (a - b)\<^sup>2) x y)"

definition spec_objective :: "real \<Rightarrow> real list \<Rightarrow> real list \<Rightarrow> real" where
  "spec_objective lam y x = sq_err x y + lam * tv x"

definition half_objective :: "real \<Rightarrow> real list \<Rightarrow> real list \<Rightarrow> real" where
  "half_objective lam y x = sq_err x y / 2 + lam * tv x"

definition psum :: "real list \<Rightarrow> nat \<Rightarrow> real" where
  "psum xs k = (\<Sum>t<k. xs ! t)"

definition kkt :: "real \<Rightarrow> real list \<Rightarrow> real list \<Rightarrow> bool" where
  "kkt lam y x \<longleftrightarrow>
     length x = length y \<and> psum x (length y) = psum y (length y) \<and>
     (\<forall>k. 0 < k \<and> k < length y \<longrightarrow>
        \<bar>psum x k - psum y k\<bar> \<le> lam \<and>
        (x ! (k - 1) < x ! k \<longrightarrow> psum x k - psum y k = lam) \<and>
        (x ! k < x ! (k - 1) \<longrightarrow> psum x k - psum y k = - lam))"


lemma tv_index: "tv x = (\<Sum>k = 1..<length x. \<bar>x ! k - x ! (k - 1)\<bar>)"
proof (induction x rule: tv.induct)
  case (3 a b zs)
  have "(\<Sum>k = 1..<length (a # b # zs). \<bar>(a # b # zs) ! k - (a # b # zs) ! (k - 1)\<bar>)
      = (\<Sum>k = 0..<length (b # zs). \<bar>(a # b # zs) ! Suc k - (a # b # zs) ! k\<bar>)"
    using sum.shift_bounds_Suc_ivl[of "\<lambda>k. \<bar>(a # b # zs) ! k - (a # b # zs) ! (k - 1)\<bar>" 0 "length (b # zs)"]
    by simp
  also have "\<dots> = \<bar>b - a\<bar> + (\<Sum>k = 1..<length (b # zs). \<bar>(a # b # zs) ! Suc k - (a # b # zs) ! k\<bar>)"
    by (simp add: sum.atLeast_Suc_lessThan)
  also have "(\<Sum>k = 1..<length (b # zs). \<bar>(a # b # zs) ! Suc k - (a # b # zs) ! k\<bar>)
      = (\<Sum>k = 1..<length (b # zs). \<bar>(b # zs) ! k - (b # zs) ! (k - 1)\<bar>)"
    by (intro sum.cong refl) (auto simp: nth_Cons split: nat.splits)
  finally show ?case using 3 by simp
qed simp_all

lemma sq_err_index: "length x = length y \<Longrightarrow> sq_err x y = (\<Sum>i<length y. (x ! i - y ! i)\<^sup>2)"
proof -
  assume len: "length x = length y"
  have "sq_err x y = (\<Sum>i = 0..<length (map2 (\<lambda>a b. (a - b)\<^sup>2) x y). map2 (\<lambda>a b. (a - b)\<^sup>2) x y ! i)"
    unfolding sq_err_def by (rule sum_list_sum_nth)
  also have "\<dots> = (\<Sum>i<length y. (x ! i - y ! i)\<^sup>2)"
    using len by (intro sum.cong) (auto simp: lessThan_atLeast0)
  finally show ?thesis .
qed


text \<open>Summation by parts, the boundary terms kept.\<close>

lemma sum_by_parts:
  fixes w D :: "nat \<Rightarrow> real"
  shows "(\<Sum>i<Suc m. w i * (D (Suc i) - D i))
       = w m * D (Suc m) - w 0 * D 0 - (\<Sum>k = 1..<Suc m. D k * (w k - w (k - 1)))"
proof (induction m)
  case 0
  show ?case by (simp add: algebra_simps)
next
  case (Suc m)
  have "(\<Sum>k = 1..<Suc (Suc m). D k * (w k - w (k - 1)))
      = (\<Sum>k = 1..<Suc m. D k * (w k - w (k - 1))) + D (Suc m) * (w (Suc m) - w m)"
    by simp
  then show ?case using Suc by (simp add: algebra_simps)
qed

lemma kkt_optimal_strong:
  assumes k: "kkt lam y x" and lz: "length z = length y" and ne: "y \<noteq> []"
  shows "half_objective lam y x + (\<Sum>i<length y. (z ! i - x ! i)\<^sup>2) / 2 \<le> half_objective lam y z"
proof -
  obtain m where n: "length y = Suc m" using ne by (cases y) auto
  have lx: "length x = length y" using k by (simp add: kkt_def)
  define D where "D k = psum x k - psum y k" for k
  define w where "w i = z ! i - x ! i" for i
  have D0: "D 0 = 0" by (simp add: D_def psum_def)
  have Dn: "D (Suc m) = 0" using k n by (simp add: D_def kkt_def)
  have Dstep: "D (Suc i) - D i = x ! i - y ! i" for i by (simp add: D_def psum_def)
  have Dk: "\<bar>D k\<bar> \<le> lam" "x ! (k - 1) < x ! k \<Longrightarrow> D k = lam" "x ! k < x ! (k - 1) \<Longrightarrow> D k = - lam"
    if "0 < k" "k < Suc m" for k using k that n by (auto simp: kkt_def D_def)
  have sq: "(z ! i - y ! i)\<^sup>2 = (x ! i - y ! i)\<^sup>2 + (z ! i - x ! i)\<^sup>2 + 2 * (w i * (D (Suc i) - D i))" for i
    by (simp add: w_def Dstep power2_eq_square algebra_simps)
  have "sq_err z y = (\<Sum>i<Suc m. (z ! i - y ! i)\<^sup>2)" using sq_err_index[OF lz] n by simp
  also have "\<dots> = (\<Sum>i<Suc m. (x ! i - y ! i)\<^sup>2) + (\<Sum>i<Suc m. (z ! i - x ! i)\<^sup>2)
      + 2 * (\<Sum>i<Suc m. w i * (D (Suc i) - D i))"
    by (subst sum.cong[OF refl sq]) (simp_all add: sum.distrib sum_distrib_left)
  also have "(\<Sum>i<Suc m. (x ! i - y ! i)\<^sup>2) = sq_err x y" using sq_err_index[OF lx] n by simp
  also have "(\<Sum>i<Suc m. w i * (D (Suc i) - D i)) = - (\<Sum>k = 1..<Suc m. D k * (w k - w (k - 1)))"
    using sum_by_parts[of w D m] D0 Dn by simp
  finally have e1: "sq_err z y / 2 = sq_err x y / 2 + (\<Sum>i<Suc m. (z ! i - x ! i)\<^sup>2) / 2
      - (\<Sum>k = 1..<Suc m. D k * (w k - w (k - 1)))" by simp
  have tm: "- (D k * (w k - w (k - 1))) \<ge> lam * \<bar>x ! k - x ! (k - 1)\<bar> - lam * \<bar>z ! k - z ! (k - 1)\<bar>"
    if "k \<in> {1..<Suc m}" for k
  proof -
    have kk: "0 < k" "k < Suc m" using that by auto
    have a: "D k * (x ! k - x ! (k - 1)) = lam * \<bar>x ! k - x ! (k - 1)\<bar>"
      using Dk(2,3)[OF kk] by (cases "x ! (k - 1)" "x ! k" rule: linorder_cases) (auto simp: algebra_simps)
    have "D k * (z ! k - z ! (k - 1)) \<le> \<bar>D k\<bar> * \<bar>z ! k - z ! (k - 1)\<bar>"
      by (metis abs_ge_self abs_mult)
    also have "\<dots> \<le> lam * \<bar>z ! k - z ! (k - 1)\<bar>"
      using Dk(1)[OF kk] by (intro mult_right_mono) auto
    finally have b: "D k * (z ! k - z ! (k - 1)) \<le> lam * \<bar>z ! k - z ! (k - 1)\<bar>" .
    have "- (D k * (w k - w (k - 1))) = D k * (x ! k - x ! (k - 1)) - D k * (z ! k - z ! (k - 1))"
      by (simp add: w_def algebra_simps)
    then show ?thesis using a b by simp
  qed
  have "- (\<Sum>k = 1..<Suc m. D k * (w k - w (k - 1))) = (\<Sum>k = 1..<Suc m. - (D k * (w k - w (k - 1))))"
    by (simp add: sum_negf)
  also have "\<dots> \<ge> (\<Sum>k = 1..<Suc m. lam * \<bar>x ! k - x ! (k - 1)\<bar> - lam * \<bar>z ! k - z ! (k - 1)\<bar>)"
    by (intro sum_mono tm)
  finally have ge: "(\<Sum>k = 1..<Suc m. lam * \<bar>x ! k - x ! (k - 1)\<bar> - lam * \<bar>z ! k - z ! (k - 1)\<bar>)
      \<le> - (\<Sum>k = 1..<Suc m. D k * (w k - w (k - 1)))" .
  have tvx: "lam * tv x = (\<Sum>k = 1..<Suc m. lam * \<bar>x ! k - x ! (k - 1)\<bar>)"
    by (simp only: tv_index lx n sum_distrib_left)
  have tvz: "lam * tv z = (\<Sum>k = 1..<Suc m. lam * \<bar>z ! k - z ! (k - 1)\<bar>)"
    by (simp only: tv_index lz n sum_distrib_left)
  have "lam * tv x - lam * tv z \<le> - (\<Sum>k = 1..<Suc m. D k * (w k - w (k - 1)))"
    using ge by (simp only: tvx tvz sum_subtractf)
  then show ?thesis using e1 by (simp only: half_objective_def n)
qed

lemma kkt_optimal:
  assumes "kkt lam y x" and "length z = length y" and "y \<noteq> []"
  shows "half_objective lam y x \<le> half_objective lam y z"
proof -
  have "0 \<le> (\<Sum>i<length y. (z ! i - x ! i)\<^sup>2) / 2" by (simp add: sum_nonneg)
  then show ?thesis using kkt_optimal_strong[OF assms] by linarith
qed

section \<open>Convex envelopes\<close>

text \<open>
  The function keeps, from the last closed position (the anchor), the convex minorant of the
  upper boundary \<open>Y k + lambda\<close> of the tube around the running sums \<open>Y\<close> of the input, and the
  concave majorant of the lower boundary \<open>Y k - lambda\<close>. \<open>env U A js ju b sl c e\<close> states that
  the polygon that starts at the anchor with value \<open>A\<close>, has its breakpoints at the positions
  \<open>b j\<close> for \<open>js < j \<le> ju\<close>, the slopes \<open>sl j\<close> on the segments before the last and the slope
  \<open>c\<close> on the last segment, is such a minorant of \<open>U\<close> up to the position \<open>e\<close>: the breakpoints
  increase, the slopes increase, every segment stays below \<open>U\<close> and ends on \<open>U\<close>. The majorant
  of the lower boundary is the same statement on the negated values.
\<close>

definition epos :: "(nat \<Rightarrow> real) \<Rightarrow> real \<Rightarrow> nat \<Rightarrow> (nat \<Rightarrow> nat) \<Rightarrow> nat \<Rightarrow> real" where
  "epos U A js b j = (if j = js then A else U (b j))"

definition env :: "(nat \<Rightarrow> real) \<Rightarrow> real \<Rightarrow> nat \<Rightarrow> nat \<Rightarrow> (nat \<Rightarrow> nat) \<Rightarrow> (nat \<Rightarrow> real) \<Rightarrow> real \<Rightarrow> nat \<Rightarrow> bool" where
  "env U A js ju b sl c e \<longleftrightarrow>
     js \<le> ju \<and> b ju < e \<and>
     (\<forall>j. js \<le> j \<and> j < ju \<longrightarrow> b j < b (Suc j)) \<and>
     (\<forall>j. js \<le> j \<and> Suc j < ju \<longrightarrow> sl j < sl (Suc j)) \<and>
     (\<forall>j. js \<le> j \<and> j < ju \<longrightarrow>
        (\<forall>k. b j < k \<and> k \<le> b (Suc j) \<longrightarrow> epos U A js b j + sl j * real (k - b j) \<le> U k) \<and>
        epos U A js b j + sl j * real (b (Suc j) - b j) = U (b (Suc j))) \<and>
     (\<forall>k. b ju < k \<and> k \<le> e \<longrightarrow> epos U A js b ju + c * real (k - b ju) \<le> U k) \<and>
     epos U A js b ju + c * real (e - b ju) = U e"

lemma envI:
  assumes "js \<le> ju" "b ju < e"
    "\<And>j. js \<le> j \<Longrightarrow> j < ju \<Longrightarrow> b j < b (Suc j)"
    "\<And>j. js \<le> j \<Longrightarrow> Suc j < ju \<Longrightarrow> sl j < sl (Suc j)"
    "\<And>j k. js \<le> j \<Longrightarrow> j < ju \<Longrightarrow> b j < k \<Longrightarrow> k \<le> b (Suc j) \<Longrightarrow>
        epos U A js b j + sl j * real (k - b j) \<le> U k"
    "\<And>j. js \<le> j \<Longrightarrow> j < ju \<Longrightarrow> epos U A js b j + sl j * real (b (Suc j) - b j) = U (b (Suc j))"
    "\<And>k. b ju < k \<Longrightarrow> k \<le> e \<Longrightarrow> epos U A js b ju + c * real (k - b ju) \<le> U k"
    "epos U A js b ju + c * real (e - b ju) = U e"
  shows "env U A js ju b sl c e"
  unfolding env_def using assms by blast

lemma env_le: "env U A js ju b sl c e \<Longrightarrow> js \<le> ju"
  unfolding env_def by blast

lemma env_end: "env U A js ju b sl c e \<Longrightarrow> b ju < e"
  unfolding env_def by blast

lemma env_mono: "env U A js ju b sl c e \<Longrightarrow> js \<le> j \<Longrightarrow> j < ju \<Longrightarrow> b j < b (Suc j)"
  unfolding env_def by blast

lemma env_incr: "env U A js ju b sl c e \<Longrightarrow> js \<le> j \<Longrightarrow> Suc j < ju \<Longrightarrow> sl j < sl (Suc j)"
  unfolding env_def by blast

lemma env_below:
  "env U A js ju b sl c e \<Longrightarrow> js \<le> j \<Longrightarrow> j < ju \<Longrightarrow> b j < k \<Longrightarrow> k \<le> b (Suc j) \<Longrightarrow>
   epos U A js b j + sl j * real (k - b j) \<le> U k"
  unfolding env_def by blast

lemma env_touch:
  "env U A js ju b sl c e \<Longrightarrow> js \<le> j \<Longrightarrow> j < ju \<Longrightarrow>
   epos U A js b j + sl j * real (b (Suc j) - b j) = U (b (Suc j))"
  unfolding env_def by blast

lemma env_last_below:
  "env U A js ju b sl c e \<Longrightarrow> b ju < k \<Longrightarrow> k \<le> e \<Longrightarrow>
   epos U A js b ju + c * real (k - b ju) \<le> U k"
  unfolding env_def by blast

lemma env_last: "env U A js ju b sl c e \<Longrightarrow> epos U A js b ju + c * real (e - b ju) = U e"
  unfolding env_def by blast

lemma env_absorb:
  assumes env: "env U A js ju b sl c e" and step: "U (Suc e) = U e + x" and x: "x \<le> c"
  shows "env U A js ju b sl (c + (x - c) / real (Suc e - b ju)) (Suc e)"
proof -
  let ?b = "b ju" and ?P = "epos U A js b ju"
  let ?c' = "c + (x - c) / real (Suc e - ?b)"
  have be: "?b < e" using env by (rule env_end)
  have last: "?P + c * real (e - ?b) = U e" using env by (rule env_last)
  have below: "?P + c * real (k - ?b) \<le> U k" if "?b < k" "k \<le> e" for k
    using env that by (rule env_last_below)
  have d: "real (Suc e - ?b) = real (e - ?b) + 1" using be by (simp add: Suc_diff_le)
  have pos: "0 < real (Suc e - ?b)" using be by simp
  have "?c' * real (Suc e - ?b) = c * real (Suc e - ?b) + (x - c)"
    using pos by (simp add: field_simps)
  then have eq: "?c' * real (Suc e - ?b) = c * real (e - ?b) + x" by (simp add: d algebra_simps)
  have le: "?c' \<le> c" using x pos by (simp add: field_simps)
  have new_last: "?P + ?c' * real (Suc e - ?b) = U (Suc e)" using eq last step by simp
  have new_below: "?P + ?c' * real (k - ?b) \<le> U k" if k: "?b < k" "k \<le> Suc e" for k
  proof (cases "k = Suc e")
    case True
    then show ?thesis using new_last by simp
  next
    case False
    then have ke: "k \<le> e" using k by simp
    have "?c' * real (k - ?b) \<le> c * real (k - ?b)" using le by (intro mult_right_mono) simp_all
    then show ?thesis using below[OF k(1) ke] by simp
  qed
  show ?thesis
  proof (rule envI)
    show "js \<le> ju" using env by (rule env_le)
    show "b ju < Suc e" using be by simp
    show "\<And>j. js \<le> j \<Longrightarrow> j < ju \<Longrightarrow> b j < b (Suc j)" using env by (rule env_mono)
    show "\<And>j. js \<le> j \<Longrightarrow> Suc j < ju \<Longrightarrow> sl j < sl (Suc j)" using env by (rule env_incr)
    show "\<And>j k. js \<le> j \<Longrightarrow> j < ju \<Longrightarrow> b j < k \<Longrightarrow> k \<le> b (Suc j) \<Longrightarrow>
        epos U A js b j + sl j * real (k - b j) \<le> U k" using env by (rule env_below)
    show "\<And>j. js \<le> j \<Longrightarrow> j < ju \<Longrightarrow> epos U A js b j + sl j * real (b (Suc j) - b j) = U (b (Suc j))"
      using env by (rule env_touch)
    show "\<And>k. b ju < k \<Longrightarrow> k \<le> Suc e \<Longrightarrow> epos U A js b ju + ?c' * real (k - b ju) \<le> U k"
      by (rule new_below)
    show "epos U A js b ju + ?c' * real (Suc e - b ju) = U (Suc e)" by (rule new_last)
  qed
qed

lemma env_unwind:
  assumes env: "env U A js ju b sl c e" and lt: "js < ju" and le: "c \<le> sl (ju - 1)"
  defines "c' \<equiv> c + (sl (ju - 1) - c) * (real (b ju - b (ju - 1)) / real (e - b (ju - 1)))"
  shows "env U A js (ju - 1) b sl c' e" and "c \<le> c'" and "c' \<le> sl (ju - 1)"
proof -
  obtain j' where ju: "ju = Suc j'" using lt by (cases ju) auto
  let ?s = "sl j'" and ?P = "epos U A js b j'"
  have jj: "js \<le> j'" "j' < ju" using lt ju by auto
  have b1: "b j' < b ju" using env_mono[OF env jj] ju by simp
  have b2: "b ju < e" using env by (rule env_end)
  have Pj: "epos U A js b ju = U (b ju)" using lt by (simp add: epos_def)
  have touch: "?P + ?s * (real (b ju) - real (b j')) = U (b ju)"
    using env_touch[OF env jj] b1 ju by (simp add: of_nat_diff)
  have last: "U (b ju) + c * (real e - real (b ju)) = U e"
    using env_last[OF env] Pj b2 by (simp add: of_nat_diff)
  define r where "r = (real (b ju) - real (b j')) / (real e - real (b j'))"
  have c': "c' = c + (?s - c) * r"
    using b1 b2 by (simp add: c'_def r_def ju of_nat_diff)
  have r01: "0 \<le> r" "r \<le> 1" using b1 b2 by (simp_all add: r_def)
  have rmul: "r * (real e - real (b j')) = real (b ju) - real (b j')"
    using b1 b2 by (simp add: r_def)
  have sc: "0 \<le> ?s - c" using le ju by simp
  show ge: "c \<le> c'" using sc r01 by (simp add: c')
  have "(?s - c) * r \<le> (?s - c) * 1" using sc r01 by (intro mult_left_mono) auto
  then show up: "c' \<le> sl (ju - 1)" by (simp add: c' ju)
  define B where "B = real (b ju) - real (b j')"
  define E where "E = real e - real (b ju)"
  have D: "real e - real (b j') = E + B" by (simp add: B_def E_def)
  have rB: "r * (E + B) = B" using rmul D by (simp add: B_def)
  have "c' * (E + B) = c * (E + B) + (?s - c) * (r * (E + B))" by (simp add: c' algebra_simps)
  also have "\<dots> = c * (E + B) + (?s - c) * B" by (simp only: rB)
  also have "\<dots> = c * E + ?s * B" by (simp add: algebra_simps)
  finally have tot: "c' * (real e - real (b j')) = c * (real e - real (b ju)) + ?s * (real (b ju) - real (b j'))"
    by (simp only: D) (simp add: B_def E_def)
  have new_last: "?P + c' * real (e - b j') = U e"
    using tot touch last b1 b2 by (simp add: of_nat_diff)
  have new_below: "?P + c' * real (k - b j') \<le> U k" if k: "b j' < k" "k \<le> e" for k
  proof (cases "k \<le> b ju")
    case True
    have "c' * real (k - b j') \<le> ?s * real (k - b j')"
      using up ju by (intro mult_right_mono) simp_all
    then show ?thesis using env_below[OF env jj k(1)] True ju by simp
  next
    case False
    then have kb: "b ju < k" by simp
    have old: "U (b ju) + c * (real k - real (b ju)) \<le> U k"
      using env_last_below[OF env kb k(2)] Pj kb by (simp add: of_nat_diff)
    have "c * (real e - real k) \<le> c' * (real e - real k)"
      using ge k by (intro mult_right_mono) simp_all
    moreover have "?P + c' * (real e - real (b j')) = U e"
      using new_last b1 b2 by (simp add: of_nat_diff)
    ultimately have "?P + c' * (real k - real (b j')) \<le> U e - c * (real e - real k)"
      by (simp add: algebra_simps)
    also have "\<dots> = U (b ju) + c * (real k - real (b ju))"
      using last by (simp add: algebra_simps)
    finally show ?thesis using old k by (simp add: of_nat_diff)
  qed
  show "env U A js (ju - 1) b sl c' e"
  proof (rule envI)
    show "js \<le> ju - 1" using jj ju by simp
    show "b (ju - 1) < e" using b1 b2 ju by simp
    show "\<And>j. js \<le> j \<Longrightarrow> j < ju - 1 \<Longrightarrow> b j < b (Suc j)"
      using env_mono[OF env] by simp
    show "\<And>j. js \<le> j \<Longrightarrow> Suc j < ju - 1 \<Longrightarrow> sl j < sl (Suc j)"
      using env_incr[OF env] by simp
    show "\<And>j k. js \<le> j \<Longrightarrow> j < ju - 1 \<Longrightarrow> b j < k \<Longrightarrow> k \<le> b (Suc j) \<Longrightarrow>
        epos U A js b j + sl j * real (k - b j) \<le> U k"
      using env_below[OF env] by simp
    show "\<And>j. js \<le> j \<Longrightarrow> j < ju - 1 \<Longrightarrow>
        epos U A js b j + sl j * real (b (Suc j) - b j) = U (b (Suc j))"
      using env_touch[OF env] by simp
    show "\<And>k. b (ju - 1) < k \<Longrightarrow> k \<le> e \<Longrightarrow> epos U A js b (ju - 1) + c' * real (k - b (ju - 1)) \<le> U k"
      using new_below ju by simp
    show "epos U A js b (ju - 1) + c' * real (e - b (ju - 1)) = U e"
      using new_last ju by simp
  qed
qed

lemma env_b_mono:
  assumes env: "env U A js ju b sl c e"
  shows "js \<le> i \<Longrightarrow> i < j \<Longrightarrow> j \<le> ju \<Longrightarrow> b i < b j"
proof (induction j)
  case 0
  then show ?case by simp
next
  case (Suc j)
  have step: "b j < b (Suc j)" using env_mono[OF env, of j] Suc.prems by simp
  show ?case
  proof (cases "i = j")
    case True
    then show ?thesis using step by simp
  next
    case False
    then have "b i < b j" using Suc by simp
    then show ?thesis using step by simp
  qed
qed

text \<open>The first segment's line stays below the boundary up to the end (slopes increase).\<close>

definition slope :: "nat \<Rightarrow> (nat \<Rightarrow> real) \<Rightarrow> real \<Rightarrow> nat \<Rightarrow> real" where
  "slope ju sl c j = (if j = ju then c else sl j)"

definition nxt :: "nat \<Rightarrow> (nat \<Rightarrow> nat) \<Rightarrow> nat \<Rightarrow> nat \<Rightarrow> nat" where
  "nxt ju b e j = (if j = ju then e else b (Suc j))"

lemma env_seg_below:
  assumes env: "env U A js ju b sl c e" and j: "js \<le> j" "j \<le> ju" and k: "b j < k" "k \<le> nxt ju b e j"
  shows "epos U A js b j + slope ju sl c j * real (k - b j) \<le> U k"
proof (cases "j = ju")
  case True
  then show ?thesis using env_last_below[OF env, of k] k by (simp add: slope_def nxt_def)
next
  case False
  then have "j < ju" using j by simp
  then show ?thesis using env_below[OF env j(1) _ k(1)] k(2) False by (simp add: slope_def nxt_def)
qed

lemma env_seg_touch:
  assumes env: "env U A js ju b sl c e" and j: "js \<le> j" "j \<le> ju"
  shows "epos U A js b j + slope ju sl c j * real (nxt ju b e j - b j) = U (nxt ju b e j)"
proof (cases "j = ju")
  case True
  then show ?thesis using env_last[OF env] by (simp add: slope_def nxt_def)
next
  case False
  then have "j < ju" using j by simp
  then show ?thesis using env_touch[OF env j(1)] False by (simp add: slope_def nxt_def)
qed

lemma env_slope_mono:
  assumes env: "env U A js ju b sl c e" and strict: "js < ju \<Longrightarrow> sl (ju - 1) < c"
  shows "js \<le> j \<Longrightarrow> j \<le> ju \<Longrightarrow> slope ju sl c js \<le> slope ju sl c j"
proof (induction j)
  case 0
  then show ?case by simp
next
  case (Suc j)
  show ?case
  proof (cases "js = Suc j")
    case True
    then show ?thesis by simp
  next
    case False
    then have j: "js \<le> j" "j \<le> ju" "j < ju" using Suc.prems by auto
    have "slope ju sl c j \<le> slope ju sl c (Suc j)"
    proof (cases "Suc j = ju")
      case True
      then show ?thesis using strict j by (auto simp: slope_def)
    next
      case False
      then have "Suc j < ju" using j by simp
      then show ?thesis using env_incr[OF env j(1)] j by (simp add: slope_def)
    qed
    then show ?thesis using Suc.IH[OF j(1,2)] by simp
  qed
qed

lemma env_first_line:
  assumes env: "env U A js ju b sl c e" and strict: "js < ju \<Longrightarrow> sl (ju - 1) < c"
  shows "js \<le> j \<Longrightarrow> j \<le> ju \<Longrightarrow> b js < k \<Longrightarrow> k \<le> nxt ju b e j \<Longrightarrow>
         A + slope ju sl c js * real (k - b js) \<le> U k"
proof (induction j arbitrary: k)
  case 0
  then have "js = 0" by simp
  then show ?case using env_seg_below[OF env, of 0 k] 0 by (simp add: epos_def)
next
  case (Suc j)
  show ?case
  proof (cases "js = Suc j")
    case True
    then show ?thesis using env_seg_below[OF env, of "Suc j" k] Suc.prems by (simp add: epos_def)
  next
    case False
    then have j: "js \<le> j" "j \<le> ju" "j < ju" using Suc.prems by auto
    have nj: "nxt ju b e j = b (Suc j)" using j by (simp add: nxt_def)
    show ?thesis
    proof (cases "k \<le> b (Suc j)")
      case True
      then show ?thesis using Suc.IH[OF j(1,2) Suc.prems(3)] nj by simp
    next
      case kb: False
      let ?f = "slope ju sl c js"
      have bb: "b js < b (Suc j)"
        using env_b_mono[OF env order_refl, of "Suc j"] j by simp
      have at_b: "A + ?f * real (b (Suc j) - b js) \<le> U (b (Suc j))"
        using Suc.IH[OF j(1,2) bb] nj by simp
      have seg: "U (b (Suc j)) + slope ju sl c (Suc j) * real (k - b (Suc j)) \<le> U k"
        using env_seg_below[OF env, of "Suc j" k] Suc.prems kb False by (simp add: epos_def)
      have "?f * real (k - b (Suc j)) \<le> slope ju sl c (Suc j) * real (k - b (Suc j))"
        using env_slope_mono[OF env strict, of "Suc j"] Suc.prems by (intro mult_right_mono) simp_all
      moreover have "real (k - b js) = real (b (Suc j) - b js) + real (k - b (Suc j))"
        using bb kb by simp
      ultimately show ?thesis using at_b seg by (simp add: algebra_simps)
    qed
  qed
qed

lemma env_cong:
  assumes b: "\<And>j. js \<le> j \<Longrightarrow> j \<le> ju \<Longrightarrow> b' j = b j"
    and sl: "\<And>j. js \<le> j \<Longrightarrow> j < ju \<Longrightarrow> sl' j = sl j"
    and env: "env U A js ju b sl c e"
  shows "env U A js ju b' sl' c e"
proof -
  have ep: "epos U A js b' j = epos U A js b j" if "js \<le> j" "j \<le> ju" for j
    using b[OF that] by (simp add: epos_def)
  show ?thesis
  proof (rule envI)
    show "js \<le> ju" using env by (rule env_le)
    show "b' ju < e" using env_end[OF env] env_le[OF env] b[of ju] by simp
    show "b' j < b' (Suc j)" if "js \<le> j" "j < ju" for j
      using env_mono[OF env that] b[of j] b[of "Suc j"] that by simp
    show "sl' j < sl' (Suc j)" if "js \<le> j" "Suc j < ju" for j
      using env_incr[OF env that] sl[of j] sl[of "Suc j"] that by simp
    show "epos U A js b' j + sl' j * real (k - b' j) \<le> U k"
      if "js \<le> j" "j < ju" "b' j < k" "k \<le> b' (Suc j)" for j k
      using env_below[OF env that(1,2), of k] that b[of j] b[of "Suc j"] sl[of j] ep[of j] by simp
    show "epos U A js b' j + sl' j * real (b' (Suc j) - b' j) = U (b' (Suc j))"
      if "js \<le> j" "j < ju" for j
      using env_touch[OF env that] that b[of j] b[of "Suc j"] sl[of j] ep[of j] by simp
    show "epos U A js b' ju + c * real (k - b' ju) \<le> U k" if "b' ju < k" "k \<le> e" for k
      using env_last_below[OF env, of k] that b[of ju] ep[of ju] env_le[OF env] by simp
    show "epos U A js b' ju + c * real (e - b' ju) = U e"
      using env_last[OF env] b[of ju] ep[of ju] env_le[OF env] by simp
  qed
qed

text \<open>Closing the first segment: the anchor moves to the next breakpoint.\<close>

lemma env_advance:
  assumes env: "env U A js ju b sl c e" and lt: "js < ju"
  shows "env U (U (b (Suc js))) (Suc js) ju b sl c e"
proof -
  have ep: "epos U (U (b (Suc js))) (Suc js) b j = epos U A js b j" if "Suc js \<le> j" for j
    using that by (simp add: epos_def)
  show ?thesis
  proof (rule envI)
    show "Suc js \<le> ju" using lt by simp
    show "b ju < e" using env by (rule env_end)
    show "b j < b (Suc j)" if "Suc js \<le> j" "j < ju" for j
      using env_mono[OF env _ that(2)] that by simp
    show "sl j < sl (Suc j)" if "Suc js \<le> j" "Suc j < ju" for j
      using env_incr[OF env _ that(2)] that by simp
    show "epos U (U (b (Suc js))) (Suc js) b j + sl j * real (k - b j) \<le> U k"
      if "Suc js \<le> j" "j < ju" "b j < k" "k \<le> b (Suc j)" for j k
      using env_below[OF env _ that(2,3,4)] that ep[of j] by simp
    show "epos U (U (b (Suc js))) (Suc js) b j + sl j * real (b (Suc j) - b j) = U (b (Suc j))"
      if "Suc js \<le> j" "j < ju" for j
      using env_touch[OF env _ that(2)] that ep[of j] by simp
    show "epos U (U (b (Suc js))) (Suc js) b ju + c * real (k - b ju) \<le> U k"
      if "b ju < k" "k \<le> e" for k
      using env_last_below[OF env that] lt ep[of ju] by simp
    show "epos U (U (b (Suc js))) (Suc js) b ju + c * real (e - b ju) = U e"
      using env_last[OF env] lt ep[of ju] by simp
  qed
qed

lemma env_single:
  assumes "b js < e" and "\<And>k. b js < k \<Longrightarrow> k \<le> e \<Longrightarrow> A + c * real (k - b js) \<le> U k"
    and "A + c * real (e - b js) = U e"
  shows "env U A js js b sl c e"
  by (rule envI) (use assms in \<open>simp_all add: epos_def\<close>)

text \<open>Opening a segment at the end of the envelope.\<close>

lemma env_push:
  assumes env: "env U A js ju b sl c e" and strict: "js < ju \<Longrightarrow> sl (ju - 1) < c"
    and top: "sl ju = c" and x: "c < x" and step: "U (Suc e) = U e + x"
    and b': "b' = b(Suc ju := e)"
  shows "env U A js (Suc ju) b' sl x (Suc e)"
proof -
  have bj: "b' j = b j" if "j \<le> ju" for j using that by (simp add: b')
  have bn: "b' (Suc ju) = e" by (simp add: b')
  have ep: "epos U A js b' j = epos U A js b j" if "j \<le> ju" for j
    using bj[OF that] by (simp add: epos_def)
  have le: "js \<le> ju" using env by (rule env_le)
  show ?thesis
  proof (rule envI)
    show "js \<le> Suc ju" using le by simp
    show "b' (Suc ju) < Suc e" by (simp add: bn)
    show "b' j < b' (Suc j)" if "js \<le> j" "j < Suc ju" for j
    proof (cases "j = ju")
      case True
      then show ?thesis using env_end[OF env] bj[of ju] bn by simp
    next
      case False
      then show ?thesis using env_mono[OF env that(1), of ] that bj[of j] bj[of "Suc j"] by simp
    qed
    show "sl j < sl (Suc j)" if "js \<le> j" "Suc j < Suc ju" for j
    proof (cases "Suc j = ju")
      case True
      then show ?thesis using strict top that by auto
    next
      case False
      then show ?thesis using env_incr[OF env that(1)] that by simp
    qed
    show "epos U A js b' j + sl j * real (k - b' j) \<le> U k"
      if "js \<le> j" "j < Suc ju" "b' j < k" "k \<le> b' (Suc j)" for j k
    proof (cases "j = ju")
      case True
      then show ?thesis using env_last_below[OF env, of k] that top bj[of ju] bn ep[of ju] by simp
    next
      case False
      then show ?thesis
        using env_below[OF env that(1), of k] that bj[of j] bj[of "Suc j"] ep[of j] by simp
    qed
    show "epos U A js b' j + sl j * real (b' (Suc j) - b' j) = U (b' (Suc j))"
      if "js \<le> j" "j < Suc ju" for j
    proof (cases "j = ju")
      case True
      then show ?thesis using env_last[OF env] top bj[of ju] bn ep[of ju] by simp
    next
      case False
      then show ?thesis
        using env_touch[OF env that(1)] that bj[of j] bj[of "Suc j"] ep[of j] by simp
    qed
    have en: "epos U A js b' (Suc ju) = U e" using le bn by (simp add: epos_def)
    show "epos U A js b' (Suc ju) + x * real (k - b' (Suc ju)) \<le> U k"
      if "b' (Suc ju) < k" "k \<le> Suc e" for k
    proof -
      have "k = Suc e" using that bn by simp
      then show ?thesis using en bn step by simp
    qed
    show "epos U A js b' (Suc ju) + x * real (Suc e - b' (Suc ju)) = U (Suc e)"
      using en bn step by simp
  qed
qed

section \<open>The invariant of the main loop\<close>

text \<open>
  \<open>xo s t\<close> is the output cell \<open>t\<close> (0 when not written), \<open>xsum\<close> and \<open>ysum\<close> are the running
  sums of the output and of the input, \<open>Ub\<close> and \<open>Lb\<close> the two boundaries of the tube. \<open>bu\<close> and
  \<open>bl\<close> read the breakpoints from \<^verbatim>\<open>indstart_up\<close> and \<^verbatim>\<open>indstart_low\<close>; the slope of a
  segment is kept in the output cell of its first position, that of the first segment in
  \<^verbatim>\<open>output_up_first\<close> (\<^verbatim>\<open>output_low_first\<close>) and that of the last in \<^verbatim>\<open>output_up_curr\<close>
  (\<^verbatim>\<open>output_low_curr\<close>). \<open>Inv n inp lam el eu s\<close> is the invariant at the head of the main loop:
  the buffers are well formed (\<open>sinv\<close>), the two envelopes are those of the boundaries up to
  the positions \<open>eu\<close> and \<open>el\<close>, and the closed prefix of the output fulfils the optimality
  condition (\<open>Kpre\<close>).
\<close>

definition cell :: "real option list \<Rightarrow> nat \<Rightarrow> real" where
  "cell out t = (if t < length out then (case out ! t of None \<Rightarrow> 0 | Some v \<Rightarrow> v) else 0)"

definition xo :: "st \<Rightarrow> nat \<Rightarrow> real" where
  "xo s t = cell (output_buf s) t"

definition xsum :: "st \<Rightarrow> nat \<Rightarrow> real" where
  "xsum s k = (\<Sum>t<k. xo s t)"

definition ysum :: "real list \<Rightarrow> nat \<Rightarrow> real" where
  "ysum inp k = (\<Sum>t<k. if t < length inp then inp ! t else 0)"

definition Ub :: "real list \<Rightarrow> real \<Rightarrow> nat \<Rightarrow> real" where
  "Ub inp lam k = ysum inp k + lam"

definition bu :: "st \<Rightarrow> nat \<Rightarrow> nat" where
  "bu s j = unat (the (indstart_up s ! j))"

definition bl :: "st \<Rightarrow> nat \<Rightarrow> nat" where
  "bl s j = unat (the (indstart_low s ! j))"

definition slu :: "st \<Rightarrow> nat \<Rightarrow> real" where
  "slu s j = (if j = unat (jseg s) then output_up_first s else xo s (bu s j))"

definition up_env :: "real list \<Rightarrow> real \<Rightarrow> nat \<Rightarrow> st \<Rightarrow> bool" where
  "up_env inp lam e s \<longleftrightarrow>
     env (Ub inp lam) (xsum s (unat (indjseg s))) (unat (jseg s)) (unat (j_up s)) (bu s) (slu s)
       (output_up_curr s) e \<and>
     (unat (jseg s) < unat (j_up s) \<longrightarrow> slu s (unat (j_up s) - 1) < output_up_curr s) \<and>
     slu s (unat (j_up s)) = output_up_curr s"

definition low_env :: "real list \<Rightarrow> real \<Rightarrow> nat \<Rightarrow> st \<Rightarrow> bool" where
  "low_env inp lam e s = up_env (map uminus inp) lam e (mirror s)"

definition disj :: "st \<Rightarrow> bool" where
  "disj s \<longleftrightarrow> (\<forall>j j'. unat (jseg s) < j \<and> j \<le> unat (j_up s) \<and> unat (jseg s) < j' \<and> j' \<le> unat (j_low s)
       \<longrightarrow> bu s j \<noteq> bl s j')"

definition Kpre :: "real list \<Rightarrow> real \<Rightarrow> st \<Rightarrow> bool" where
  "Kpre inp lam s \<longleftrightarrow>
     (\<forall>k. 0 < k \<and> k \<le> unat (indjseg s) \<longrightarrow> \<bar>xsum s k - ysum inp k\<bar> \<le> lam) \<and>
     (\<forall>k. 0 < k \<and> k < unat (indjseg s) \<longrightarrow>
        (xo s (k - 1) < xo s k \<longrightarrow> xsum s k - ysum inp k = lam) \<and>
        (xo s k < xo s (k - 1) \<longrightarrow> xsum s k - ysum inp k = - lam)) \<and>
     (unat (indjseg s) = 0 \<or>
      (xsum s (unat (indjseg s)) - ysum inp (unat (indjseg s)) = lam \<and>
         xo s (unat (indjseg s) - 1) \<le> output_low_first s) \<or>
      (xsum s (unat (indjseg s)) - ysum inp (unat (indjseg s)) = - lam \<and>
         output_up_first s \<le> xo s (unat (indjseg s) - 1)))"

definition Inv :: "u32 \<Rightarrow> real list \<Rightarrow> real \<Rightarrow> nat \<Rightarrow> nat \<Rightarrow> st \<Rightarrow> bool" where
  "Inv n inp lam el eu s \<longleftrightarrow>
     sinv n (max el eu - 1) s \<and> length inp = unat n \<and> 0 < lam \<and>
     up_env inp lam eu s \<and> low_env inp lam el s \<and> disj s \<and>
     output_low_first s \<le> output_up_first s \<and> Kpre inp lam s"

lemma cell_neg_buf [simp]: "cell (neg_buf out) t = - cell out t"
  by (auto simp: cell_def neg_buf_def split: option.splits)

lemma xo_mirror [simp]: "xo (mirror s) t = - xo s t"
  by (simp add: xo_def)

lemma xsum_mirror [simp]: "xsum (mirror s) k = - xsum s k"
  by (simp add: xsum_def sum_negf)

lemma ysum_neg [simp]: "ysum (map uminus inp) k = - ysum inp k"
  unfolding ysum_def sum_negf[symmetric] by (intro sum.cong refl) simp

lemma bu_mirror [simp]: "bu (mirror s) = bl s" "bl (mirror s) = bu s"
  by (auto simp: bu_def bl_def)

lemma map_uminus_invol [simp]: "map uminus (map uminus (inp :: real list)) = inp"
  by (simp add: comp_def)

lemma low_env_mirror [simp]: "low_env (map uminus inp) lam e (mirror s) = up_env inp lam e s"
  by (simp add: low_env_def)

lemma up_env_mirror [simp]: "up_env (map uminus inp) lam e (mirror s) = low_env inp lam e s"
  by (simp add: low_env_def)

lemma disj_mirror [simp]: "disj (mirror s) = disj s"
  unfolding disj_def mirror_sel bu_mirror by (metis (full_types))

lemma Kpre_mirror [simp]: "Kpre (map uminus inp) lam (mirror s) = Kpre inp lam s"
proof -
  have a: "\<bar>- x - - y\<bar> = \<bar>x - y\<bar>" for x y :: real by simp
  have b: "(- x - - y = lam) = (x - y = - lam)" "(- x - - y = - lam) = (x - y = lam)" for x y :: real
    by auto
  show ?thesis
    unfolding Kpre_def mirror_sel xo_mirror xsum_mirror ysum_neg a b neg_less_iff_less neg_le_iff_le
    by blast
qed

lemma Inv_mirror: "Inv n (map uminus inp) lam eu el (mirror s) = Inv n inp lam el eu s"
  by (auto simp: Inv_def sinv_mirror max.commute)

lemma rd_InrD: "rd n a k = Inr v \<Longrightarrow> a ! unat k = Some v \<and> unat k < length a \<and> k < n"
  by (auto simp: rd_def split: if_splits option.splits)

lemma wr_InrD: "wr n a k v = Inr a' \<Longrightarrow> a' = a[unat k := Some v] \<and> unat k < length a \<and> k < n"
  by (auto simp: wr_def split: if_splits)

lemma ratio_InrD: "ratio a b = Inr r \<Longrightarrow> r = real (unat a) / real (unat b) \<and> b \<noteq> 0"
  by (auto simp: ratio_def split: if_splits)

lemma divu_InrD: "divu x d = Inr q \<Longrightarrow> q = x / real (unat d) \<and> d \<noteq> 0"
  by (auto simp: divu_def split: if_splits)

lemma rd_in_InrD: "rd_in inp k = Inr x \<Longrightarrow> x = inp ! unat k \<and> unat k < length inp"
  by (auto simp: rd_in_def split: if_splits)

lemma ebind_InrD: "ebind m f = Inr r \<Longrightarrow> \<exists>v. m = Inr v \<and> f v = Inr r"
  by (cases m) simp_all

lemma cell_Some: "t < length out \<Longrightarrow> out ! t = Some v \<Longrightarrow> cell out t = v"
  by (simp add: cell_def)

lemma cell_update: "cell (out[k := Some v]) t = (if t = k \<and> k < length out then v else cell out t)"
  by (auto simp: cell_def nth_list_update)

lemma bu_upd [simp]:
  "bu (s\<lparr>indstart_low := v0\<rparr>) = bu s"
  "bu (s\<lparr>output_buf := v2\<rparr>) = bu s"
  "bu (s\<lparr>j_low := v3\<rparr>) = bu s"
  "bu (s\<lparr>j_up := v4\<rparr>) = bu s"
  "bu (s\<lparr>jseg := v5\<rparr>) = bu s"
  "bu (s\<lparr>indjseg := v6\<rparr>) = bu s"
  "bu (s\<lparr>output_low_first := v7\<rparr>) = bu s"
  "bu (s\<lparr>output_low_curr := v8\<rparr>) = bu s"
  "bu (s\<lparr>output_up_first := v9\<rparr>) = bu s"
  "bu (s\<lparr>output_up_curr := v10\<rparr>) = bu s"
  by (simp_all add: bu_def fun_eq_iff)

lemma bl_upd [simp]:
  "bl (s\<lparr>indstart_up := v1\<rparr>) = bl s"
  "bl (s\<lparr>output_buf := v2\<rparr>) = bl s"
  "bl (s\<lparr>j_low := v3\<rparr>) = bl s"
  "bl (s\<lparr>j_up := v4\<rparr>) = bl s"
  "bl (s\<lparr>jseg := v5\<rparr>) = bl s"
  "bl (s\<lparr>indjseg := v6\<rparr>) = bl s"
  "bl (s\<lparr>output_low_first := v7\<rparr>) = bl s"
  "bl (s\<lparr>output_low_curr := v8\<rparr>) = bl s"
  "bl (s\<lparr>output_up_first := v9\<rparr>) = bl s"
  "bl (s\<lparr>output_up_curr := v10\<rparr>) = bl s"
  by (simp_all add: bl_def fun_eq_iff)

lemma xo_upd [simp]:
  "xo (s\<lparr>indstart_low := v0\<rparr>) = xo s"
  "xo (s\<lparr>indstart_up := v1\<rparr>) = xo s"
  "xo (s\<lparr>j_low := v3\<rparr>) = xo s"
  "xo (s\<lparr>j_up := v4\<rparr>) = xo s"
  "xo (s\<lparr>jseg := v5\<rparr>) = xo s"
  "xo (s\<lparr>indjseg := v6\<rparr>) = xo s"
  "xo (s\<lparr>output_low_first := v7\<rparr>) = xo s"
  "xo (s\<lparr>output_low_curr := v8\<rparr>) = xo s"
  "xo (s\<lparr>output_up_first := v9\<rparr>) = xo s"
  "xo (s\<lparr>output_up_curr := v10\<rparr>) = xo s"
  by (simp_all add: xo_def fun_eq_iff)

lemma xsum_upd [simp]:
  "xsum (s\<lparr>indstart_low := v0\<rparr>) = xsum s"
  "xsum (s\<lparr>indstart_up := v1\<rparr>) = xsum s"
  "xsum (s\<lparr>j_low := v3\<rparr>) = xsum s"
  "xsum (s\<lparr>j_up := v4\<rparr>) = xsum s"
  "xsum (s\<lparr>jseg := v5\<rparr>) = xsum s"
  "xsum (s\<lparr>indjseg := v6\<rparr>) = xsum s"
  "xsum (s\<lparr>output_low_first := v7\<rparr>) = xsum s"
  "xsum (s\<lparr>output_low_curr := v8\<rparr>) = xsum s"
  "xsum (s\<lparr>output_up_first := v9\<rparr>) = xsum s"
  "xsum (s\<lparr>output_up_curr := v10\<rparr>) = xsum s"
  by (simp_all add: xsum_def xo_def fun_eq_iff)

lemma slu_upd [simp]:
  "slu (s\<lparr>indstart_low := v0\<rparr>) = slu s"
  "slu (s\<lparr>j_low := v3\<rparr>) = slu s"
  "slu (s\<lparr>j_up := v4\<rparr>) = slu s"
  "slu (s\<lparr>indjseg := v6\<rparr>) = slu s"
  "slu (s\<lparr>output_low_first := v7\<rparr>) = slu s"
  "slu (s\<lparr>output_low_curr := v8\<rparr>) = slu s"
  "slu (s\<lparr>output_up_curr := v10\<rparr>) = slu s"
  by (simp_all add: slu_def xo_def bu_def fun_eq_iff)

lemma slu_frame:
  "jseg s' = jseg s \<Longrightarrow> output_up_first s' = output_up_first s \<Longrightarrow> output_buf s' = output_buf s \<Longrightarrow>
   indstart_up s' = indstart_up s \<Longrightarrow> slu s' = slu s"
  by (auto simp: slu_def xo_def bu_def fun_eq_iff)

lemma unwind_up_env:
  "unwind_up n i s = Inr s' \<Longrightarrow>
   seg_ok (unat i) (indstart_up s) (output_buf s) (jseg s) (indjseg s) (j_up s) \<Longrightarrow> i < n \<Longrightarrow>
   xo s (unat (indjseg s)) = output_up_first s \<Longrightarrow>
   env U A (unat (jseg s)) (unat (j_up s)) (bu s) (slu s) (output_up_curr s) (Suc (unat i)) \<Longrightarrow>
   output_up_curr s \<le> slu s (unat (j_up s)) \<Longrightarrow>
   \<exists>c j. s' = s\<lparr>output_up_curr := c, j_up := j\<rparr> \<and> unat (jseg s) \<le> unat j \<and> unat j \<le> unat (j_up s) \<and>
      env U A (unat (jseg s)) (unat j) (bu s) (slu s) c (Suc (unat i)) \<and>
      (unat (jseg s) < unat j \<longrightarrow> slu s (unat j - 1) < c) \<and> c \<le> slu s (unat j)"
proof (induction n i s rule: unwind_up.induct)
  case (1 n i s)
  note res = "1.prems"(1) and ok = "1.prems"(2) and i = "1.prems"(3) and cg = "1.prems"(4)
    and env = "1.prems"(5) and top = "1.prems"(6)
  let ?js = "unat (jseg s)" and ?ju = "unat (j_up s)"
  have stop: ?case if eq: "s' = s" and str: "?js < ?ju \<longrightarrow> slu s (?ju - 1) < output_up_curr s"
    using eq env top str seg_ok_bounds[OF ok]
    by (intro exI[of _ "output_up_curr s"] exI[of _ "j_up s"]) simp
  show ?case
  proof (cases "j_up s > jseg s")
    case False
    then have "s' = s" using res by (subst (asm) unwind_up.simps) simp
    moreover have "\<not> ?js < ?ju" using False by (simp add: word_less_nat_alt)
    ultimately show ?thesis by (intro stop) simp_all
  next
    case True
    then have jlt: "?js < ?ju" by (simp add: word_less_nat_alt)
    have dec: "unat (j_up s - 1) = ?ju - 1" using True by (rule unat_dec)
    have p: "?js \<le> ?ju - 1" "?ju - 1 \<le> ?ju" "?ju - 1 < ?ju" "Suc (?ju - 1) = ?ju" "?js \<le> ?ju"
      using jlt by auto
    have in_n: "unat i < unat n" using i by (simp add: word_less_nat_alt)
    obtain ind where ind: "indstart_up s ! (?ju - 1) = Some ind" and indm: "unat ind \<le> unat i"
      using seg_ok_some[OF ok p(1) p(2)] by auto
    obtain top_i where tp: "indstart_up s ! ?ju = Some top_i"
      using seg_ok_some[OF ok p(5) order_refl] by auto
    have indtop: "unat ind < unat top_i"
      using seg_ok_incr[OF ok p(1) p(3) ind] tp p(4) by simp
    have bind: "bu s (?ju - 1) = unat ind" "bu s ?ju = unat top_i"
      using ind tp by (simp_all add: bu_def)
    from res True obtain v1 v2 where
      r1: "rd n (indstart_up s) (j_up s - 1) = Inr v1" and
      r2: "rd n (output_buf s) v1 = Inr v2" and
      rest: "(if output_up_curr s \<le> v2
           then ebind (rd n (indstart_up s) (j_up s)) (\<lambda>top.
                ebind (ratio (top - v1) (i - v1 + 1)) (\<lambda>r.
                unwind_up n i
                  (s\<lparr>output_up_curr := output_up_curr s + (v2 - output_up_curr s) * r,
                     j_up := j_up s - 1\<rparr>)))
           else Inr s) = Inr s'"
      by (subst (asm) unwind_up.simps) (auto dest!: ebind_InrD)
    have v1: "v1 = ind" using rd_InrD[OF r1] ind dec by simp
    have v2c: "v2 = xo s (unat ind)" using rd_InrD[OF r2] v1 by (simp add: xo_def cell_Some)
    have v2: "v2 = slu s (?ju - 1)"
    proof (cases "?ju - 1 = ?js")
      case True
      then have "ind = indjseg s" using seg_ok_first[OF ok] ind by simp
      then show ?thesis using v2c cg True by (simp add: slu_def)
    next
      case False
      then show ?thesis using v2c bind by (simp add: slu_def)
    qed
    show ?thesis
    proof (cases "output_up_curr s \<le> v2")
      case False
      then have "s' = s" using rest by simp
      then show ?thesis using False v2 by (intro stop) simp_all
    next
      case c: True
      from rest c obtain v3 r where
        r3: "rd n (indstart_up s) (j_up s) = Inr v3" and
        r4: "ratio (v3 - v1) (i - v1 + 1) = Inr r" and
        rec: "unwind_up n i (s\<lparr>output_up_curr := output_up_curr s + (v2 - output_up_curr s) * r,
                     j_up := j_up s - 1\<rparr>) = Inr s'"
        by (auto dest!: ebind_InrD)
      have v3: "v3 = top_i" using rd_InrD[OF r3] tp by simp
      have u1: "unat (v3 - v1) = bu s ?ju - bu s (?ju - 1)"
        using indtop v1 v3 bind unat_sub_le[of ind top_i] by (simp add: word_le_nat_alt)
      have u2: "unat (i - v1 + 1) = Suc (unat i) - bu s (?ju - 1)"
        using unat_span[OF indm i] v1 bind indm by simp
      have r: "r = real (bu s ?ju - bu s (?ju - 1)) / real (Suc (unat i) - bu s (?ju - 1))"
        using ratio_InrD[OF r4] u1 u2 by simp
      let ?c' = "output_up_curr s + (slu s (?ju - 1) - output_up_curr s) * r"
      let ?s1 = "s\<lparr>output_up_curr := ?c', j_up := j_up s - 1\<rparr>"
      have cle: "output_up_curr s \<le> slu s (?ju - 1)" using c v2 by simp
      note uw = env_unwind[OF env jlt cle, folded r]
      have ok1: "seg_ok (unat i) (indstart_up ?s1) (output_buf ?s1) (jseg ?s1) (indjseg ?s1) (j_up ?s1)"
        using seg_ok_shrink[OF ok, of "j_up s - 1"] jlt dec by simp
      have cg1: "xo ?s1 (unat (indjseg ?s1)) = output_up_first ?s1" using cg by (simp add: xo_def)
      have env1: "env U A (unat (jseg ?s1)) (unat (j_up ?s1)) (bu ?s1) (slu ?s1) (output_up_curr ?s1) (Suc (unat i))"
        using uw(1) by (simp add: dec)
      have top1: "output_up_curr ?s1 \<le> slu ?s1 (unat (j_up ?s1))"
        using uw(3) by (simp add: dec)
      obtain c2 j2 where post: "s' = ?s1\<lparr>output_up_curr := c2, j_up := j2\<rparr>"
        "unat (jseg ?s1) \<le> unat j2" "unat j2 \<le> unat (j_up ?s1)"
        "env U A (unat (jseg ?s1)) (unat j2) (bu ?s1) (slu ?s1) c2 (Suc (unat i))"
        "unat (jseg ?s1) < unat j2 \<longrightarrow> slu ?s1 (unat j2 - 1) < c2" "c2 \<le> slu ?s1 (unat j2)"
        using "1.IH"[OF True r1 r2[unfolded v2] cle r3 r4 rec[unfolded v2] ok1 i cg1 env1 top1] by auto
      show ?thesis
        using post dec by (intro exI[of _ c2] exI[of _ j2]) simp
    qed
  qed
qed

lemma xsum_cong: "(\<And>t. t < k \<Longrightarrow> xo s' t = xo s t) \<Longrightarrow> xsum s' k = xsum s k"
  by (simp add: xsum_def)

lemma xo_upd_buf: "xo (s\<lparr>output_buf := (output_buf s)[p := Some v]\<rparr>) t
    = (if t = p \<and> p < length (output_buf s) then v else xo s t)"
  by (simp add: xo_def cell_update)

lemma up_env_frame:
  assumes env: "up_env inp lam e s"
    and f: "jseg s' = jseg s" "j_up s' = j_up s" "indjseg s' = indjseg s"
      "output_up_first s' = output_up_first s" "output_up_curr s' = output_up_curr s"
    and ix: "\<And>j. unat (jseg s) \<le> j \<Longrightarrow> j \<le> unat (j_up s) \<Longrightarrow> indstart_up s' ! j = indstart_up s ! j"
    and pre: "\<And>t. t < unat (indjseg s) \<Longrightarrow> xo s' t = xo s t"
    and cells: "\<And>j. unat (jseg s) < j \<Longrightarrow> j \<le> unat (j_up s) \<Longrightarrow> xo s' (bu s j) = xo s (bu s j)"
  shows "up_env inp lam e s'"
proof -
  have b: "bu s' j = bu s j" if "unat (jseg s) \<le> j" "j \<le> unat (j_up s)" for j
    using ix[OF that] by (simp add: bu_def)
  have sl: "slu s' j = slu s j" if "unat (jseg s) \<le> j" "j \<le> unat (j_up s)" for j
    using that b[OF that] cells[of j] f by (auto simp: slu_def)
  have A: "xsum s' (unat (indjseg s)) = xsum s (unat (indjseg s))" using pre by (rule xsum_cong)
  have e: "env (Ub inp lam) (xsum s (unat (indjseg s))) (unat (jseg s)) (unat (j_up s)) (bu s) (slu s)
       (output_up_curr s) e" using env by (simp add: up_env_def)
  have "env (Ub inp lam) (xsum s (unat (indjseg s))) (unat (jseg s)) (unat (j_up s)) (bu s') (slu s')
       (output_up_curr s) e"
    using b sl by (intro env_cong[OF _ _ e]) simp_all
  moreover have "unat (jseg s) < unat (j_up s) \<longrightarrow> slu s' (unat (j_up s) - 1) < output_up_curr s"
    using env sl[of "unat (j_up s) - 1"] by (auto simp: up_env_def)
  moreover have "slu s' (unat (j_up s)) = output_up_curr s"
    using env sl[of "unat (j_up s)"] env_le[OF e] by (simp add: up_env_def)
  ultimately show ?thesis using f A by (simp add: up_env_def)
qed

lemma low_env_frame:
  assumes env: "low_env inp lam e s"
    and f: "jseg s' = jseg s" "j_low s' = j_low s" "indjseg s' = indjseg s"
      "output_low_first s' = output_low_first s" "output_low_curr s' = output_low_curr s"
    and ix: "\<And>j. unat (jseg s) \<le> j \<Longrightarrow> j \<le> unat (j_low s) \<Longrightarrow> indstart_low s' ! j = indstart_low s ! j"
    and pre: "\<And>t. t < unat (indjseg s) \<Longrightarrow> xo s' t = xo s t"
    and cells: "\<And>j. unat (jseg s) < j \<Longrightarrow> j \<le> unat (j_low s) \<Longrightarrow> xo s' (bl s j) = xo s (bl s j)"
  shows "low_env inp lam e s'"
  unfolding low_env_def
  by (rule up_env_frame[OF env[unfolded low_env_def]]) (use f ix pre cells in simp_all)

lemma Ub_Suc: "e < length inp \<Longrightarrow> Ub inp lam (Suc e) = Ub inp lam e + inp ! e"
  by (simp add: Ub_def ysum_def)

lemma seg_ok_bu_gt:
  assumes ok: "seg_ok m (indstart_up s) out (jseg s) (indjseg s) (j_up s)"
    and j: "unat (jseg s) < j" "j \<le> unat (j_up s)"
  shows "unat (indjseg s) < bu s j"
  using j
proof (induction j)
  case 0
  then show ?case by simp
next
  case (Suc j)
  have jj: "unat (jseg s) \<le> j" "j < unat (j_up s)" using Suc.prems by auto
  obtain v where v: "indstart_up s ! j = Some v" using seg_ok_some[OF ok jj(1)] jj(2) by auto
  obtain w where w: "indstart_up s ! Suc j = Some w" using seg_ok_some[OF ok _ Suc.prems(2)] jj by auto
  have lt: "bu s j < bu s (Suc j)" using seg_ok_incr[OF ok jj v w] v w by (simp add: bu_def)
  show ?case
  proof (cases "unat (jseg s) = j")
    case True
    then have "bu s j = unat (indjseg s)" using seg_ok_first[OF ok] by (simp add: bu_def)
    then show ?thesis using lt by simp
  next
    case False
    then show ?thesis using Suc.IH jj lt by simp
  qed
qed

lemma seg_ok_bu_first: "seg_ok m (indstart_up s) out (jseg s) (indjseg s) (j_up s) \<Longrightarrow>
    bu s (unat (jseg s)) = unat (indjseg s)"
  using seg_ok_first[of m "indstart_up s" out "jseg s" "indjseg s" "j_up s"] by (simp add: bu_def)

text \<open>Lines 29-33 on the upper envelope: the new sample joins the last segment.\<close>

lemma up_absorb_env:
  assumes res: "up_absorb n i x s = Inr s'"
    and inv: "sinv n (unat i) s" and i: "i < n" and len: "length inp = unat n"
    and env: "up_env inp lam (unat i) s"
    and x: "x = inp ! unat i" "x \<le> output_up_curr s"
  shows "\<exists>c j. s' = s\<lparr>output_buf := (output_buf s)[unat (indjseg s) := Some (output_up_first s)],
                      output_up_curr := c, j_up := j\<rparr> \<and>
      unat (jseg s) \<le> unat j \<and> unat j \<le> unat (j_up s) \<and>
      env (Ub inp lam) (xsum s (unat (indjseg s))) (unat (jseg s)) (unat j) (bu s) (slu s) c (Suc (unat i)) \<and>
      (unat (jseg s) < unat j \<longrightarrow> slu s (unat j - 1) < c) \<and> c \<le> slu s (unat j)"
proof -
  let ?g = "unat (indjseg s)" and ?js = "unat (jseg s)" and ?ju = "unat (j_up s)"
  let ?U = "Ub inp lam" and ?A = "xsum s (unat (indjseg s))"
  have b: "bufs n s" and up: "up_ok (unat i) s" and in_n: "unat i < unat n"
    using inv by (auto simp: sinv_def)
  note ok = up[unfolded up_ok_def]
  have e: "env ?U ?A ?js ?ju (bu s) (slu s) (output_up_curr s) (unat i)"
    and top: "slu s ?ju = output_up_curr s" using env by (simp_all add: up_env_def)
  from res obtain a q out where
    r1: "rd n (indstart_up s) (j_up s) = Inr a" and
    r2: "divu (x - output_up_curr s) (i - a + 1) = Inr q" and
    r3: "wr n (output_buf s) (indjseg s) (output_up_first s) = Inr out" and
    uw: "unwind_up n i (s\<lparr>output_up_curr := output_up_curr s + q, output_buf := out\<rparr>) = Inr s'"
    unfolding up_absorb_def by (auto dest!: ebind_InrD)
  have a: "unat a = bu s ?ju" using rd_InrD[OF r1] by (simp add: bu_def)
  have am: "unat a \<le> unat i" using a env_end[OF e] by simp
  have q: "q = (x - output_up_curr s) / real (Suc (unat i) - bu s ?ju)"
    using divu_InrD[OF r2] unat_span[OF am i] a am by simp
  have out: "out = (output_buf s)[?g := Some (output_up_first s)]" and glen: "?g < length (output_buf s)"
    using wr_InrD[OF r3] by simp_all
  let ?s0 = "s\<lparr>output_up_curr := output_up_curr s + q, output_buf := out\<rparr>"
  have e0: "env ?U ?A ?js ?ju (bu s) (slu s) (output_up_curr s + q) (Suc (unat i))"
    unfolding q using env_absorb[OF e _ x(2)] Ub_Suc[of "unat i" inp lam] x(1) in_n len by simp
  have sl0: "slu ?s0 j = slu s j" if "?js \<le> j" "j \<le> ?ju" for j
  proof (cases "j = ?js")
    case True
    then show ?thesis by (simp add: slu_def)
  next
    case False
    then have "?g < bu s j" using seg_ok_bu_gt[OF ok, of j] that by simp
    then show ?thesis using False by (simp add: slu_def out xo_def cell_update bu_def)
  qed
  have bu0: "bu ?s0 = bu s" by simp
  have ok0: "seg_ok (unat i) (indstart_up ?s0) (output_buf ?s0) (jseg ?s0) (indjseg ?s0) (j_up ?s0)"
    using seg_ok_init_mono[OF ok, of out] in_n b by (simp add: out bufs_def)
  have cg0: "xo ?s0 (unat (indjseg ?s0)) = output_up_first ?s0"
    using glen by (simp add: xo_def out cell_update)
  have env0: "env ?U ?A (unat (jseg ?s0)) (unat (j_up ?s0)) (bu ?s0) (slu ?s0) (output_up_curr ?s0) (Suc (unat i))"
    using env_cong[OF _ _ e0, of "bu s" "slu ?s0"] sl0 by simp
  have qle: "q \<le> 0" unfolding q using x(2) by (intro divide_nonpos_nonneg) simp_all
  have top0: "output_up_curr ?s0 \<le> slu ?s0 (unat (j_up ?s0))"
    using sl0[of ?ju] top qle env_le[OF e] by simp
  obtain c j where post: "s' = ?s0\<lparr>output_up_curr := c, j_up := j\<rparr>"
    "unat (jseg ?s0) \<le> unat j" "unat j \<le> unat (j_up ?s0)"
    "env ?U ?A (unat (jseg ?s0)) (unat j) (bu ?s0) (slu ?s0) c (Suc (unat i))"
    "unat (jseg ?s0) < unat j \<longrightarrow> slu ?s0 (unat j - 1) < c" "c \<le> slu ?s0 (unat j)"
    using unwind_up_env[OF uw ok0 i cg0 env0 top0] by blast
  have envf: "env ?U ?A ?js (unat j) (bu s) (slu s) c (Suc (unat i))"
    using env_cong[OF _ _ post(4), of "bu s" "slu s"] sl0 post(2,3) by simp
  have "s' = s\<lparr>output_buf := (output_buf s)[?g := Some (output_up_first s)],
                output_up_curr := c, j_up := j\<rparr>"
    using post(1) by (simp add: out)
  moreover have "?js < unat j \<longrightarrow> slu s (unat j - 1) < c"
    using post(5) sl0[of "unat j - 1"] post(2,3) by auto
  moreover have "c \<le> slu s (unat j)" using post(6) sl0[of "unat j"] post(2,3) by simp
  ultimately show ?thesis using post(2,3) envf by (intro exI[of _ c] exI[of _ j]) simp
qed

definition sll :: "st \<Rightarrow> nat \<Rightarrow> real" where
  "sll s j = (if j = unat (jseg s) then output_low_first s else xo s (bl s j))"

definition Lb :: "real list \<Rightarrow> real \<Rightarrow> nat \<Rightarrow> real" where
  "Lb inp lam k = ysum inp k - lam"

lemma slu_mirror: "slu (mirror s) j = - sll s j"
  by (simp add: slu_def sll_def)

lemma Ub_neg: "Ub (map uminus inp) lam k = - Lb inp lam k"
  by (simp add: Ub_def Lb_def)

lemma low_env_alt:
  "low_env inp lam e s \<longleftrightarrow>
     env (\<lambda>k. - Lb inp lam k) (- xsum s (unat (indjseg s))) (unat (jseg s)) (unat (j_low s)) (bl s)
       (\<lambda>j. - sll s j) (- output_low_curr s) e \<and>
     (unat (jseg s) < unat (j_low s) \<longrightarrow> output_low_curr s < sll s (unat (j_low s) - 1)) \<and>
     sll s (unat (j_low s)) = output_low_curr s"
proof -
  have 1: "Ub (map uminus inp) lam = (\<lambda>k. - Lb inp lam k)" by (simp add: fun_eq_iff Ub_neg)
  have 2: "slu (mirror s) = (\<lambda>j. - sll s j)" by (simp add: fun_eq_iff slu_mirror)
  show ?thesis unfolding low_env_def up_env_def 1 2 by simp
qed

lemma up_env_incr:
  assumes env: "up_env inp lam e s" and j: "unat (jseg s) \<le> j" "j < unat (j_up s)"
  shows "slu s j < slu s (Suc j)"
proof (cases "Suc j = unat (j_up s)")
  case True
  then have a: "unat (j_up s) - 1 = j" by simp
  have lt: "unat (jseg s) < unat (j_up s)" using j by simp
  have "slu s (unat (j_up s) - 1) < output_up_curr s" using env lt by (simp add: up_env_def)
  moreover have "slu s (unat (j_up s)) = output_up_curr s" using env by (simp add: up_env_def)
  ultimately show ?thesis unfolding a True[symmetric] by simp
next
  case False
  then have "Suc j < unat (j_up s)" using j by simp
  then show ?thesis using env env_incr j(1) by (auto simp: up_env_def)
qed

lemma low_env_decr:
  assumes env: "low_env inp lam e s" and j: "unat (jseg s) \<le> j" "j < unat (j_low s)"
  shows "sll s (Suc j) < sll s j"
  using up_env_incr[OF env[unfolded low_env_def], of j] j by (simp add: slu_mirror)

text \<open>What the upper envelope says about its first segment.\<close>

lemma up_env_first_line:
  assumes env: "up_env inp lam e s" and g: "bu s (unat (jseg s)) = unat (indjseg s)"
    and k: "unat (indjseg s) < k" "k \<le> e"
  shows "xsum s (unat (indjseg s)) + output_up_first s * real (k - unat (indjseg s)) \<le> Ub inp lam k"
proof -
  let ?js = "unat (jseg s)" and ?ju = "unat (j_up s)"
  have e: "env (Ub inp lam) (xsum s (unat (indjseg s))) ?js ?ju (bu s) (slu s) (output_up_curr s) e"
    and strict: "?js < ?ju \<Longrightarrow> slu s (?ju - 1) < output_up_curr s"
    and top: "slu s ?ju = output_up_curr s"
    using env by (simp_all add: up_env_def)
  have first: "slope ?ju (slu s) (output_up_curr s) ?js = output_up_first s"
    using top by (auto simp: slope_def slu_def)
  have "k \<le> nxt ?ju (bu s) e ?ju" using k by (simp add: nxt_def)
  then show ?thesis
    using env_first_line[OF e strict env_le[OF e] order_refl, of k] k g first by simp
qed

lemma low_env_first_line:
  assumes env: "low_env inp lam e s" and g: "bl s (unat (jseg s)) = unat (indjseg s)"
    and k: "unat (indjseg s) < k" "k \<le> e"
  shows "Lb inp lam k \<le> xsum s (unat (indjseg s)) + output_low_first s * real (k - unat (indjseg s))"
  using up_env_first_line[OF env[unfolded low_env_def], of k] g k by (simp add: Ub_neg)

lemma up_env_seg:
  assumes env: "up_env inp lam e s" and g: "bu s (unat (jseg s)) = unat (indjseg s)"
    and lt: "unat (jseg s) < unat (j_up s)"
  shows "xsum s (unat (indjseg s)) + output_up_first s * real (bu s (Suc (unat (jseg s))) - unat (indjseg s))
           = Ub inp lam (bu s (Suc (unat (jseg s))))"
    and "unat (indjseg s) < bu s (Suc (unat (jseg s)))"
    and "bu s (Suc (unat (jseg s))) < e"
proof -
  let ?js = "unat (jseg s)" and ?ju = "unat (j_up s)"
  have e: "env (Ub inp lam) (xsum s (unat (indjseg s))) ?js ?ju (bu s) (slu s) (output_up_curr s) e"
    using env by (simp add: up_env_def)
  show "xsum s (unat (indjseg s)) + output_up_first s * real (bu s (Suc ?js) - unat (indjseg s))
           = Ub inp lam (bu s (Suc ?js))"
    using env_touch[OF e order_refl lt] g by (simp add: epos_def slu_def)
  show "unat (indjseg s) < bu s (Suc ?js)" using env_mono[OF e order_refl lt] g by simp
  have "bu s (Suc ?js) \<le> bu s ?ju"
    using env_b_mono[OF e, of "Suc ?js" ?ju] lt by (cases "Suc ?js = ?ju") auto
  then show "bu s (Suc ?js) < e" using env_end[OF e] by simp
qed

lemma low_env_seg:
  assumes env: "low_env inp lam e s" and g: "bl s (unat (jseg s)) = unat (indjseg s)"
    and lt: "unat (jseg s) < unat (j_low s)"
  shows "xsum s (unat (indjseg s)) + output_low_first s * real (bl s (Suc (unat (jseg s))) - unat (indjseg s))
           = Lb inp lam (bl s (Suc (unat (jseg s))))"
    and "unat (indjseg s) < bl s (Suc (unat (jseg s)))"
    and "bl s (Suc (unat (jseg s))) < e"
  using up_env_seg[OF env[unfolded low_env_def], of ] g lt by (simp_all add: Ub_neg)

lemma up_env_single:
  assumes env: "up_env inp lam e s" and g: "bu s (unat (jseg s)) = unat (indjseg s)"
    and eq: "unat (j_up s) = unat (jseg s)"
  shows "output_up_first s = output_up_curr s"
    and "xsum s (unat (indjseg s)) + output_up_curr s * real (e - unat (indjseg s)) = Ub inp lam e"
    and "unat (indjseg s) < e"
proof -
  let ?js = "unat (jseg s)" and ?ju = "unat (j_up s)"
  have e: "env (Ub inp lam) (xsum s (unat (indjseg s))) ?js ?ju (bu s) (slu s) (output_up_curr s) e"
    and top: "slu s ?ju = output_up_curr s"
    using env by (simp_all add: up_env_def)
  show "output_up_first s = output_up_curr s" using top eq by (simp add: slu_def)
  show "xsum s (unat (indjseg s)) + output_up_curr s * real (e - unat (indjseg s)) = Ub inp lam e"
    using env_last[OF e] eq g by (simp add: epos_def)
  show "unat (indjseg s) < e" using env_end[OF e] eq g by simp
qed

lemma low_env_single:
  assumes env: "low_env inp lam e s" and g: "bl s (unat (jseg s)) = unat (indjseg s)"
    and eq: "unat (j_low s) = unat (jseg s)"
  shows "output_low_first s = output_low_curr s"
    and "xsum s (unat (indjseg s)) + output_low_curr s * real (e - unat (indjseg s)) = Lb inp lam e"
    and "unat (indjseg s) < e"
  using up_env_single[OF env[unfolded low_env_def]] g eq by (simp_all add: Ub_neg)

definition CL :: "u32 \<Rightarrow> real list \<Rightarrow> real \<Rightarrow> nat \<Rightarrow> nat \<Rightarrow> st \<Rightarrow> bool" where
  "CL n inp lam el E s \<longleftrightarrow>
     bufs n s \<and> low_ok (E - 1) s \<and> filled s \<and> E - 1 < unat n \<and> 0 < E \<and> el \<le> E \<and>
     low_env inp lam el s \<and>
     unat (indjseg s) < E \<and>
     xsum s (unat (indjseg s)) + output_up_curr s * real (E - unat (indjseg s)) = Ub inp lam E \<and>
     (\<forall>k. unat (indjseg s) < k \<and> k \<le> E \<longrightarrow>
        xsum s (unat (indjseg s)) + output_up_curr s * real (k - unat (indjseg s)) \<le> Ub inp lam k) \<and>
     (\<forall>k. unat (indjseg s) < k \<and> k < E \<longrightarrow>
        xsum s (unat (indjseg s)) + output_low_first s * real (k - unat (indjseg s)) \<le> Ub inp lam k) \<and>
     (\<forall>k. 0 < k \<and> k \<le> unat (indjseg s) \<longrightarrow> \<bar>xsum s k - ysum inp k\<bar> \<le> lam) \<and>
     (\<forall>k. 0 < k \<and> k < unat (indjseg s) \<longrightarrow>
        (xo s (k - 1) < xo s k \<longrightarrow> xsum s k - ysum inp k = lam) \<and>
        (xo s k < xo s (k - 1) \<longrightarrow> xsum s k - ysum inp k = - lam)) \<and>
     (unat (indjseg s) = 0 \<or>
      (xsum s (unat (indjseg s)) - ysum inp (unat (indjseg s)) = lam \<and>
         xo s (unat (indjseg s) - 1) \<le> output_low_first s) \<or>
      (xsum s (unat (indjseg s)) - ysum inp (unat (indjseg s)) = - lam \<and>
         output_low_first s \<le> xo s (unat (indjseg s) - 1) \<and>
         output_up_curr s \<le> xo s (unat (indjseg s) - 1)))"

lemma xsum_split: "g \<le> k \<Longrightarrow> xsum s k = xsum s g + (\<Sum>t = g..<k. xo s t)"
proof -
  assume "g \<le> k"
  then show ?thesis
    unfolding xsum_def lessThan_atLeast0 using sum.atLeastLessThan_concat[of 0 g k "xo s"] by simp
qed

lemma xsum_fill:
  assumes cells: "\<And>t. xo s1 t = (if g \<le> t \<and> t < e1 then v else xo s t)" and k: "g \<le> k" "k \<le> e1"
  shows "xsum s1 k = xsum s g + v * real (k - g)"
proof -
  have "xsum s1 g = xsum s g" by (rule xsum_cong) (simp add: cells)
  moreover have "(\<Sum>t = g..<k. xo s1 t) = (\<Sum>t = g..<k. v)"
    using k by (intro sum.cong refl) (simp add: cells)
  ultimately show ?thesis using xsum_split[OF k(1), of s1] by (simp add: mult.commute)
qed

lemma low_ok_bl_first: "low_ok m s \<Longrightarrow> bl s (unat (jseg s)) = unat (indjseg s)"
  using seg_ok_first[of m "indstart_low s" "output_buf s" "jseg s" "indjseg s" "j_low s"]
  by (simp add: low_ok_def bl_def)

lemma up_ok_bu_first: "up_ok m s \<Longrightarrow> bu s (unat (jseg s)) = unat (indjseg s)"
  using seg_ok_first[of m "indstart_up s" "output_buf s" "jseg s" "indjseg s" "j_up s"]
  by (simp add: up_ok_def bu_def)

text \<open>One round of the loop of lines 35-41: the first segment of the lower envelope is closed.\<close>

lemma CL_step:
  assumes cl: "CL n inp lam el E s"
    and cond: "output_up_curr s \<le> output_low_first s" "unat (jseg s) < unat (j_low s)"
    and e1: "indstart_low s ! Suc (unat (jseg s)) = Some e1w"
    and r: "r = real (unat e1w - unat (indjseg s)) / real (E - unat e1w)"
    and len: "length out' = unat n"
    and cells: "\<forall>t < unat n. out' ! t =
        (if unat (indjseg s) \<le> t \<and> t < unat e1w then Some (output_low_first s) else output_buf s ! t)"
    and v: "out' ! unat e1w = Some v"
    and js1: "unat js1 = Suc (unat (jseg s))"
    and s1: "s1 = s\<lparr>jseg := js1,
                output_up_curr := output_up_curr s + (output_up_curr s - output_low_first s) * r,
                output_buf := out', indjseg := e1w, output_low_first := v\<rparr>"
    and st: "bufs n s1" "low_ok (E - 1) s1" "filled s1"
  shows "CL n inp lam el E s1"
proof -
  let ?g = "unat (indjseg s)" and ?js = "unat (jseg s)" and ?jl = "unat (j_low s)"
  let ?A = "xsum s ?g" and ?lf = "output_low_first s" and ?c = "output_up_curr s"
  let ?e1 = "unat e1w"
  let ?c1 = "?c + (?c - ?lf) * r"
  have b: "bufs n s" and low: "low_ok (E - 1) s" and En: "E - 1 < unat n" and E0: "0 < E" and elE: "el \<le> E"
    and lenv: "low_env inp lam el s" and gE: "?g < E"
    and last: "?A + ?c * real (E - ?g) = Ub inp lam E"
    and below: "\<And>k. ?g < k \<Longrightarrow> k \<le> E \<Longrightarrow> ?A + ?c * real (k - ?g) \<le> Ub inp lam k"
    and tg: "\<And>k. ?g < k \<Longrightarrow> k < E \<Longrightarrow> ?A + ?lf * real (k - ?g) \<le> Ub inp lam k"
    and k1: "\<And>k. 0 < k \<Longrightarrow> k \<le> ?g \<Longrightarrow> \<bar>xsum s k - ysum inp k\<bar> \<le> lam"
    and k2: "\<And>k. 0 < k \<Longrightarrow> k < ?g \<Longrightarrow>
        (xo s (k - 1) < xo s k \<longrightarrow> xsum s k - ysum inp k = lam) \<and>
        (xo s k < xo s (k - 1) \<longrightarrow> xsum s k - ysum inp k = - lam)"
    and anc: "?g = 0 \<or> (?A - ysum inp ?g = lam \<and> xo s (?g - 1) \<le> ?lf) \<or>
       (?A - ysum inp ?g = - lam \<and> ?lf \<le> xo s (?g - 1) \<and> ?c \<le> xo s (?g - 1))"
    using cl unfolding CL_def by blast+
  have blg: "bl s ?js = ?g" using low by (rule low_ok_bl_first)
  have ble: "bl s (Suc ?js) = ?e1" using e1 by (simp add: bl_def)
  note seg = low_env_seg[OF lenv blg cond(2), unfolded ble]
  have ge1: "?g < ?e1" and e1el: "?e1 < el" using seg by simp_all
  have e1E: "?e1 < E" using e1el elE by simp
  have e1n: "?e1 < unat n" using e1E En by simp
  have above: "Lb inp lam k \<le> ?A + ?lf * real (k - ?g)" if "?g < k" "k \<le> el" for k
    using low_env_first_line[OF lenv blg that] .
  have xe1: "xo s ?e1 = v"
    using cells v e1n b by (simp add: xo_def cell_def bufs_def)
  have "sll s (Suc ?js) < sll s ?js" using low_env_decr[OF lenv order_refl cond(2)] .
  then have vlt: "v < ?lf" using xe1 ble by (simp add: sll_def)
  have sel: "jseg s1 = js1" "indjseg s1 = e1w" "output_low_first s1 = v" "output_up_curr s1 = ?c1"
    "output_buf s1 = out'" "j_low s1 = j_low s" "indstart_low s1 = indstart_low s"
    "output_low_curr s1 = output_low_curr s"
    by (simp_all add: s1)
  have xo1: "xo s1 t = (if ?g \<le> t \<and> t < ?e1 then ?lf else xo s t)" for t
  proof (cases "t < unat n")
    case True
    then show ?thesis using cells len b by (simp add: xo_def cell_def sel bufs_def)
  next
    case False
    then show ?thesis using len b e1n by (simp add: xo_def cell_def sel bufs_def)
  qed
  have xs_lo: "xsum s1 k = xsum s k" if "k \<le> ?g" for k
    by (rule xsum_cong) (use that in \<open>simp add: xo1\<close>)
  have xs_mid: "xsum s1 k = ?A + ?lf * real (k - ?g)" if "?g \<le> k" "k \<le> ?e1" for k
    using xsum_fill[of s1 ?g ?e1 ?lf s k] xo1 that by simp
  have A1: "xsum s1 ?e1 = Lb inp lam ?e1" using xs_mid[of ?e1] ge1 seg(1) by simp
  have bl1: "bl s1 = bl s" by (simp add: bl_def sel fun_eq_iff)
  have lenv1: "low_env inp lam el s1"
  proof -
    have old: "env (\<lambda>k. - Lb inp lam k) (- ?A) ?js ?jl (bl s) (\<lambda>j. - sll s j) (- output_low_curr s) el"
      and ostrict: "?js < ?jl \<longrightarrow> output_low_curr s < sll s (?jl - 1)"
      and otop: "sll s ?jl = output_low_curr s"
      using lenv unfolding low_env_alt by blast+
    have mono: "?e1 < bl s j" if "Suc ?js < j" "j \<le> ?jl" for j
      using env_b_mono[OF old, of "Suc ?js" j] that ble by simp
    have sl1: "sll s1 j = sll s j" if "Suc ?js \<le> j" "j \<le> ?jl" for j
    proof (cases "j = Suc ?js")
      case True
      then show ?thesis using xe1 ble by (simp add: sll_def sel js1)
    next
      case False
      then have "?e1 < bl s j" using mono that by simp
      then show ?thesis using False that by (simp add: sll_def sel js1 bl1 xo1)
    qed
    have adv: "env (\<lambda>k. - Lb inp lam k) (- Lb inp lam ?e1) (Suc ?js) ?jl (bl s) (\<lambda>j. - sll s j)
        (- output_low_curr s) el"
      using env_advance[OF old cond(2)] ble by simp
    have "env (\<lambda>k. - Lb inp lam k) (- Lb inp lam ?e1) (Suc ?js) ?jl (bl s1) (\<lambda>j. - sll s1 j)
        (- output_low_curr s) el"
      by (rule env_cong[OF _ _ adv]) (simp_all add: bl1 sl1)
    moreover have "Suc ?js < ?jl \<longrightarrow> output_low_curr s < sll s1 (?jl - 1)"
      using ostrict sl1[of "?jl - 1"] by auto
    moreover have "sll s1 ?jl = output_low_curr s" using otop sl1[of ?jl] cond(2) by simp
    ultimately show ?thesis unfolding low_env_alt by (simp add: sel js1 A1)
  qed
  have rpos: "0 \<le> r" unfolding r by simp
  have c1c: "?c1 \<le> ?c" using cond(1) rpos by (simp add: mult_nonpos_nonneg)
  have c1lf: "?c1 \<le> ?lf" using c1c cond(1) by simp
  have reals: "real (E - ?g) = real (E - ?e1) + real (?e1 - ?g)" using ge1 e1E by simp
  have "0 < real (E - ?e1)" using e1E by (simp only: of_nat_0_less_iff zero_less_diff)
  then have dpos: "real (E - ?e1) \<noteq> 0" by linarith
  have rmul: "r * real (E - ?e1) = real (?e1 - ?g)"
    using nonzero_divide_eq_eq[OF dpos, of "real (?e1 - ?g)" r] r by simp
  have "?c1 * real (E - ?e1) = ?c * real (E - ?e1) + (?c - ?lf) * (r * real (E - ?e1))"
    by (simp add: algebra_simps)
  then have c1tot: "?c1 * real (E - ?e1) = ?c * real (E - ?g) - ?lf * real (?e1 - ?g)"
    by (simp only: rmul reals) (simp add: algebra_simps)
  have last1: "xsum s1 ?e1 + ?c1 * real (E - ?e1) = Ub inp lam E"
    using c1tot last xs_mid[of ?e1] ge1 by simp
  have line: "xsum s1 ?e1 + ?lf * real (k - ?e1) = ?A + ?lf * real (k - ?g)" if "?e1 \<le> k" for k
  proof -
    have d: "real (k - ?g) = real k - real ?g" "real (k - ?e1) = real k - real ?e1"
      "real (?e1 - ?g) = real ?e1 - real ?g" using ge1 that by (simp_all add: of_nat_diff)
    have "xsum s1 ?e1 = ?A + ?lf * (real ?e1 - real ?g)" using xs_mid[of ?e1] ge1 d(3) by simp
    then show ?thesis unfolding d by (simp add: algebra_simps)
  qed
  have below1: "xsum s1 ?e1 + ?c1 * real (k - ?e1) \<le> Ub inp lam k" if "?e1 < k" "k \<le> E" for k
  proof (cases "k = E")
    case True
    then show ?thesis using last1 by simp
  next
    case False
    then have kE: "k < E" using that by simp
    have "?c1 * real (k - ?e1) \<le> ?lf * real (k - ?e1)" using c1lf by (intro mult_right_mono) simp_all
    then have "xsum s1 ?e1 + ?c1 * real (k - ?e1) \<le> ?A + ?lf * real (k - ?g)"
      using line[of k] that by simp
    also have "\<dots> \<le> Ub inp lam k" using tg[of k] ge1 that kE by simp
    finally show ?thesis .
  qed
  have tg1: "xsum s1 ?e1 + v * real (k - ?e1) \<le> Ub inp lam k" if "?e1 < k" "k < E" for k
  proof -
    have "v * real (k - ?e1) \<le> ?lf * real (k - ?e1)" using vlt by (intro mult_right_mono) simp_all
    then have "xsum s1 ?e1 + v * real (k - ?e1) \<le> ?A + ?lf * real (k - ?g)"
      using line[of k] that by simp
    also have "\<dots> \<le> Ub inp lam k" using tg[of k] ge1 that by simp
    finally show ?thesis .
  qed
  have k1': "\<bar>xsum s1 k - ysum inp k\<bar> \<le> lam" if "0 < k" "k \<le> ?e1" for k
  proof (cases "k \<le> ?g")
    case True
    then show ?thesis using k1[OF that(1) True] xs_lo[OF True] by simp
  next
    case False
    then have gk: "?g < k" by simp
    have "xsum s1 k = ?A + ?lf * real (k - ?g)" using xs_mid[of k] gk that by simp
    moreover have "?A + ?lf * real (k - ?g) \<le> Ub inp lam k" using tg[OF gk] that e1E by simp
    moreover have "Lb inp lam k \<le> ?A + ?lf * real (k - ?g)" using above[OF gk] that e1el by simp
    ultimately show ?thesis by (simp add: Ub_def Lb_def abs_le_iff)
  qed
  have k2': "(xo s1 (k - 1) < xo s1 k \<longrightarrow> xsum s1 k - ysum inp k = lam) \<and>
        (xo s1 k < xo s1 (k - 1) \<longrightarrow> xsum s1 k - ysum inp k = - lam)" if "0 < k" "k < ?e1" for k
  proof -
    consider (lo) "k < ?g" | (at) "k = ?g" | (hi) "?g < k" by linarith
    then show ?thesis
    proof cases
      case lo
      then have "\<not> ?g \<le> k - 1" "\<not> ?g \<le> k" by linarith+
      then have "xo s1 (k - 1) = xo s (k - 1)" "xo s1 k = xo s k" by (simp_all add: xo1)
      then show ?thesis using k2[OF that(1) lo] xs_lo[of k] lo by simp
    next
      case at
      have "\<not> ?g \<le> ?g - 1" using at that(1) by linarith
      then have x: "xo s1 (k - 1) = xo s (?g - 1)" "xo s1 k = ?lf" using at that ge1 by (simp_all add: xo1)
      have "xsum s1 k = ?A" using xs_lo[of k] at by simp
      then show ?thesis using anc at that(1) x by auto
    next
      case hi
      then have "?g \<le> k - 1" "k - 1 < ?e1" "?g \<le> k" using that by linarith+
      then have "xo s1 (k - 1) = ?lf" "xo s1 k = ?lf" using that by (simp_all add: xo1)
      then show ?thesis by simp
    qed
  qed
  have "?g \<le> ?e1 - 1" "?e1 - 1 < ?e1" using ge1 by linarith+
  then have xprev: "xo s1 (?e1 - 1) = ?lf" by (simp add: xo1)
  have anc1: "xsum s1 ?e1 - ysum inp ?e1 = - lam \<and> v \<le> xo s1 (?e1 - 1) \<and> ?c1 \<le> xo s1 (?e1 - 1)"
    using A1 vlt c1lf xprev by (simp add: Lb_def)
  show ?thesis
    unfolding CL_def sel
    using st En E0 elE lenv1 e1E last1 below1 tg1 k1' k2' anc1 by blast
qed

lemma commit_low_CL:
  "commit_low n i s = Inr s' \<Longrightarrow> CL n inp lam el (Suc (unat i)) s \<Longrightarrow> i < n \<Longrightarrow>
   CL n inp lam el (Suc (unat i)) s' \<and>
   \<not> (output_up_curr s' \<le> output_low_first s' \<and> unat (jseg s') < unat (j_low s')) \<and>
   indstart_low s' = indstart_low s \<and> indstart_up s' = indstart_up s \<and>
   j_low s' = j_low s \<and> j_up s' = j_up s \<and>
   output_low_curr s' = output_low_curr s \<and> output_up_first s' = output_up_first s"
proof (induction n i s rule: commit_low.induct)
  case (1 n i s)
  note res = "1.prems"(1) and cl = "1.prems"(2) and i = "1.prems"(3)
  have b: "bufs n s" and low: "low_ok (unat i) s" and fl: "filled s"
    using cl by (simp_all add: CL_def)
  note ok = low[unfolded low_ok_def]
  have in_n: "unat i < unat n" using i by (simp add: word_less_nat_alt)
  show ?case
  proof (cases "output_up_curr s \<le> output_low_first s \<and> jseg s < j_low s")
    case False
    then have "s' = s" using res by (subst (asm) commit_low.simps) (simp only: if_False, simp)
    then show ?thesis using cl False by (simp add: word_less_nat_alt)
  next
    case True
    then have jlt: "unat (jseg s) < unat (j_low s)" by (simp add: word_less_nat_alt)
    have suc: "unat (jseg s + 1) = Suc (unat (jseg s))" using unat_inc[of "jseg s" "j_low s"] True by simp
    have jm: "unat (j_low s) \<le> unat i" using seg_ok_bounds[OF ok] by simp
    obtain e where e: "indstart_low s ! Suc (unat (jseg s)) = Some e" and em: "unat e \<le> unat i"
      using seg_ok_some[OF ok, of "Suc (unat (jseg s))"] jlt by auto
    have lte: "unat (indjseg s) < unat e"
      using seg_ok_incr[OF ok order_refl jlt seg_ok_first[OF ok] e] .
    have einit: "output_buf s ! unat e \<noteq> None"
      using seg_ok_init[OF ok _ _ e] jlt by simp
    have r1: "rd n (indstart_low s) (jseg s + 1) = Inr e"
      using e suc jlt jm in_n b by (intro rd_Some unat_less_word) (auto simp: bufs_def)
    have nz: "i - e + 1 \<noteq> 0" using em i by (intro span_nonzero)
    let ?r = "real (unat (e - indjseg s)) / real (unat (i - e + 1))"
    have r2: "ratio (e - indjseg s) (i - e + 1) = Inr ?r" using nz by (simp add: ratio_def)
    have rr: "?r = real (unat e - unat (indjseg s)) / real (Suc (unat i) - unat e)"
      using unat_sub_le[of "indjseg s" e] lte unat_span[OF em i] em by (simp add: word_le_nat_alt)
    obtain out' where f: "fill_lt n e (output_low_first s) (output_buf s) (indjseg s) = Inr (out', e)"
      and len: "length out' = unat n"
      and cells: "\<forall>t < unat n. out' ! t =
          (if unat (indjseg s) \<le> t \<and> t < unat e then Some (output_low_first s) else output_buf s ! t)"
      using fill_lt_ok[of "output_buf s" n "indjseg s" e "output_low_first s"] lte em in_n b
      by (auto simp: bufs_def word_le_nat_alt)
    have mono: "init_mono (output_buf s) out'"
      using cells len b by (auto simp: init_mono_def bufs_def)
    have "out' ! unat e = output_buf s ! unat e" using cells em in_n by simp
    then obtain v where v: "out' ! unat e = Some v" using einit by auto
    have r3: "rd n out' e = Inr v"
      using v em in_n len by (intro rd_Some unat_less_word) auto
    let ?s1 = "s\<lparr>jseg := jseg s + 1,
                output_up_curr := output_up_curr s + (output_up_curr s - output_low_first s) * ?r,
                output_buf := out', indjseg := e, output_low_first := v\<rparr>"
    have b': "bufs n ?s1" using b len by (simp add: bufs_def)
    have ok': "low_ok (unat i) ?s1"
      unfolding low_ok_def using seg_ok_init_mono[OF seg_ok_advance[OF ok jlt e] mono] in_n b
      by (simp add: bufs_def)
    have fl': "filled ?s1"
      using fl cells em in_n len b by (auto simp: filled_def bufs_def)
    have rec: "commit_low n i ?s1 = Inr s'"
      using res by (subst (asm) commit_low.simps) (simp add: True r1 r2 f r3)
    have cl1: "CL n inp lam el (Suc (unat i)) ?s1"
      using CL_step[OF cl _ jlt e rr len cells v suc refl] True b' ok' fl' by simp
    show ?thesis
      using "1.IH"[OF True r1 r2 f refl r3 rec cl1 i] by auto
  qed
qed

lemma mult_pos_cancel_le:
  fixes a b d :: real
  assumes "0 < d" "b * d \<le> a * d"
  shows "b \<le> a"
  using assms by (simp add: mult_le_cancel_right)

text \<open>Leaving the loop of lines 35-41 and resetting the upper envelope (lines 42-43, 78-79).\<close>

lemma CL_exit:
  assumes cl: "CL n inp lam el (Suc e) s'"
    and ex: "\<not> (output_up_curr s' \<le> output_low_first s' \<and> unat (jseg s') < unat (j_low s'))"
    and lowx: "el = Suc e \<or> (el = e \<and> output_low_curr s' \<le> x \<and> Ub inp lam (Suc e) = Ub inp lam e + x)"
    and s2: "s2 = s'\<lparr>j_up := jseg s',
                  indstart_up := (indstart_up s')[unat (jseg s') := Some (indjseg s')],
                  output_up_first := f\<rparr>"
    and f: "f = output_up_curr s' \<or> (unat (indjseg s') = e \<and> f = output_low_first s' + 2 * lam)"
    and sv: "sinv n e s2" and len: "length inp = unat n" and lam: "0 < lam"
  shows "Inv n inp lam el (Suc e) s2"
proof -
  let ?g = "unat (indjseg s')" and ?js = "unat (jseg s')" and ?jl = "unat (j_low s')"
  let ?A = "xsum s' ?g" and ?lf = "output_low_first s'" and ?c = "output_up_curr s'"
  let ?E = "Suc e"
  have b: "bufs n s'" and low: "low_ok e s'" and En: "e < unat n" and elE: "el \<le> ?E"
    and lenv: "low_env inp lam el s'" and gE: "?g < ?E"
    and last: "?A + ?c * real (?E - ?g) = Ub inp lam ?E"
    and below: "\<And>k. ?g < k \<Longrightarrow> k \<le> ?E \<Longrightarrow> ?A + ?c * real (k - ?g) \<le> Ub inp lam k"
    and k1: "\<And>k. 0 < k \<Longrightarrow> k \<le> ?g \<Longrightarrow> \<bar>xsum s' k - ysum inp k\<bar> \<le> lam"
    and k2: "\<And>k. 0 < k \<Longrightarrow> k < ?g \<Longrightarrow>
        (xo s' (k - 1) < xo s' k \<longrightarrow> xsum s' k - ysum inp k = lam) \<and>
        (xo s' k < xo s' (k - 1) \<longrightarrow> xsum s' k - ysum inp k = - lam)"
    and anc: "?g = 0 \<or> (?A - ysum inp ?g = lam \<and> xo s' (?g - 1) \<le> ?lf) \<or>
       (?A - ysum inp ?g = - lam \<and> ?lf \<le> xo s' (?g - 1) \<and> ?c \<le> xo s' (?g - 1))"
    using cl unfolding CL_def by (simp_all only: diff_Suc_1) blast+
  have blg: "bl s' ?js = ?g" using low by (rule low_ok_bl_first)
  have jsl: "?js \<le> ?jl" "?jl \<le> e" using seg_ok_bounds[OF low[unfolded low_ok_def]] by auto
  define d where "d = real (?E - ?g)"
  have dpos: "0 < d" unfolding d_def using gE by (simp only: of_nat_0_less_iff zero_less_diff)
  have last': "?A + ?c * d = Ub inp lam ?E" using last by (simp only: d_def)
  have single: "?lf \<le> ?c" if eq: "?jl = ?js"
  proof -
    note sg = low_env_single[OF lenv blg eq]
    have lf: "?lf = output_low_curr s'" using sg(1) .
    from lowx have "?lf * d \<le> ?c * d"
    proof
      assume el: "el = Suc e"
      have "?A + ?lf * d = Lb inp lam ?E" using sg(2) lf el by (simp only: d_def)
      then have "?lf * d = ysum inp ?E - lam - ?A" "?c * d = ysum inp ?E + lam - ?A"
        using last' unfolding Ub_def Lb_def by linarith+
      then show ?thesis using lam by linarith
    next
      assume a: "el = e \<and> output_low_curr s' \<le> x \<and> Ub inp lam (Suc e) = Ub inp lam e + x"
      have ge: "?g < e" using sg(3) a by simp
      have d1: "real (e - ?g) = d - 1" unfolding d_def using ge by (simp add: Suc_diff_le)
      have "?A + ?lf * (d - 1) = Lb inp lam e" using sg(2) lf a by (simp only: d1[symmetric])
      then have "?lf * d = Lb inp lam e - ?A + ?lf" by (simp add: algebra_simps)
      moreover have "?c * d = Ub inp lam e + x - ?A" using last' a by simp
      moreover have "Lb inp lam e \<le> Ub inp lam e" using lam by (simp add: Ub_def Lb_def)
      ultimately show ?thesis using a lf by simp
    qed
    then show ?thesis using dpos by (rule mult_pos_cancel_le[rotated])
  qed
  have cross: "?lf \<le> ?c"
  proof (cases "?c \<le> ?lf")
    case False
    then show ?thesis by simp
  next
    case True
    then have "?jl = ?js" using ex jsl by simp
    then show ?thesis by (rule single)
  qed
  have fc: "f = ?c"
  proof (cases "f = ?c")
    case False
    then have ge: "?g = e" and fv: "f = ?lf + 2 * lam" using f by auto
    have eq: "?jl = ?js"
    proof (rule ccontr)
      assume "?jl \<noteq> ?js"
      then have lt: "?js < ?jl" using jsl by simp
      show False using low_env_seg(2,3)[OF lenv blg lt] ge elE by simp
    qed
    note sg = low_env_single[OF lenv blg eq]
    have "el = Suc e" using sg(3) ge elE by simp
    then have "?A + ?lf = Lb inp lam ?E" using sg(1,2) ge by simp
    moreover have "?A + ?c = Ub inp lam ?E" using last ge by simp
    ultimately show ?thesis using fv by (simp add: Ub_def Lb_def)
  qed simp
  have jslen: "?js < length (indstart_up s')" using jsl En b by (simp add: bufs_def)
  have sel: "jseg s2 = jseg s'" "j_up s2 = jseg s'" "indjseg s2 = indjseg s'"
    "output_up_first s2 = ?c" "output_up_curr s2 = ?c" "output_low_first s2 = ?lf"
    "output_buf s2 = output_buf s'" "j_low s2 = j_low s'" "indstart_low s2 = indstart_low s'"
    "output_low_curr s2 = output_low_curr s'"
    by (simp_all add: s2 fc)
  have xo2: "xo s2 = xo s'" by (simp add: xo_def sel fun_eq_iff)
  have xs2: "xsum s2 = xsum s'" by (simp add: xsum_def xo2 fun_eq_iff)
  have bu2: "bu s2 ?js = ?g" using jslen by (simp add: bu_def s2)
  have up2: "up_env inp lam ?E s2"
  proof -
    have "env (Ub inp lam) ?A ?js ?js (bu s2) (slu s2) ?c ?E"
      by (rule env_single) (use bu2 gE below last in simp_all)
    moreover have "slu s2 ?js = ?c" by (simp add: slu_def sel)
    ultimately show ?thesis by (simp add: up_env_def sel xs2)
  qed
  have low2: "low_env inp lam el s2"
    by (rule low_env_frame[OF lenv]) (simp_all add: sel xo2)
  have disj2: "disj s2" by (simp add: disj_def sel)
  have K2: "Kpre inp lam s2"
    unfolding Kpre_def sel xo2 xs2 using k1 k2 anc by blast
  have "max el ?E - 1 = e" using elE by simp
  then show ?thesis
    unfolding Inv_def using sv len lam up2 low2 disj2 K2 cross by (simp add: sel)
qed

lemma seg_ok_bl_gt:
  assumes ok: "seg_ok m (indstart_low s) out (jseg s) (indjseg s) (j_low s)"
    and j: "unat (jseg s) < j" "j \<le> unat (j_low s)"
  shows "unat (indjseg s) < bl s j"
  using seg_ok_bu_gt[of m "mirror s" out j] ok j by simp

lemma Inv_parts:
  assumes "Inv n inp lam el eu s"
  shows "sinv n (max el eu - 1) s" "length inp = unat n" "0 < lam" "up_env inp lam eu s"
    "low_env inp lam el s" "disj s" "output_low_first s \<le> output_up_first s" "Kpre inp lam s"
  using assms by (simp_all add: Inv_def)

text \<open>Entering the loop of lines 35-41: the upper envelope has shrunk to one segment.\<close>

lemma CL_init:
  assumes inv: "Inv n inp lam el e s" and el: "el = e \<or> el = Suc e" and sv0: "sinv n e s"
    and s1: "s1 = s\<lparr>output_buf := (output_buf s)[unat (indjseg s) := Some (output_up_first s)],
                  output_up_curr := c, j_up := j\<rparr>"
    and env: "env (Ub inp lam) (xsum s (unat (indjseg s))) (unat (jseg s)) (unat (jseg s)) (bu s) (slu s) c (Suc e)"
    and top: "c \<le> output_up_first s"
    and sv: "sinv n e s1"
  shows "CL n inp lam el (Suc e) s1"
proof -
  let ?g = "unat (indjseg s)" and ?js = "unat (jseg s)"
  let ?A = "xsum s ?g" and ?lf = "output_low_first s" and ?uf = "output_up_first s"
  note p = Inv_parts[OF inv]
  have low0: "low_ok e s" and up0: "up_ok e s" using sv0 by (simp_all add: sinv_def)
  have bug: "bu s ?js = ?g" using up0 by (rule up_ok_bu_first)
  have blg: "bl s ?js = ?g" using low0 by (rule low_ok_bl_first)
  have ge: "?g \<le> e" using sinv_idx[OF sv0] .
  have sel: "jseg s1 = jseg s" "indjseg s1 = indjseg s" "output_low_first s1 = ?lf"
    "output_up_curr s1 = c" "j_low s1 = j_low s" "indstart_low s1 = indstart_low s"
    "output_low_curr s1 = output_low_curr s" "output_up_first s1 = ?uf"
    by (simp_all add: s1)
  have xo1: "xo s1 t = xo s t" if "t \<noteq> ?g" for t
    using that by (simp add: xo_def s1 cell_update)
  have xs1: "xsum s1 k = xsum s k" if "k \<le> ?g" for k
    by (rule xsum_cong) (use that in \<open>simp add: xo1\<close>)
  have lenv1: "low_env inp lam el s1"
  proof (rule low_env_frame[OF p(5)])
    show "xo s1 (bl s j) = xo s (bl s j)" if "unat (jseg s) < j" "j \<le> unat (j_low s)" for j
      using seg_ok_bl_gt[OF low0[unfolded low_ok_def] that] by (simp add: xo1)
  qed (simp_all add: sel xo1)
  have last: "?A + c * real (Suc e - ?g) = Ub inp lam (Suc e)"
    using env_last[OF env] bug by (simp add: epos_def)
  have below: "?A + c * real (k - ?g) \<le> Ub inp lam k" if "?g < k" "k \<le> Suc e" for k
    using env_last_below[OF env, of k] that bug by (simp add: epos_def)
  have tg: "?A + ?lf * real (k - ?g) \<le> Ub inp lam k" if "?g < k" "k < Suc e" for k
  proof -
    have "?lf * real (k - ?g) \<le> ?uf * real (k - ?g)" using p(7) by (intro mult_right_mono) simp_all
    moreover have "?A + ?uf * real (k - ?g) \<le> Ub inp lam k"
      using up_env_first_line[OF p(4) bug that(1)] that(2) by simp
    ultimately show ?thesis by linarith
  qed
  have k1: "\<bar>xsum s1 k - ysum inp k\<bar> \<le> lam" if "0 < k" "k \<le> ?g" for k
    using p(8) that xs1[of k] by (simp add: Kpre_def)
  have k2: "(xo s1 (k - 1) < xo s1 k \<longrightarrow> xsum s1 k - ysum inp k = lam) \<and>
        (xo s1 k < xo s1 (k - 1) \<longrightarrow> xsum s1 k - ysum inp k = - lam)" if "0 < k" "k < ?g" for k
  proof -
    have "k - 1 \<noteq> ?g" "k \<noteq> ?g" using that by linarith+
    then have "xo s1 (k - 1) = xo s (k - 1)" "xo s1 k = xo s k" by (simp_all add: xo1)
    then show ?thesis using p(8) that xs1[of k] by (simp add: Kpre_def)
  qed
  have anc: "?g = 0 \<or> (xsum s1 ?g - ysum inp ?g = lam \<and> xo s1 (?g - 1) \<le> ?lf) \<or>
       (xsum s1 ?g - ysum inp ?g = - lam \<and> ?lf \<le> xo s1 (?g - 1) \<and> c \<le> xo s1 (?g - 1))"
  proof (cases "?g = 0")
    case False
    then have "?g - 1 \<noteq> ?g" by linarith
    then have x: "xo s1 (?g - 1) = xo s (?g - 1)" by (simp add: xo1)
    have "(?A - ysum inp ?g = lam \<and> xo s (?g - 1) \<le> ?lf) \<or>
        (?A - ysum inp ?g = - lam \<and> ?uf \<le> xo s (?g - 1))"
      using p(8) False by (simp add: Kpre_def)
    then show ?thesis using x xs1[of ?g] p(7) top by auto
  qed simp
  have st: "bufs n s1" "low_ok e s1" "filled s1" "e < unat n" using sv by (simp_all add: sinv_def)
  have elE: "el \<le> Suc e" using el by auto
  show ?thesis
    unfolding CL_def sel diff_Suc_1
    using st elE lenv1 ge last below tg k1 k2 anc xs1[of ?g] by auto
qed

text \<open>Lines 44 and 80: the upper envelope keeps several segments and the last slope is stored.\<close>

lemma up_store_inv:
  assumes inv: "Inv n inp lam el e s" and el: "el = e \<or> el = Suc e" and sv0: "sinv n e s"
    and s1: "s1 = s\<lparr>output_buf := (output_buf s)[unat (indjseg s) := Some (output_up_first s)],
                  output_up_curr := c, j_up := j\<rparr>"
    and j: "unat (jseg s) < unat j" "unat j \<le> unat (j_up s)"
    and env: "env (Ub inp lam) (xsum s (unat (indjseg s))) (unat (jseg s)) (unat j) (bu s) (slu s) c (Suc e)"
    and strict: "slu s (unat j - 1) < c"
    and s2: "s2 = s1\<lparr>output_buf := (output_buf s1)[bu s (unat j) := Some c]\<rparr>"
    and sv: "sinv n e s2"
  shows "Inv n inp lam el (Suc e) s2"
proof -
  let ?g = "unat (indjseg s)" and ?js = "unat (jseg s)" and ?ju = "unat (j_up s)"
  let ?p = "bu s (unat j)"
  note p = Inv_parts[OF inv]
  have low0: "low_ok e s" and up0: "up_ok e s" and b0: "bufs n s" and en: "e < unat n"
    using sv0 by (simp_all add: sinv_def)
  have pg: "?g < ?p" using seg_ok_bu_gt[OF up0[unfolded up_ok_def] j] .
  have pe: "?p < Suc e" using env_end[OF env] .
  have plen: "?p < length (output_buf s)" using pe en b0 by (simp add: bufs_def)
  have sel: "jseg s2 = jseg s" "indjseg s2 = indjseg s" "output_low_first s2 = output_low_first s"
    "output_up_curr s2 = c" "j_low s2 = j_low s" "indstart_low s2 = indstart_low s"
    "output_low_curr s2 = output_low_curr s" "output_up_first s2 = output_up_first s"
    "j_up s2 = j" "indstart_up s2 = indstart_up s"
    by (simp_all add: s2 s1)
  have xo2: "xo s2 t = xo s t" if "t \<noteq> ?g" "t \<noteq> ?p" for t
    using that by (simp add: xo_def s2 s1 cell_update)
  have xop: "xo s2 ?p = c" using plen by (simp add: xo_def s2 s1 cell_update)
  have xs2: "xsum s2 k = xsum s k" if "k \<le> ?g" for k
    by (rule xsum_cong) (use that pg in \<open>simp add: xo2\<close>)
  have bu2: "bu s2 = bu s" by (simp add: bu_def sel fun_eq_iff)
  have bl2: "bl s2 = bl s" by (simp add: bl_def sel fun_eq_iff)
  have mono: "bu s j' < ?p" if "?js \<le> j'" "j' < unat j" for j'
    using env_b_mono[OF env that order_refl] .
  have sl2: "slu s2 j' = slu s j'" if "?js \<le> j'" "j' < unat j" for j'
  proof (cases "j' = ?js")
    case True
    then show ?thesis by (simp add: slu_def sel)
  next
    case False
    then have "?g < bu s j'" using seg_ok_bu_gt[OF up0[unfolded up_ok_def], of j'] that j by simp
    then show ?thesis using False mono[OF that] by (simp add: slu_def sel bu2 xo2)
  qed
  have up2: "up_env inp lam (Suc e) s2"
  proof -
    have "env (Ub inp lam) (xsum s ?g) ?js (unat j) (bu s2) (slu s2) c (Suc e)"
      by (rule env_cong[OF _ _ env]) (simp_all add: bu2 sl2)
    moreover have "slu s2 (unat j - 1) < c" using strict sl2[of "unat j - 1"] j by simp
    moreover have "slu s2 (unat j) = c" using j xop by (simp add: slu_def sel bu2)
    ultimately show ?thesis by (simp add: up_env_def sel xs2)
  qed
  have low2: "low_env inp lam el s2"
  proof (rule low_env_frame[OF p(5)])
    show "xo s2 (bl s j') = xo s (bl s j')" if "unat (jseg s) < j'" "j' \<le> unat (j_low s)" for j'
    proof -
      have "?g < bl s j'" using seg_ok_bl_gt[OF low0[unfolded low_ok_def] that] .
      moreover have "bl s j' \<noteq> ?p" using p(6) that j unfolding disj_def by metis
      ultimately show ?thesis by (simp add: xo2)
    qed
    show "xo s2 t = xo s t" if "t < unat (indjseg s)" for t using that pg by (simp add: xo2)
  qed (simp_all add: sel)
  have disj2: "disj s2" using p(6) j by (auto simp: disj_def sel bu2 bl2)
  have K2: "Kpre inp lam s2"
  proof -
    have a: "xo s2 (k - 1) = xo s (k - 1)" "xo s2 k = xo s k" if "k < ?g" for k
    proof -
      have "k - 1 \<noteq> ?g" "k - 1 \<noteq> ?p" "k \<noteq> ?g" "k \<noteq> ?p" using that pg by linarith+
      then show "xo s2 (k - 1) = xo s (k - 1)" "xo s2 k = xo s k" by (simp_all add: xo2)
    qed
    have c: "xo s2 (?g - 1) = xo s (?g - 1)" if "?g \<noteq> 0"
    proof -
      have "?g - 1 \<noteq> ?g" "?g - 1 \<noteq> ?p" using that pg by linarith+
      then show ?thesis by (simp add: xo2)
    qed
    show ?thesis
      using p(8) unfolding Kpre_def sel
      by (auto simp: xs2 a c)
  qed
  have "max el (Suc e) - 1 = e" using el by auto
  then show ?thesis
    unfolding Inv_def using sv p(2,3,7) up2 low2 disj2 K2 by (simp add: sel)
qed

lemma upd_order:
  "s\<lparr>output_up_first := f, j_up := j, indstart_up := a\<rparr>
   = s\<lparr>j_up := j, indstart_up := a, output_up_first := f\<rparr>"
  by simp

lemma Inr_unique: "m = Inr a \<Longrightarrow> m = Inr b \<Longrightarrow> a = b"
  by simp

text \<open>Lines 29-44 (the sample is below the upper envelope) and lines 64-80.\<close>

lemma up_block:
  assumes inv: "Inv n inp lam el e s" and e: "e = unat i" and i: "i < n"
    and el: "el = e \<or> el = Suc e"
    and x: "x = inp ! e" "x \<le> output_up_curr s" and lowx: "el = Suc e \<or> output_low_curr s \<le> x"
    and r1: "up_absorb n i x s = Inr s1"
    and r2: "up_close_below n lam i s1 = Inr s2 \<or> up_close_mid n i s1 = Inr s2"
  shows "Inv n inp lam el (Suc e) s2 \<and> output_low_curr s2 = output_low_curr s"
proof -
  let ?g = "unat (indjseg s)" and ?js = "unat (jseg s)"
  note p = Inv_parts[OF inv]
  have en: "e < unat n" using i e by (simp add: word_less_nat_alt)
  have sv0: "sinv n (unat i) s" using sinv_weaken[OF p(1), of e] el en e by auto
  obtain t where t: "up_absorb n i x s = Inr t" "sinv n (unat i) t"
    using up_absorb_ok[OF sv0 i] by blast
  have sv1: "sinv n (unat i) s1" using t r1 by simp
  have sv2: "sinv n (unat i) s2"
  proof -
    obtain u where "up_close_below n lam i s1 = Inr u" "sinv n (unat i) u"
      using up_close_below_ok[OF sv1 i] by blast
    moreover obtain w where "up_close_mid n i s1 = Inr w" "sinv n (unat i) w"
      using up_close_mid_ok[OF sv1 i] by blast
    ultimately show ?thesis using r2 by auto
  qed
  obtain c j where s1: "s1 = s\<lparr>output_buf := (output_buf s)[?g := Some (output_up_first s)],
                      output_up_curr := c, j_up := j\<rparr>"
    and j: "?js \<le> unat j" "unat j \<le> unat (j_up s)"
    and env: "env (Ub inp lam) (xsum s ?g) ?js (unat j) (bu s) (slu s) c (Suc (unat i))"
    and strict: "?js < unat j \<longrightarrow> slu s (unat j - 1) < c" and top: "c \<le> slu s (unat j)"
    using up_absorb_env[OF r1 sv0 i p(2) p(4)[unfolded e] x(1)[unfolded e] x(2)] by blast
  have sel1: "j_up s1 = j" "jseg s1 = jseg s" "output_up_curr s1 = c" "indstart_up s1 = indstart_up s"
    by (simp_all add: s1)
  show ?thesis
  proof (cases "j_up s1 = jseg s1")
    case False
    then have jlt: "?js < unat j" using j by (simp add: sel1 word_unat_eq_iff)
    from r2 False have st: "store_up n s1 = Inr s2"
      by (auto simp: up_close_below_def up_close_mid_def)
    then obtain k out where k: "rd n (indstart_up s1) (j_up s1) = Inr k"
      and w: "wr n (output_buf s1) k (output_up_curr s1) = Inr out" and s2: "s2 = s1\<lparr>output_buf := out\<rparr>"
      unfolding store_up_def by (auto dest!: ebind_InrD)
    have "unat k = bu s (unat j)" using rd_InrD[OF k] by (simp add: bu_def sel1)
    then have s2': "s2 = s1\<lparr>output_buf := (output_buf s1)[bu s (unat j) := Some c]\<rparr>"
      using wr_InrD[OF w] s2 by (simp add: sel1)
    have "output_low_curr s2 = output_low_curr s" by (simp add: s2' s1)
    then show ?thesis
      using up_store_inv[OF inv el sv0[folded e] s1 jlt j(2) env[folded e] _ s2' sv2[folded e]] strict jlt
      by simp
  next
    case True
    then have jeq: "unat j = ?js" by (simp add: sel1)
    have cl1: "CL n inp lam el (Suc e) s1"
      using CL_init[OF inv el sv0[folded e] s1 _ _ sv1[folded e]] env top jeq e
      by (simp add: slu_def)
    have "\<exists>s' a f. commit_low n i s1 = Inr s' \<and>
        wr n (indstart_up s') (jseg s') (indjseg s') = Inr a \<and>
        s2 = s'\<lparr>j_up := jseg s', indstart_up := a, output_up_first := f\<rparr> \<and>
        (f = output_up_curr s' \<or> (indjseg s' = i \<and> f = output_low_first s' + 2 * lam))"
      using r2
    proof
      assume "up_close_below n lam i s1 = Inr s2"
      then show ?thesis using True unfolding up_close_below_def
        by (auto dest!: ebind_InrD split: if_splits)
    next
      assume "up_close_mid n i s1 = Inr s2"
      then obtain s' a where "commit_low n i s1 = Inr s'"
        "wr n (indstart_up s') (jseg s') (indjseg s') = Inr a"
        "s2 = s'\<lparr>output_up_first := output_up_curr s', j_up := jseg s', indstart_up := a\<rparr>"
        using True unfolding up_close_mid_def by (auto dest!: ebind_InrD)
      then show ?thesis unfolding upd_order by blast
    qed
    then obtain s' a f where c': "commit_low n i s1 = Inr s'"
      and w: "wr n (indstart_up s') (jseg s') (indjseg s') = Inr a"
      and s2: "s2 = s'\<lparr>j_up := jseg s', indstart_up := a, output_up_first := f\<rparr>"
      and f: "f = output_up_curr s' \<or> (indjseg s' = i \<and> f = output_low_first s' + 2 * lam)"
      by blast
    note post = commit_low_CL[OF c' cl1[unfolded e] i, folded e]
    have a: "a = (indstart_up s')[unat (jseg s') := Some (indjseg s')]" using wr_InrD[OF w] by simp
    have lc: "output_low_curr s' = output_low_curr s" using post by (simp add: s1)
    have lowx': "el = Suc e \<or> (el = e \<and> output_low_curr s' \<le> x \<and> Ub inp lam (Suc e) = Ub inp lam e + x)"
      using lowx el lc Ub_Suc[of e inp lam] en p(2) x(1) by auto
    have f': "f = output_up_curr s' \<or> (unat (indjseg s') = e \<and> f = output_low_first s' + 2 * lam)"
      using f e by auto
    have cl': "CL n inp lam el (Suc e) s'" using post by blast
    have ex: "\<not> (output_up_curr s' \<le> output_low_first s' \<and> unat (jseg s') < unat (j_low s'))"
      using post by blast
    have "output_low_curr s2 = output_low_curr s" using lc by (simp add: s2)
    then show ?thesis
      using CL_exit[OF cl' ex lowx' s2[unfolded a] f' sv2[folded e] p(2,3)] by simp
  qed
qed

lemma nth_map_uminus: "e < length inp \<Longrightarrow> map uminus inp ! e = - (inp ! e :: real)"
  by simp

text \<open>Lines 47-62, by symmetry.\<close>

lemma low_block:
  assumes inv: "Inv n inp lam e eu s" and e: "e = unat i" and i: "i < n"
    and eu: "eu = e \<or> eu = Suc e"
    and x: "x = inp ! e" "output_low_curr s \<le> x" and upx: "eu = Suc e \<or> x \<le> output_up_curr s"
    and r1: "low_absorb n i x s = Inr s1"
    and r2: "low_close n lam i s1 = Inr s2"
  shows "Inv n inp lam (Suc e) eu s2 \<and> output_up_curr s2 = output_up_curr s"
proof -
  have len: "length inp = unat n" using inv by (simp add: Inv_def)
  have en: "e < length inp" using i e len by (simp add: word_less_nat_alt)
  have m1: "up_absorb n i (- x) (mirror s) = Inr (mirror s1)"
    using r1 by (simp add: low_absorb_mirror mres_Inr_iff)
  have m2: "up_close_below n lam i (mirror s1) = Inr (mirror s2) \<or>
            up_close_mid n i (mirror s1) = Inr (mirror s2)"
    using r2 by (simp add: low_close_mirror mres_Inr_iff)
  have minv: "Inv n (map uminus inp) lam eu e (mirror s)" using inv by (simp add: Inv_mirror)
  have "Inv n (map uminus inp) lam eu (Suc e) (mirror s2) \<and>
        output_low_curr (mirror s2) = output_low_curr (mirror s)"
    by (rule up_block[OF minv e i eu _ _ _ m1 m2]) (use x upx en in auto)
  then show ?thesis by (simp add: Inv_mirror)
qed

text \<open>The opening of a lower segment nested in line 64.\<close>

lemma push_low_inv:
  assumes inv: "Inv n inp lam e e s" and e: "e = unat i" and i: "0 < i" "i < n"
    and x: "inp ! e < output_low_curr s"
    and r: "push_low n inp i s = Inr s1"
  shows "Inv n inp lam (Suc e) e s1 \<and> output_up_curr s1 = output_up_curr s"
proof -
  let ?g = "unat (indjseg s)" and ?js = "unat (jseg s)" and ?jl = "unat (j_low s)"
  let ?x = "inp ! e"
  note p = Inv_parts[OF inv]
  have sv0: "sinv n (e - 1) s" using p(1) by simp
  have en: "e < unat n" and epos: "0 < e" using i e by (simp_all add: word_less_nat_alt)
  have low0: "low_ok (e - 1) s" and up0: "up_ok (e - 1) s" and b0: "bufs n s"
    using sv0 by (simp_all add: sinv_def)
  obtain t where "push_low n inp i s = Inr t" "sinv n (unat i) t"
    using push_low_ok[OF sv0[unfolded e] i, of inp] p(2) by auto
  then have sv1: "sinv n e s1" using r e by simp
  have jm: "?jl \<le> e - 1" using seg_ok_bounds[OF low0[unfolded low_ok_def]] by simp
  then have jlt: "j_low s < i" using epos e by (intro unat_less_word) simp
  have suc: "unat (j_low s + 1) = Suc ?jl" using unat_inc[OF jlt] by simp
  from r obtain a xx out where
    w1: "wr n (indstart_low s) (j_low s + 1) i = Inr a" and
    rx: "rd_in inp i = Inr xx" and w2: "wr n (output_buf s) i xx = Inr out" and
    s1: "s1 = s\<lparr>j_low := j_low s + 1, indstart_low := a, output_buf := out, output_low_curr := xx\<rparr>"
    unfolding push_low_def by (auto dest!: ebind_InrD)
  have a: "a = (indstart_low s)[Suc ?jl := Some i]" and alen: "Suc ?jl < length (indstart_low s)"
    using wr_InrD[OF w1] suc by simp_all
  have xx: "xx = ?x" using rd_in_InrD[OF rx] e by simp
  have out: "out = (output_buf s)[e := Some ?x]" and olen: "e < length (output_buf s)"
    using wr_InrD[OF w2] xx e by simp_all
  have sel: "jseg s1 = jseg s" "indjseg s1 = indjseg s" "output_low_first s1 = output_low_first s"
    "output_up_curr s1 = output_up_curr s" "j_low s1 = j_low s + 1" "indstart_low s1 = a"
    "output_low_curr s1 = ?x" "output_up_first s1 = output_up_first s"
    "j_up s1 = j_up s" "indstart_up s1 = indstart_up s" "output_buf s1 = out"
    by (simp_all add: s1 xx)
  have xo1: "xo s1 t = xo s t" if "t \<noteq> e" for t
    using that by (simp add: xo_def sel out cell_update)
  have xoe: "xo s1 e = ?x" using olen by (simp add: xo_def sel out cell_update)
  have ge: "?g \<le> e - 1" using sinv_idx[OF sv0] .
  have xs1: "xsum s1 k = xsum s k" if "k \<le> ?g" for k
    by (rule xsum_cong) (use that ge epos in \<open>simp add: xo1\<close>)
  have bl_old: "bl s1 j = bl s j" if "j \<le> ?jl" for j
    using that by (simp add: bl_def sel a)
  have bl_new: "bl s1 (Suc ?jl) = e" using alen by (simp add: bl_def sel a e)
  have bl_le: "bl s j \<le> e - 1" if "?js \<le> j" "j \<le> ?jl" for j
    using seg_ok_some[OF low0[unfolded low_ok_def] that] by (auto simp: bl_def)
  have bu_le: "bu s j \<le> e - 1" if "?js \<le> j" "j \<le> unat (j_up s)" for j
    using seg_ok_some[OF up0[unfolded up_ok_def] that] by (auto simp: bu_def)
  have bu1: "bu s1 = bu s" by (simp add: bu_def sel fun_eq_iff)
  have up1: "up_env inp lam e s1"
  proof (rule up_env_frame[OF p(4)])
    show "xo s1 (bu s j) = xo s (bu s j)" if "unat (jseg s) < j" "j \<le> unat (j_up s)" for j
      using bu_le[of j] that epos by (simp add: xo1)
    show "xo s1 t = xo s t" if "t < unat (indjseg s)" for t using that ge epos by (simp add: xo1)
  qed (simp_all add: sel)
  have low1: "low_env inp lam (Suc e) s1"
  proof -
    have old: "env (\<lambda>k. - Lb inp lam k) (- xsum s ?g) ?js ?jl (bl s) (\<lambda>j. - sll s j) (- output_low_curr s) e"
      and ostrict: "?js < ?jl \<longrightarrow> output_low_curr s < sll s (?jl - 1)"
      and otop: "sll s ?jl = output_low_curr s"
      using p(5) unfolding low_env_alt by blast+
    have stp: "- Lb inp lam (Suc e) = - Lb inp lam e + - ?x"
      using en p(2) by (simp add: Lb_def ysum_def)
    have pushed: "env (\<lambda>k. - Lb inp lam k) (- xsum s ?g) ?js (Suc ?jl) ((bl s)(Suc ?jl := e))
        (\<lambda>j. - sll s j) (- ?x) (Suc e)"
      by (rule env_push[OF old _ _ _ stp refl]) (use ostrict otop x in auto)
    have sl1: "sll s1 j = sll s j" if "?js \<le> j" "j \<le> ?jl" for j
    proof (cases "j = ?js")
      case True
      then show ?thesis by (simp add: sll_def sel)
    next
      case False
      have "bl s j \<noteq> e" using bl_le[OF that] epos by simp
      then show ?thesis using False bl_old[OF that(2)] by (simp add: sll_def sel xo1)
    qed
    have "env (\<lambda>k. - Lb inp lam k) (- xsum s ?g) ?js (Suc ?jl) (bl s1) (\<lambda>j. - sll s1 j) (- ?x) (Suc e)"
      by (rule env_cong[OF _ _ pushed]) (auto simp: bl_old bl_new sl1)
    moreover have "?x < sll s1 ?jl"
      using sl1[of ?jl] otop x seg_ok_bounds[OF low0[unfolded low_ok_def]] by simp
    moreover have "sll s1 (Suc ?jl) = ?x"
      using seg_ok_bounds[OF low0[unfolded low_ok_def]] by (simp add: sll_def sel bl_new xoe)
    ultimately show ?thesis unfolding low_env_alt by (simp add: sel suc xs1)
  qed
  have disj1: "disj s1"
    unfolding disj_def sel suc bu1
  proof (intro allI impI)
    fix j j' assume h: "?js < j \<and> j \<le> unat (j_up s) \<and> ?js < j' \<and> j' \<le> Suc ?jl"
    show "bu s j \<noteq> bl s1 j'"
    proof (cases "j' = Suc ?jl")
      case True
      then show ?thesis using bu_le[of j] h bl_new epos by simp
    next
      case False
      then have "j' \<le> ?jl" using h by simp
      then show ?thesis using p(6) h bl_old[of j'] unfolding disj_def by metis
    qed
  qed
  have K1: "Kpre inp lam s1"
  proof -
    have a: "xo s1 (k - 1) = xo s (k - 1)" "xo s1 k = xo s k" if "k < ?g" for k
    proof -
      have "k - 1 \<noteq> e" "k \<noteq> e" using that ge epos by linarith+
      then show "xo s1 (k - 1) = xo s (k - 1)" "xo s1 k = xo s k" by (simp_all add: xo1)
    qed
    have c: "xo s1 (?g - 1) = xo s (?g - 1)"
    proof -
      have "?g - 1 \<noteq> e" using ge epos by linarith
      then show ?thesis by (simp add: xo1)
    qed
    show ?thesis using p(8) unfolding Kpre_def sel by (auto simp: xs1 a c)
  qed
  have "max (Suc e) e - 1 = e" by simp
  then show ?thesis
    unfolding Inv_def using sv1 p(2,3,7) up1 low1 disj1 K1 by (simp add: sel)
qed

text \<open>Line 46, by symmetry.\<close>

lemma push_up_inv:
  assumes inv: "Inv n inp lam e e s" and e: "e = unat i" and i: "0 < i" "i < n"
    and x: "output_up_curr s < inp ! e"
    and r: "push_up n inp i s = Inr s1"
  shows "Inv n inp lam e (Suc e) s1 \<and> output_low_curr s1 = output_low_curr s"
proof -
  have len: "length inp = unat n" using inv by (simp add: Inv_def)
  have en: "e < length inp" using i e len by (simp add: word_less_nat_alt)
  have m: "push_low n (map uminus inp) i (mirror s) = Inr (mirror s1)"
    using r by (simp add: push_up_mirror mres_Inr_iff)
  have minv: "Inv n (map uminus inp) lam e e (mirror s)" using inv by (simp add: Inv_mirror)
  have "Inv n (map uminus inp) lam (Suc e) e (mirror s1) \<and>
        output_up_curr (mirror s1) = output_up_curr (mirror s)"
    by (rule push_low_inv[OF minv e i _ m]) (use x en in simp)
  then show ?thesis by (simp add: Inv_mirror)
qed

text \<open>At the head of the loop the last lower slope is at most the last upper slope.\<close>

lemma cross_half:
  assumes inv: "Inv n inp lam e e s" and lt: "bl s (unat (j_low s)) < bu s (unat (j_up s))"
  shows "output_low_curr s \<le> output_up_curr s"
proof -
  let ?g = "unat (indjseg s)" and ?js = "unat (jseg s)" and ?jl = "unat (j_low s)" and ?ju = "unat (j_up s)"
  let ?bL = "bl s ?jl" and ?bU = "bu s ?ju"
  let ?lc = "output_low_curr s" and ?uc = "output_up_curr s"
  note p = Inv_parts[OF inv]
  have sv: "sinv n (e - 1) s" using p(1) by simp
  then have low0: "low_ok (e - 1) s" and up0: "up_ok (e - 1) s" by (simp_all add: sinv_def)
  have eU: "env (Ub inp lam) (xsum s ?g) ?js ?ju (bu s) (slu s) ?uc e"
    using p(4) by (simp add: up_env_def)
  have eL: "env (\<lambda>k. - Lb inp lam k) (- xsum s ?g) ?js ?jl (bl s) (\<lambda>j. - sll s j) (- ?lc) e"
    using p(5) unfolding low_env_alt by blast
  have bug: "bu s ?js = ?g" using up0 by (rule up_ok_bu_first)
  have blg: "bl s ?js = ?g" using low0 by (rule low_ok_bl_first)
  have gL: "?g \<le> ?bL"
    using env_b_mono[OF eL order_refl, of ?jl] env_le[OF eL] blg by (cases "?js = ?jl") auto
  have ju: "?ju \<noteq> ?js" using lt gL bug by auto
  have bUe: "?bU < e" using env_end[OF eU] .
  have upl: "Ub inp lam ?bU + ?uc * real (e - ?bU) = Ub inp lam e"
    using env_last[OF eU] ju by (simp add: epos_def)
  define P where "P = epos (\<lambda>k. - Lb inp lam k) (- xsum s ?g) ?js (bl s) ?jl"
  have l1: "P + (- ?lc) * real (?bU - ?bL) \<le> - Lb inp lam ?bU"
    unfolding P_def using env_last_below[OF eL lt] bUe by simp
  have l2: "P + (- ?lc) * real (e - ?bL) = - Lb inp lam e"
    unfolding P_def using env_last[OF eL] by simp
  define d where "d = real (e - ?bU)"
  have dpos: "0 < d" unfolding d_def using bUe by (simp only: of_nat_0_less_iff zero_less_diff)
  have split: "real (e - ?bL) = real (?bU - ?bL) + d" unfolding d_def using lt bUe by simp
  have "?lc * d \<le> Lb inp lam e - Lb inp lam ?bU"
    using l1 l2 unfolding split by (simp add: algebra_simps)
  moreover have "?uc * d = Ub inp lam e - Ub inp lam ?bU" using upl unfolding d_def by simp
  ultimately have "?lc * d \<le> ?uc * d" by (simp add: Ub_def Lb_def)
  then show ?thesis using dpos by (rule mult_pos_cancel_le[rotated])
qed

lemma cross_curr:
  assumes inv: "Inv n inp lam e e s"
  shows "output_low_curr s \<le> output_up_curr s"
proof -
  let ?g = "unat (indjseg s)" and ?js = "unat (jseg s)" and ?jl = "unat (j_low s)" and ?ju = "unat (j_up s)"
  let ?bL = "bl s ?jl" and ?bU = "bu s ?ju"
  consider (a) "?bL < ?bU" | (b) "?bU < ?bL" | (c) "?bL = ?bU" by linarith
  then show ?thesis
  proof cases
    case a
    then show ?thesis by (rule cross_half[OF inv])
  next
    case b
    have "output_low_curr (mirror s) \<le> output_up_curr (mirror s)"
      by (rule cross_half[of n "map uminus inp" lam e]) (use inv b in \<open>simp_all add: Inv_mirror\<close>)
    then show ?thesis by simp
  next
    case c
    note p = Inv_parts[OF inv]
    have sv: "sinv n (e - 1) s" using p(1) by simp
    then have low0: "low_ok (e - 1) s" and up0: "up_ok (e - 1) s" by (simp_all add: sinv_def)
    have bug: "bu s ?js = ?g" using up0 by (rule up_ok_bu_first)
    have blg: "bl s ?js = ?g" using low0 by (rule low_ok_bl_first)
    have jl: "?js \<le> ?jl" and ju: "?js \<le> ?ju"
      using seg_ok_bounds[OF low0[unfolded low_ok_def]] seg_ok_bounds[OF up0[unfolded up_ok_def]] by auto
    have "?jl = ?js \<and> ?ju = ?js"
    proof (cases "?js < ?jl")
      case True
      note gl = seg_ok_bl_gt[OF low0[unfolded low_ok_def] True order_refl]
      show ?thesis
      proof (cases "?js < ?ju")
        case t2: True
        then show ?thesis using p(6) True c unfolding disj_def by (metis order_refl)
      next
        case False
        then show ?thesis using gl c bug ju by simp
      qed
    next
      case False
      then have eq: "?jl = ?js" using jl by simp
      show ?thesis
      proof (cases "?js < ?ju")
        case True
        then show ?thesis using seg_ok_bu_gt[OF up0[unfolded up_ok_def] True order_refl] c eq blg by simp
      next
        case False
        then show ?thesis using eq ju by simp
      qed
    qed
    then have eqs: "?jl = ?js" "?ju = ?js" by simp_all
    note u = up_env_single[OF p(4) bug eqs(2)]
    note l = low_env_single[OF p(5) blg eqs(1)]
    define d where "d = real (e - ?g)"
    have dpos: "0 < d" unfolding d_def using u(3) by (simp only: of_nat_0_less_iff zero_less_diff)
    have "output_low_curr s * d \<le> output_up_curr s * d"
      using u(2) l(2) p(3) unfolding d_def[symmetric] Ub_def Lb_def by linarith
    then show ?thesis using dpos by (rule mult_pos_cancel_le[rotated])
  qed
qed

text \<open>One round of the main loop (lines 27-81).\<close>

lemma step_inv:
  assumes inv: "Inv n inp lam e e s" and e: "e = unat i" and i: "0 < i" "i < n"
    and r: "step n inp lam i s = Inr s'"
  shows "Inv n inp lam (Suc e) (Suc e) s'"
proof -
  let ?x = "inp ! e"
  have len: "length inp = unat n" using inv by (simp add: Inv_def)
  have en: "e < length inp" using i e len by (simp add: word_less_nat_alt)
  have rx: "rd_in inp i = Inr ?x" using en e by (simp add: rd_in_def)
  show ?thesis
  proof (cases "?x \<ge> output_low_curr s")
    case False
    then obtain s1 s2 where 1: "push_low n inp i s = Inr s1" and 2: "up_absorb n i ?x s1 = Inr s2"
      and 3: "up_close_below n lam i s2 = Inr s'"
      using r rx unfolding step_def by (auto dest!: ebind_InrD)
    have i1: "Inv n inp lam (Suc e) e s1" and uc: "output_up_curr s1 = output_up_curr s"
      using push_low_inv[OF inv e i _ 1] False by simp_all
    have "?x \<le> output_up_curr s1" using cross_curr[OF inv] False uc by simp
    then show ?thesis using up_block[OF i1 e i(2) _ refl _ _ 2] 3 by simp
  next
    case True
    then obtain s1 s2 where
      1: "(if ?x \<le> output_up_curr s then ebind (up_absorb n i ?x s) (up_close_mid n i)
           else push_up n inp i s) = Inr s1"
      and 2: "low_absorb n i ?x s1 = Inr s2" and 3: "low_close n lam i s2 = Inr s'"
      using r rx unfolding step_def by (auto dest!: ebind_InrD)
    have "Inv n inp lam e (Suc e) s1 \<and> output_low_curr s1 = output_low_curr s"
    proof (cases "?x \<le> output_up_curr s")
      case t: True
      then obtain t1 where a: "up_absorb n i ?x s = Inr t1" and b: "up_close_mid n i t1 = Inr s1"
        using 1 by (auto dest!: ebind_InrD)
      show ?thesis using up_block[OF inv e i(2) _ refl t _ a] b True by simp
    next
      case False
      then show ?thesis using push_up_inv[OF inv e i _ _] 1 by simp
    qed
    then show ?thesis using low_block[OF _ e i(2) _ refl _ _ 2 3] True by simp
  qed
qed

lemma main_loop_inv:
  "main_loop n inp lam width i s = Inr (i', s') \<Longrightarrow> Inv n inp lam (unat i) (unat i) s \<Longrightarrow>
   0 < i \<Longrightarrow> i \<le> width \<Longrightarrow> width < n \<Longrightarrow>
   i' = width \<and> Inv n inp lam (unat width) (unat width) s'"
proof (induction n inp lam width i s rule: main_loop.induct)
  case (1 n inp lam width i s)
  show ?case
  proof (cases "i < width")
    case False
    then have "i = width" using 1 by simp
    then show ?thesis using "1.prems" by (subst (asm) main_loop.simps) simp
  next
    case True
    have i_n: "i < n" using True 1 by simp
    from "1.prems"(1) True obtain s1 where s1: "step n inp lam i s = Inr s1"
      and rec: "main_loop n inp lam width (i + 1) s1 = Inr (i', s')"
      by (subst (asm) main_loop.simps) (auto dest!: ebind_InrD)
    have suc: "unat (i + 1) = Suc (unat i)" using unat_inc[OF True] by simp
    have le: "i + 1 \<le> width" using True suc by (simp add: word_le_nat_alt word_less_nat_alt)
    have pos: "0 < i + 1" using suc by (simp add: word_less_nat_alt)
    have "Inv n inp lam (unat (i + 1)) (unat (i + 1)) s1"
      using step_inv[OF "1.prems"(2) refl "1.prems"(3) i_n s1] suc by simp
    then show ?thesis using "1.IH"[OF True s1 rec _ pos le "1.prems"(5)] by simp
  qed
qed

section \<open>The closing step and the result\<close>

text \<open>
  \<open>FL\<close> is the invariant of the flushing loops of the closing step, \<open>Kfin\<close> the optimality
  condition on the cells of the final state.
\<close>

lemma env_cong_U:
  assumes U: "\<And>k. k \<le> e \<Longrightarrow> U' k = U k" and env: "env U A js ju b sl c e"
  shows "env U' A js ju b sl c e"
proof -
  have be: "b j \<le> e" if "js \<le> j" "j \<le> ju" for j
    using env_b_mono[OF env that(1) _ order_refl] env_end[OF env] that by (cases "j = ju") auto
  have ep: "epos U' A js b j = epos U A js b j" if "js \<le> j" "j \<le> ju" for j
    using U[OF be[OF that]] by (simp add: epos_def)
  show ?thesis
  proof (rule envI)
    show "js \<le> ju" using env by (rule env_le)
    show "b ju < e" using env by (rule env_end)
    show "\<And>j. js \<le> j \<Longrightarrow> j < ju \<Longrightarrow> b j < b (Suc j)" using env by (rule env_mono)
    show "\<And>j. js \<le> j \<Longrightarrow> Suc j < ju \<Longrightarrow> sl j < sl (Suc j)" using env by (rule env_incr)
    show "epos U' A js b j + sl j * real (k - b j) \<le> U' k"
      if "js \<le> j" "j < ju" "b j < k" "k \<le> b (Suc j)" for j k
    proof -
      have "k \<le> e" using that be[of "Suc j"] by simp
      then show ?thesis using env_below[OF env that] ep[of j] U[of k] that by simp
    qed
    show "epos U' A js b j + sl j * real (b (Suc j) - b j) = U' (b (Suc j))"
      if "js \<le> j" "j < ju" for j
      using env_touch[OF env that] ep[of j] U[OF be[of "Suc j"]] that by simp
    show "epos U' A js b ju + c * real (k - b ju) \<le> U' k" if "b ju < k" "k \<le> e" for k
      using env_last_below[OF env that] ep[of ju] U[of k] that env_le[OF env] by simp
    show "epos U' A js b ju + c * real (e - b ju) = U' e"
      using env_last[OF env] ep[of ju] U[of e] env_le[OF env] by simp
  qed
qed

lemma ysum_update: "k \<le> N \<Longrightarrow> ysum (inp[N := v]) k = ysum inp k"
  unfolding ysum_def by (intro sum.cong refl) simp

lemma ysum_Suc: "N < length inp \<Longrightarrow> ysum inp (Suc N) = ysum inp N + inp ! N"
  by (simp add: ysum_def)

lemma up_env_update_inp:
  assumes "up_env inp lam N s"
  shows "up_env (inp[N := v]) lam N s"
  using assms unfolding up_env_def
  by (auto intro!: env_cong_U[of N _ "Ub inp lam"] simp: Ub_def ysum_update)

text \<open>The flushing loop of lines 85-89 and 124-128.\<close>

definition fsl :: "st \<Rightarrow> real" where
  "fsl s = (if unat (jseg s) = unat (j_low s) then output_low_curr s else output_low_first s)"

definition FL :: "u32 \<Rightarrow> real list \<Rightarrow> real \<Rightarrow> (nat \<Rightarrow> real) \<Rightarrow> nat \<Rightarrow> nat \<Rightarrow> st \<Rightarrow> bool" where
  "FL n inp lam Lf N E s \<longleftrightarrow>
     bufs n s \<and> low_ok N s \<and> filled s \<and> N < unat n \<and> E \<le> Suc N \<and>
     (\<forall>k \<le> N. Lf k = Lb inp lam k) \<and>
     env (\<lambda>k. - Lf k) (- xsum s (unat (indjseg s))) (unat (jseg s)) (unat (j_low s)) (bl s)
       (\<lambda>j. - sll s j) (- output_low_curr s) E \<and>
     (unat (jseg s) < unat (j_low s) \<longrightarrow> output_low_curr s < sll s (unat (j_low s) - 1)) \<and>
     (\<forall>k. unat (indjseg s) < k \<and> k \<le> N \<longrightarrow>
        xsum s (unat (indjseg s)) + fsl s * real (k - unat (indjseg s)) \<le> Ub inp lam k) \<and>
     (\<forall>k. 0 < k \<and> k \<le> unat (indjseg s) \<longrightarrow> \<bar>xsum s k - ysum inp k\<bar> \<le> lam) \<and>
     (\<forall>k. 0 < k \<and> k < unat (indjseg s) \<longrightarrow>
        (xo s (k - 1) < xo s k \<longrightarrow> xsum s k - ysum inp k = lam) \<and>
        (xo s k < xo s (k - 1) \<longrightarrow> xsum s k - ysum inp k = - lam)) \<and>
     (unat (indjseg s) = 0 \<or>
      (xsum s (unat (indjseg s)) - ysum inp (unat (indjseg s)) = lam \<and>
         xo s (unat (indjseg s) - 1) \<le> fsl s) \<or>
      (xsum s (unat (indjseg s)) - ysum inp (unat (indjseg s)) = - lam \<and>
         fsl s \<le> xo s (unat (indjseg s) - 1)))"

lemma FL_step:
  assumes fl: "FL n inp lam Lf N E s"
    and cond: "unat (jseg s) < unat (j_low s)"
    and e1: "indstart_low s ! Suc (unat (jseg s)) = Some e1w"
    and len: "length out' = unat n"
    and cells: "\<forall>t < unat n. out' ! t =
        (if unat (indjseg s) \<le> t \<and> t < unat e1w then Some (output_low_first s) else output_buf s ! t)"
    and v: "out' ! unat e1w = Some v"
    and js1: "unat js1 = Suc (unat (jseg s))"
    and s1: "s1 = s\<lparr>jseg := js1, output_buf := out', indjseg := e1w, output_low_first := v\<rparr>"
    and st: "bufs n s1" "low_ok N s1" "filled s1"
  shows "FL n inp lam Lf N E s1 \<and>
    (\<forall>j. Suc (unat (jseg s)) \<le> j \<and> j \<le> unat (j_low s) \<longrightarrow> sll s1 j = sll s j)"
proof -
  let ?g = "unat (indjseg s)" and ?js = "unat (jseg s)" and ?jl = "unat (j_low s)"
  let ?A = "xsum s ?g" and ?lf = "output_low_first s" and ?c = "output_low_curr s"
  let ?e1 = "unat e1w"
  have b: "bufs n s" and low: "low_ok N s" and Nn: "N < unat n" and EN: "E \<le> Suc N"
    and Lf: "\<And>k. k \<le> N \<Longrightarrow> Lf k = Lb inp lam k"
    and old: "env (\<lambda>k. - Lf k) (- ?A) ?js ?jl (bl s) (\<lambda>j. - sll s j) (- ?c) E"
    and ostrict: "?js < ?jl \<longrightarrow> ?c < sll s (?jl - 1)"
    and tg: "\<And>k. ?g < k \<Longrightarrow> k \<le> N \<Longrightarrow> ?A + fsl s * real (k - ?g) \<le> Ub inp lam k"
    and k1: "\<And>k. 0 < k \<Longrightarrow> k \<le> ?g \<Longrightarrow> \<bar>xsum s k - ysum inp k\<bar> \<le> lam"
    and k2: "\<And>k. 0 < k \<Longrightarrow> k < ?g \<Longrightarrow>
        (xo s (k - 1) < xo s k \<longrightarrow> xsum s k - ysum inp k = lam) \<and>
        (xo s k < xo s (k - 1) \<longrightarrow> xsum s k - ysum inp k = - lam)"
    and anc: "?g = 0 \<or> (?A - ysum inp ?g = lam \<and> xo s (?g - 1) \<le> fsl s) \<or>
       (?A - ysum inp ?g = - lam \<and> fsl s \<le> xo s (?g - 1))"
    using fl unfolding FL_def by blast+
  have fs: "fsl s = ?lf" using cond by (simp add: fsl_def)
  have blg: "bl s ?js = ?g" using low by (rule low_ok_bl_first)
  have ble: "bl s (Suc ?js) = ?e1" using e1 by (simp add: bl_def)
  have ge1: "?g < ?e1" using env_mono[OF old order_refl cond] blg ble by simp
  have e1N: "?e1 \<le> N"
    using seg_ok_some[OF low[unfolded low_ok_def], of "Suc ?js"] e1 cond by auto
  have e1n: "?e1 < unat n" using e1N Nn by simp
  have touch: "?A + ?lf * real (?e1 - ?g) = Lb inp lam ?e1"
    using env_touch[OF old order_refl cond] blg ble Lf[OF e1N] by (simp add: epos_def sll_def)
  have above: "Lb inp lam k \<le> ?A + ?lf * real (k - ?g)" if "?g < k" "k \<le> ?e1" for k
  proof -
    have "k \<le> N" using that e1N by simp
    then show ?thesis
      using env_below[OF old order_refl cond, of k] that blg ble Lf[of k] by (simp add: epos_def sll_def)
  qed
  have xe1: "xo s ?e1 = v"
    using cells v e1n b by (simp add: xo_def cell_def bufs_def)
  have sel: "jseg s1 = js1" "indjseg s1 = e1w" "output_low_first s1 = v"
    "output_buf s1 = out'" "j_low s1 = j_low s" "indstart_low s1 = indstart_low s"
    "output_low_curr s1 = ?c"
    by (simp_all add: s1)
  have fs1: "fsl s1 = (if Suc ?js = ?jl then ?c else v)" by (simp add: fsl_def sel js1)
  have vlt: "fsl s1 < ?lf"
  proof (cases "Suc ?js = ?jl")
    case True
    then have "?jl - 1 = ?js" by simp
    then show ?thesis using ostrict cond True by (simp add: fs1 sll_def)
  next
    case False
    then have "Suc ?js < ?jl" using cond by simp
    then have "- sll s ?js < - sll s (Suc ?js)" using env_incr[OF old order_refl] by simp
    then show ?thesis using False xe1 ble by (simp add: fs1 sll_def)
  qed
  have xo1: "xo s1 t = (if ?g \<le> t \<and> t < ?e1 then ?lf else xo s t)" for t
  proof (cases "t < unat n")
    case True
    then show ?thesis using cells len b by (simp add: xo_def cell_def sel bufs_def)
  next
    case False
    then show ?thesis using len b e1n by (simp add: xo_def cell_def sel bufs_def)
  qed
  have xs_lo: "xsum s1 k = xsum s k" if "k \<le> ?g" for k
    by (rule xsum_cong) (use that in \<open>simp add: xo1\<close>)
  have xs_mid: "xsum s1 k = ?A + ?lf * real (k - ?g)" if "?g \<le> k" "k \<le> ?e1" for k
    using xsum_fill[of s1 ?g ?e1 ?lf s k] xo1 that by simp
  have A1: "xsum s1 ?e1 = Lb inp lam ?e1" using xs_mid[of ?e1] ge1 touch by simp
  have bl1: "bl s1 = bl s" by (simp add: bl_def sel fun_eq_iff)
  have mono: "?e1 < bl s j" if "Suc ?js < j" "j \<le> ?jl" for j
    using env_b_mono[OF old, of "Suc ?js" j] that ble by simp
  have sl1: "sll s1 j = sll s j" if "Suc ?js \<le> j" "j \<le> ?jl" for j
  proof (cases "j = Suc ?js")
    case True
    then show ?thesis using xe1 ble by (simp add: sll_def sel js1)
  next
    case False
    then have "?e1 < bl s j" using mono that by simp
    then show ?thesis using False that by (simp add: sll_def sel js1 bl1 xo1)
  qed
  have adv: "env (\<lambda>k. - Lf k) (- Lf ?e1) (Suc ?js) ?jl (bl s) (\<lambda>j. - sll s j) (- ?c) E"
    using env_advance[OF old cond] ble by simp
  have env1: "env (\<lambda>k. - Lf k) (- xsum s1 ?e1) (Suc ?js) ?jl (bl s1) (\<lambda>j. - sll s1 j) (- ?c) E"
    unfolding A1 Lf[OF e1N, symmetric] by (rule env_cong[OF _ _ adv]) (simp_all add: bl1 sl1)
  have strict1: "Suc ?js < ?jl \<longrightarrow> ?c < sll s1 (?jl - 1)"
    using ostrict sl1[of "?jl - 1"] by auto
  have line: "xsum s1 ?e1 + ?lf * real (k - ?e1) = ?A + ?lf * real (k - ?g)" if "?e1 \<le> k" for k
  proof -
    have d: "real (k - ?g) = real k - real ?g" "real (k - ?e1) = real k - real ?e1"
      "real (?e1 - ?g) = real ?e1 - real ?g" using ge1 that by (simp_all add: of_nat_diff)
    have "xsum s1 ?e1 = ?A + ?lf * (real ?e1 - real ?g)" using xs_mid[of ?e1] ge1 d(3) by simp
    then show ?thesis unfolding d by (simp add: algebra_simps)
  qed
  have tg1: "xsum s1 ?e1 + fsl s1 * real (k - ?e1) \<le> Ub inp lam k" if "?e1 < k" "k \<le> N" for k
  proof -
    have "fsl s1 * real (k - ?e1) \<le> ?lf * real (k - ?e1)"
      using vlt by (intro mult_right_mono) simp_all
    then have "xsum s1 ?e1 + fsl s1 * real (k - ?e1) \<le> ?A + ?lf * real (k - ?g)"
      using line[of k] that by simp
    also have "\<dots> \<le> Ub inp lam k" using tg[of k] ge1 that fs by simp
    finally show ?thesis .
  qed
  have k1': "\<bar>xsum s1 k - ysum inp k\<bar> \<le> lam" if "0 < k" "k \<le> ?e1" for k
  proof (cases "k \<le> ?g")
    case True
    then show ?thesis using k1[OF that(1) True] xs_lo[OF True] by simp
  next
    case False
    then have gk: "?g < k" by simp
    have "xsum s1 k = ?A + ?lf * real (k - ?g)" using xs_mid[of k] gk that by simp
    moreover have "?A + ?lf * real (k - ?g) \<le> Ub inp lam k" using tg[OF gk] that e1N fs by simp
    moreover have "Lb inp lam k \<le> ?A + ?lf * real (k - ?g)" using above[OF gk] that by simp
    ultimately show ?thesis by (simp add: Ub_def Lb_def abs_le_iff)
  qed
  have k2': "(xo s1 (k - 1) < xo s1 k \<longrightarrow> xsum s1 k - ysum inp k = lam) \<and>
        (xo s1 k < xo s1 (k - 1) \<longrightarrow> xsum s1 k - ysum inp k = - lam)" if "0 < k" "k < ?e1" for k
  proof -
    consider (lo) "k < ?g" | (at) "k = ?g" | (hi) "?g < k" by linarith
    then show ?thesis
    proof cases
      case lo
      then have "\<not> ?g \<le> k - 1" "\<not> ?g \<le> k" by linarith+
      then have "xo s1 (k - 1) = xo s (k - 1)" "xo s1 k = xo s k" by (simp_all add: xo1)
      then show ?thesis using k2[OF that(1) lo] xs_lo[of k] lo by simp
    next
      case at
      have "\<not> ?g \<le> ?g - 1" using at that(1) by linarith
      then have x: "xo s1 (k - 1) = xo s (?g - 1)" "xo s1 k = ?lf" using at that ge1 by (simp_all add: xo1)
      have "xsum s1 k = ?A" using xs_lo[of k] at by simp
      then show ?thesis using anc at that(1) x fs by auto
    next
      case hi
      then have "?g \<le> k - 1" "k - 1 < ?e1" "?g \<le> k" using that by linarith+
      then have "xo s1 (k - 1) = ?lf" "xo s1 k = ?lf" using that by (simp_all add: xo1)
      then show ?thesis by simp
    qed
  qed
  have "?g \<le> ?e1 - 1" "?e1 - 1 < ?e1" using ge1 by linarith+
  then have xprev: "xo s1 (?e1 - 1) = ?lf" by (simp add: xo1)
  have anc1: "xsum s1 ?e1 - ysum inp ?e1 = - lam \<and> fsl s1 \<le> xo s1 (?e1 - 1)"
    using A1 vlt xprev by (simp add: Lb_def)
  have "FL n inp lam Lf N E s1"
    unfolding FL_def sel js1
    using st Nn EN Lf env1 strict1 tg1 k1' k2' anc1 by auto
  then show ?thesis using sl1 by blast
qed

lemma flush_low_FL:
  "flush_low n s = Inr s' \<Longrightarrow> FL n inp lam Lf (unat i) E s \<Longrightarrow> i < n \<Longrightarrow>
   FL n inp lam Lf (unat i) E s' \<and> unat (jseg s') = unat (j_low s) \<and>
   sll s' (unat (j_low s)) = sll s (unat (j_low s)) \<and>
   indstart_low s' = indstart_low s \<and> indstart_up s' = indstart_up s \<and>
   j_low s' = j_low s \<and> j_up s' = j_up s \<and>
   output_low_curr s' = output_low_curr s \<and> output_up_curr s' = output_up_curr s \<and>
   output_up_first s' = output_up_first s"
proof (induction n s rule: flush_low.induct)
  case (1 n s)
  note res = "1.prems"(1) and cl = "1.prems"(2) and i = "1.prems"(3)
  have b: "bufs n s" and low: "low_ok (unat i) s" and fl: "filled s"
    using cl by (simp_all add: FL_def)
  note ok = low[unfolded low_ok_def]
  have in_n: "unat i < unat n" using i by (simp add: word_less_nat_alt)
  show ?case
  proof (cases "jseg s < j_low s")
    case False
    then have "s' = s" using res by (subst (asm) flush_low.simps) (simp only: if_False, simp)
    moreover have "unat (jseg s) = unat (j_low s)"
      using False seg_ok_bounds[OF ok] by (simp add: word_less_nat_alt)
    ultimately show ?thesis using cl by simp
  next
    case True
    then have jlt: "unat (jseg s) < unat (j_low s)" by (simp add: word_less_nat_alt)
    have suc: "unat (jseg s + 1) = Suc (unat (jseg s))" using unat_inc[of "jseg s" "j_low s"] True by simp
    have jm: "unat (j_low s) \<le> unat i" using seg_ok_bounds[OF ok] by simp
    obtain e where e: "indstart_low s ! Suc (unat (jseg s)) = Some e" and em: "unat e \<le> unat i"
      using seg_ok_some[OF ok, of "Suc (unat (jseg s))"] jlt by auto
    have lte: "unat (indjseg s) < unat e"
      using seg_ok_incr[OF ok order_refl jlt seg_ok_first[OF ok] e] .
    have einit: "output_buf s ! unat e \<noteq> None"
      using seg_ok_init[OF ok _ _ e] jlt by simp
    have r1: "rd n (indstart_low s) (jseg s + 1) = Inr e"
      using e suc jlt jm in_n b by (intro rd_Some unat_less_word) (auto simp: bufs_def)
    obtain out' where f: "fill_lt n e (output_low_first s) (output_buf s) (indjseg s) = Inr (out', e)"
      and len: "length out' = unat n"
      and cells: "\<forall>t < unat n. out' ! t =
          (if unat (indjseg s) \<le> t \<and> t < unat e then Some (output_low_first s) else output_buf s ! t)"
      using fill_lt_ok[of "output_buf s" n "indjseg s" e "output_low_first s"] lte em in_n b
      by (auto simp: bufs_def word_le_nat_alt)
    have mono: "init_mono (output_buf s) out'"
      using cells len b by (auto simp: init_mono_def bufs_def)
    have "out' ! unat e = output_buf s ! unat e" using cells em in_n by simp
    then obtain v where v: "out' ! unat e = Some v" using einit by auto
    have r3: "rd n out' e = Inr v"
      using v em in_n len by (intro rd_Some unat_less_word) auto
    let ?s1 = "s\<lparr>jseg := jseg s + 1, output_buf := out', indjseg := e, output_low_first := v\<rparr>"
    have b': "bufs n ?s1" using b len by (simp add: bufs_def)
    have ok': "low_ok (unat i) ?s1"
      unfolding low_ok_def using seg_ok_init_mono[OF seg_ok_advance[OF ok jlt e] mono] in_n b
      by (simp add: bufs_def)
    have fl': "filled ?s1"
      using fl cells em in_n len b by (auto simp: filled_def bufs_def)
    have rec: "flush_low n ?s1 = Inr s'"
      using res by (subst (asm) flush_low.simps) (simp add: True r1 f r3)
    note stp = FL_step[OF cl jlt e len cells v suc refl b' ok' fl']
    have cl1: "FL n inp lam Lf (unat i) E ?s1" using stp by blast
    have sl: "sll ?s1 (unat (j_low s)) = sll s (unat (j_low s))" using stp jlt by auto
    show ?thesis
      using "1.IH"[OF True r1 f refl r3 rec cl1 i] sl by simp
  qed
qed

definition Kfin :: "nat \<Rightarrow> real list \<Rightarrow> real \<Rightarrow> st \<Rightarrow> bool" where
  "Kfin n inp lam s \<longleftrightarrow>
     xsum s n = ysum inp n \<and>
     (\<forall>k. 0 < k \<and> k < n \<longrightarrow>
        \<bar>xsum s k - ysum inp k\<bar> \<le> lam \<and>
        (xo s (k - 1) < xo s k \<longrightarrow> xsum s k - ysum inp k = lam) \<and>
        (xo s k < xo s (k - 1) \<longrightarrow> xsum s k - ysum inp k = - lam))"

lemma Kfin_mirror: "Kfin n (map uminus inp) lam (mirror s) = Kfin n inp lam s"
proof -
  have a: "\<bar>- a - - b\<bar> = \<bar>a - b\<bar>" for a b :: real by simp
  have b: "(- a - - b = c) = (a - b = - c)" for a b c :: real by auto
  show ?thesis unfolding Kfin_def xsum_mirror xo_mirror ysum_neg a b neg_less_iff_less neg_equal_iff_equal
    by auto
qed

lemma psum_ysum: "k \<le> length inp \<Longrightarrow> ysum inp k = psum inp k"
  unfolding ysum_def psum_def by (intro sum.cong refl) simp

lemma Kfin_kkt:
  assumes out: "output_buf s = map Some ys" and len: "length ys = length inp"
    and k: "Kfin (length inp) inp lam s"
  shows "kkt lam inp ys"
proof -
  have xo: "xo s t = ys ! t" if "t < length inp" for t
    using that out len by (simp add: xo_def cell_def)
  have xs: "xsum s k = psum ys k" if "k \<le> length inp" for k
    unfolding xsum_def psum_def using that by (intro sum.cong refl) (simp add: xo)
  show ?thesis
    unfolding kkt_def
  proof (intro conjI allI impI)
    show "length ys = length inp" by (rule len)
    show "psum ys (length inp) = psum inp (length inp)"
      using k xs[of "length inp"] psum_ysum[of "length inp" inp] by (simp add: Kfin_def)
  next
    fix k assume kk: "0 < k \<and> k < length inp"
    then have "k - 1 < length inp" by linarith
    then have a: "xsum s k = psum ys k" "ysum inp k = psum inp k" "xo s k = ys ! k"
      "xo s (k - 1) = ys ! (k - 1)"
      using xs[of k] psum_ysum[of k inp] xo[of k] xo[of "k - 1"] kk by simp_all
    have f: "\<bar>xsum s k - ysum inp k\<bar> \<le> lam \<and>
        (xo s (k - 1) < xo s k \<longrightarrow> xsum s k - ysum inp k = lam) \<and>
        (xo s k < xo s (k - 1) \<longrightarrow> xsum s k - ysum inp k = - lam)"
      using k kk unfolding Kfin_def by blast
    show "\<bar>psum ys k - psum inp k\<bar> \<le> lam" using f unfolding a by blast
    show "ys ! (k - 1) < ys ! k \<Longrightarrow> psum ys k - psum inp k = lam" using f unfolding a by blast
    show "ys ! k < ys ! (k - 1) \<Longrightarrow> psum ys k - psum inp k = - lam" using f unfolding a by blast
  qed
qed

text \<open>A last constant stretch from the anchor keeps the optimality condition.\<close>

lemma Kseg:
  assumes xo': "\<And>t. t < E \<Longrightarrow> xo s' t = (if g \<le> t then v else xo s t)"
    and gE: "g < E"
    and k1: "\<And>k. 0 < k \<Longrightarrow> k \<le> g \<Longrightarrow> \<bar>xsum s k - ysum inp k\<bar> \<le> lam"
    and k2: "\<And>k. 0 < k \<Longrightarrow> k < g \<Longrightarrow>
        (xo s (k - 1) < xo s k \<longrightarrow> xsum s k - ysum inp k = lam) \<and>
        (xo s k < xo s (k - 1) \<longrightarrow> xsum s k - ysum inp k = - lam)"
    and anc: "g = 0 \<or> (xsum s g - ysum inp g = lam \<and> xo s (g - 1) \<le> v) \<or>
       (xsum s g - ysum inp g = - lam \<and> v \<le> xo s (g - 1))"
    and bnd: "\<And>k. g < k \<Longrightarrow> k < E \<Longrightarrow> \<bar>xsum s g + v * real (k - g) - ysum inp k\<bar> \<le> lam"
  shows "(\<forall>k \<le> E. xsum s' k = (if k \<le> g then xsum s k else xsum s g + v * real (k - g))) \<and>
    (\<forall>k. 0 < k \<and> k < E \<longrightarrow>
        \<bar>xsum s' k - ysum inp k\<bar> \<le> lam \<and>
        (xo s' (k - 1) < xo s' k \<longrightarrow> xsum s' k - ysum inp k = lam) \<and>
        (xo s' k < xo s' (k - 1) \<longrightarrow> xsum s' k - ysum inp k = - lam))"
proof -
  have xlo: "xsum s' k = xsum s k" if "k \<le> g" for k
    by (rule xsum_cong) (use that gE in \<open>simp add: xo'\<close>)
  have xhi: "xsum s' k = xsum s g + v * real (k - g)" if "g \<le> k" "k \<le> E" for k
  proof -
    have "(\<Sum>t = g..<k. xo s' t) = (\<Sum>t = g..<k. v)"
      using that by (intro sum.cong refl) (simp add: xo')
    then show ?thesis using xsum_split[OF that(1), of s'] xlo[of g] by (simp add: mult.commute)
  qed
  have xs: "\<forall>k \<le> E. xsum s' k = (if k \<le> g then xsum s k else xsum s g + v * real (k - g))"
    using xlo xhi by simp
  have kk: "\<bar>xsum s' k - ysum inp k\<bar> \<le> lam \<and>
        (xo s' (k - 1) < xo s' k \<longrightarrow> xsum s' k - ysum inp k = lam) \<and>
        (xo s' k < xo s' (k - 1) \<longrightarrow> xsum s' k - ysum inp k = - lam)" if "0 < k" "k < E" for k
  proof -
    consider (lo) "k < g" | (at) "k = g" | (hi) "g < k" by linarith
    then show ?thesis
    proof cases
      case lo
      then have "\<not> g \<le> k - 1" "\<not> g \<le> k" "k - 1 < E" using that by linarith+
      then have "xo s' (k - 1) = xo s (k - 1)" "xo s' k = xo s k" using that by (simp_all add: xo')
      then show ?thesis using k2[OF that(1) lo] k1[of k] that(1) lo xlo[of k]
        by simp
    next
      case at
      have "\<not> g \<le> g - 1" "g - 1 < E" using at that gE by linarith+
      then have x: "xo s' (k - 1) = xo s (g - 1)" "xo s' k = v" using at that by (simp_all add: xo')
      have "xsum s' k = xsum s g" using xlo[of k] at by simp
      then show ?thesis using anc at that(1) x k1[of g] by auto
    next
      case hi
      then have "g \<le> k - 1" "k - 1 < E" "g \<le> k" using that by linarith+
      then have "xo s' (k - 1) = v" "xo s' k = v" using that by (simp_all add: xo')
      moreover have "xsum s' k = xsum s g + v * real (k - g)" using hi that by (intro xhi) simp_all
      ultimately show ?thesis using bnd[OF hi that(2)] by simp
    qed
  qed
  show ?thesis using xs kk by blast
qed

lemma Kfin_end:
  assumes xo': "\<And>t. t < n \<Longrightarrow> xo s' t = (if g \<le> t then v else xo s t)"
    and gE: "g < n"
    and k1: "\<And>k. 0 < k \<Longrightarrow> k \<le> g \<Longrightarrow> \<bar>xsum s k - ysum inp k\<bar> \<le> lam"
    and k2: "\<And>k. 0 < k \<Longrightarrow> k < g \<Longrightarrow>
        (xo s (k - 1) < xo s k \<longrightarrow> xsum s k - ysum inp k = lam) \<and>
        (xo s k < xo s (k - 1) \<longrightarrow> xsum s k - ysum inp k = - lam)"
    and anc: "g = 0 \<or> (xsum s g - ysum inp g = lam \<and> xo s (g - 1) \<le> v) \<or>
       (xsum s g - ysum inp g = - lam \<and> v \<le> xo s (g - 1))"
    and bnd: "\<And>k. g < k \<Longrightarrow> k < n \<Longrightarrow> \<bar>xsum s g + v * real (k - g) - ysum inp k\<bar> \<le> lam"
    and fin: "xsum s g + v * real (n - g) = ysum inp n"
  shows "Kfin n inp lam s'"
proof -
  note ks = Kseg[OF xo' gE k1 k2 anc bnd]
  have "xsum s' n = xsum s g + v * real (n - g)" using ks gE by simp
  then have "xsum s' n = ysum inp n" using fin by simp
  then show ?thesis unfolding Kfin_def using ks by blast
qed

lemma Kfin_last:
  assumes xo': "\<And>t. t < N \<Longrightarrow> xo s' t = (if g \<le> t then v else xo s t)"
    and xN: "xo s' N = inp ! N + lam" and N: "N < length inp"
    and gE: "g < N" and lam: "0 \<le> lam"
    and k1: "\<And>k. 0 < k \<Longrightarrow> k \<le> g \<Longrightarrow> \<bar>xsum s k - ysum inp k\<bar> \<le> lam"
    and k2: "\<And>k. 0 < k \<Longrightarrow> k < g \<Longrightarrow>
        (xo s (k - 1) < xo s k \<longrightarrow> xsum s k - ysum inp k = lam) \<and>
        (xo s k < xo s (k - 1) \<longrightarrow> xsum s k - ysum inp k = - lam)"
    and anc: "g = 0 \<or> (xsum s g - ysum inp g = lam \<and> xo s (g - 1) \<le> v) \<or>
       (xsum s g - ysum inp g = - lam \<and> v \<le> xo s (g - 1))"
    and bnd: "\<And>k. g < k \<Longrightarrow> k < N \<Longrightarrow> \<bar>xsum s g + v * real (k - g) - ysum inp k\<bar> \<le> lam"
    and fin: "xsum s g + v * real (N - g) = ysum inp N - lam"
    and le: "inp ! N + lam \<le> v"
  shows "Kfin (Suc N) inp lam s'"
proof -
  note ks = Kseg[OF xo' gE k1 k2 anc bnd]
  have sN: "xsum s' N = ysum inp N - lam" using ks gE fin by simp
  have "xsum s' (Suc N) = xsum s' N + xo s' N" by (simp add: xsum_def)
  then have e: "xsum s' (Suc N) = ysum inp (Suc N)" using sN xN ysum_Suc[OF N] by simp
  have "g \<le> N - 1" "N - 1 < N" using gE by linarith+
  then have p: "xo s' (N - 1) = v" by (simp add: xo')
  have atN: "\<bar>xsum s' N - ysum inp N\<bar> \<le> lam \<and>
        (xo s' (N - 1) < xo s' N \<longrightarrow> xsum s' N - ysum inp N = lam) \<and>
        (xo s' N < xo s' (N - 1) \<longrightarrow> xsum s' N - ysum inp N = - lam)"
    using sN lam p xN le by simp
  have "\<bar>xsum s' k - ysum inp k\<bar> \<le> lam \<and>
        (xo s' (k - 1) < xo s' k \<longrightarrow> xsum s' k - ysum inp k = lam) \<and>
        (xo s' k < xo s' (k - 1) \<longrightarrow> xsum s' k - ysum inp k = - lam)" if "0 < k" "k < Suc N" for k
  proof (cases "k = N")
    case True then show ?thesis using atN by simp
  next
    case False
    then have "k < N" using that by simp
    then show ?thesis using ks that by blast
  qed
  then show ?thesis unfolding Kfin_def using e by blast
qed

lemma sll_mirror: "sll (mirror s) j = - slu s j"
  by (simp add: slu_def sll_def)

lemma Lb_neg: "Lb (map uminus inp) lam k = - Ub inp lam k"
  by (simp add: Ub_def Lb_def)

lemma fsl_single: "unat (jseg s) = unat (j_low s) \<Longrightarrow> fsl s = output_low_curr s"
  by (simp add: fsl_def)

lemma fsl_many: "unat (jseg s) \<noteq> unat (j_low s) \<Longrightarrow> fsl s = output_low_first s"
  by (simp add: fsl_def)

lemma low_absorb_env:
  assumes res: "low_absorb n i x s = Inr s'"
    and inv: "sinv n (unat i) s" and i: "i < n" and len: "length inp = unat n"
    and env: "low_env inp lam (unat i) s"
    and x: "x = inp ! unat i" "output_low_curr s \<le> x"
  shows "\<exists>c j. s' = s\<lparr>output_buf := (output_buf s)[unat (indjseg s) := Some (output_low_first s)],
                      output_low_curr := c, j_low := j\<rparr> \<and>
      unat (jseg s) \<le> unat j \<and> unat j \<le> unat (j_low s) \<and>
      env (\<lambda>k. - Lb inp lam k) (- xsum s (unat (indjseg s))) (unat (jseg s)) (unat j) (bl s)
        (\<lambda>j. - sll s j) (- c) (Suc (unat i)) \<and>
      (unat (jseg s) < unat j \<longrightarrow> c < sll s (unat j - 1)) \<and> sll s (unat j) \<le> c"
proof -
  have in_n: "unat i < length inp" using i len by (simp add: word_less_nat_alt)
  have m1: "up_absorb n i (- x) (mirror s) = Inr (mirror s')"
    using res by (simp add: low_absorb_mirror mres_Inr_iff)
  have 1: "Ub (map uminus inp) lam = (\<lambda>k. - Lb inp lam k)" by (simp add: fun_eq_iff Ub_neg)
  have 2: "slu (mirror s) = (\<lambda>j. - sll s j)" by (simp add: fun_eq_iff slu_mirror)
  from up_absorb_env[OF m1 _ i _ env[unfolded low_env_def]] inv len x in_n
  obtain c j where
    ms: "mirror s' = (mirror s)\<lparr>output_buf := (output_buf (mirror s))[unat (indjseg (mirror s)) := Some (output_up_first (mirror s))],
                      output_up_curr := c, j_up := j\<rparr>"
    and j: "unat (jseg (mirror s)) \<le> unat j" "unat j \<le> unat (j_up (mirror s))"
    and e: "env (Ub (map uminus inp) lam) (xsum (mirror s) (unat (indjseg (mirror s)))) (unat (jseg (mirror s))) (unat j)
        (bu (mirror s)) (slu (mirror s)) c (Suc (unat i))"
    and st: "unat (jseg (mirror s)) < unat j \<longrightarrow> slu (mirror s) (unat j - 1) < c"
    and tp: "c \<le> slu (mirror s) (unat j)"
    by (auto simp: sinv_mirror)
  have "s' = mirror (mirror s')" by simp
  also have "\<dots> = s\<lparr>output_buf := (output_buf s)[unat (indjseg s) := Some (output_low_first s)],
                      output_low_curr := - c, j_low := j\<rparr>"
    unfolding ms by simp
  finally have s': "s' = s\<lparr>output_buf := (output_buf s)[unat (indjseg s) := Some (output_low_first s)],
                      output_low_curr := - c, j_low := j\<rparr>" .
  have e': "env (\<lambda>k. - Lb inp lam k) (- xsum s (unat (indjseg s))) (unat (jseg s)) (unat j) (bl s)
        (\<lambda>j. - sll s j) (- (- c)) (Suc (unat i))"
    using e unfolding 1 2 by simp
  have st': "unat (jseg s) < unat j \<longrightarrow> - c < sll s (unat j - 1)"
    using st by (auto simp: slu_mirror)
  have tp': "sll s (unat j) \<le> - c" using tp by (simp add: slu_mirror)
  show ?thesis
    using s' j e' st' tp' by (intro exI[of _ "- c"] exI[of _ j]) simp
qed

text \<open>Entering the closing step with the lower envelope.\<close>

lemma FL_init:
  assumes inv: "Inv n inp lam N N s" and N: "0 < N" "N < unat n"
    and sv1: "bufs n s1" "low_ok N s1" "filled s1"
    and sel: "jseg s1 = jseg s" "indjseg s1 = indjseg s" "indstart_low s1 = indstart_low s"
      "output_low_first s1 = output_low_first s"
    and xo1: "\<And>t. t \<noteq> unat (indjseg s) \<Longrightarrow> xo s1 t = xo s t"
    and EN: "E \<le> Suc N" and Lf: "\<And>k. k \<le> N \<Longrightarrow> Lf k = Lb inp lam k"
    and env: "env (\<lambda>k. - Lf k) (- xsum s (unat (indjseg s))) (unat (jseg s)) (unat (j_low s1)) (bl s)
        (\<lambda>j. - sll s j) (- output_low_curr s1) E"
    and strict: "unat (jseg s) < unat (j_low s1) \<longrightarrow> output_low_curr s1 < sll s (unat (j_low s1) - 1)"
    and single: "unat (j_low s1) = unat (jseg s) \<longrightarrow>
        output_low_first s \<le> output_low_curr s1 \<and> output_low_curr s1 \<le> output_up_first s"
    and jle: "unat (j_low s1) \<le> unat (j_low s)"
  shows "FL n inp lam Lf N E s1"
proof -
  let ?g = "unat (indjseg s)" and ?js = "unat (jseg s)" and ?j = "unat (j_low s1)"
  let ?A = "xsum s ?g" and ?lf = "output_low_first s" and ?uf = "output_up_first s"
  let ?c = "output_low_curr s1"
  note p = Inv_parts[OF inv]
  have sv0: "sinv n (N - 1) s" using p(1) by simp
  have low0: "low_ok (N - 1) s" and up0: "up_ok (N - 1) s" using sv0 by (simp_all add: sinv_def)
  have gN: "?g \<le> N - 1" using sinv_idx[OF sv0] .
  have A1: "xsum s1 ?g = ?A" by (rule xsum_cong) (simp add: xo1)
  have bl1: "bl s1 = bl s" by (simp add: bl_def sel fun_eq_iff)
  have sl1: "sll s1 j = sll s j" if "?js \<le> j" "j \<le> ?j" for j
  proof (cases "j = ?js")
    case True
    then show ?thesis by (simp add: sll_def sel)
  next
    case False
    then have "?g < bl s j" using seg_ok_bl_gt[OF low0[unfolded low_ok_def], of j] that jle by simp
    then show ?thesis using False by (simp add: sll_def sel bl1 xo1)
  qed
  have env1: "env (\<lambda>k. - Lf k) (- xsum s1 ?g) ?js ?j (bl s1) (\<lambda>j. - sll s1 j) (- ?c) E"
    unfolding A1 by (rule env_cong[OF _ _ env]) (simp_all add: bl1 sl1)
  have strict1: "?js < ?j \<longrightarrow> ?c < sll s1 (?j - 1)"
    using strict sl1[of "?j - 1"] by auto
  have jj: "?js \<le> ?j" using env by (rule env_le)
  have fs_le: "fsl s1 \<le> ?uf"
    using single p(7) jj by (cases "?j = ?js") (simp_all add: fsl_def sel)
  have fs_ge: "?lf \<le> fsl s1"
    using single jj by (cases "?j = ?js") (simp_all add: fsl_def sel)
  have tg: "xsum s1 ?g + fsl s1 * real (k - ?g) \<le> Ub inp lam k" if "?g < k" "k \<le> N" for k
  proof -
    have "fsl s1 * real (k - ?g) \<le> ?uf * real (k - ?g)"
      using fs_le by (intro mult_right_mono) simp_all
    moreover have "?A + ?uf * real (k - ?g) \<le> Ub inp lam k"
      using up_env_first_line[OF p(4) up_ok_bu_first[OF up0] that] .
    ultimately show ?thesis using A1 by simp
  qed
  have kp: "Kpre inp lam s" by (rule p(8))
  have xlo: "xsum s1 k = xsum s k" if "k \<le> ?g" for k
    by (rule xsum_cong) (use that in \<open>simp add: xo1\<close>)
  have k1: "\<bar>xsum s1 k - ysum inp k\<bar> \<le> lam" if "0 < k" "k \<le> ?g" for k
    using kp that xlo[of k] by (simp add: Kpre_def)
  have k2: "(xo s1 (k - 1) < xo s1 k \<longrightarrow> xsum s1 k - ysum inp k = lam) \<and>
        (xo s1 k < xo s1 (k - 1) \<longrightarrow> xsum s1 k - ysum inp k = - lam)" if "0 < k" "k < ?g" for k
  proof -
    have "k - 1 \<noteq> ?g" "k \<noteq> ?g" using that by linarith+
    then have "xo s1 (k - 1) = xo s (k - 1)" "xo s1 k = xo s k" by (simp_all add: xo1)
    then show ?thesis using kp that xlo[of k] by (simp add: Kpre_def)
  qed
  have anc: "?g = 0 \<or> (xsum s1 ?g - ysum inp ?g = lam \<and> xo s1 (?g - 1) \<le> fsl s1) \<or>
       (xsum s1 ?g - ysum inp ?g = - lam \<and> fsl s1 \<le> xo s1 (?g - 1))"
  proof (cases "?g = 0")
    case True then show ?thesis by simp
  next
    case False
    then have "?g - 1 \<noteq> ?g" by linarith
    then have x: "xo s1 (?g - 1) = xo s (?g - 1)" by (simp add: xo1)
    have "(?A - ysum inp ?g = lam \<and> xo s (?g - 1) \<le> ?lf) \<or>
       (?A - ysum inp ?g = - lam \<and> ?uf \<le> xo s (?g - 1))"
      using kp False by (simp add: Kpre_def)
    then show ?thesis unfolding x A1 using fs_le fs_ge by linarith
  qed
  show ?thesis
    unfolding FL_def sel
    using sv1 N EN Lf env1 strict1 tg k1 k2 anc by auto
qed

text \<open>Leaving the closing step: the last stretch runs to the end of the signal.\<close>

lemma FL_finish:
  assumes fl: "FL n inp lam Lf N (Suc N) s" and N: "Suc N = unat n"
    and single: "unat (jseg s) = unat (j_low s)"
    and fin: "Lf (Suc N) = ysum inp (Suc N)"
    and xo': "\<And>t. t < unat n \<Longrightarrow> xo s' t = (if unat (indjseg s) \<le> t then output_low_curr s else xo s t)"
  shows "Kfin (unat n) inp lam s'"
proof -
  let ?g = "unat (indjseg s)" and ?c = "output_low_curr s" and ?A = "xsum s (unat (indjseg s))"
  have low: "low_ok N s"
    and Lf: "\<And>k. k \<le> N \<Longrightarrow> Lf k = Lb inp lam k"
    and env: "env (\<lambda>k. - Lf k) (- ?A) (unat (jseg s)) (unat (j_low s)) (bl s) (\<lambda>j. - sll s j) (- ?c) (Suc N)"
    and tg: "\<And>k. ?g < k \<Longrightarrow> k \<le> N \<Longrightarrow> ?A + fsl s * real (k - ?g) \<le> Ub inp lam k"
    and k1: "\<And>k. 0 < k \<Longrightarrow> k \<le> ?g \<Longrightarrow> \<bar>xsum s k - ysum inp k\<bar> \<le> lam"
    and k2: "\<And>k. 0 < k \<Longrightarrow> k < ?g \<Longrightarrow>
        (xo s (k - 1) < xo s k \<longrightarrow> xsum s k - ysum inp k = lam) \<and>
        (xo s k < xo s (k - 1) \<longrightarrow> xsum s k - ysum inp k = - lam)"
    and anc: "?g = 0 \<or> (?A - ysum inp ?g = lam \<and> xo s (?g - 1) \<le> fsl s) \<or>
       (?A - ysum inp ?g = - lam \<and> fsl s \<le> xo s (?g - 1))"
    using fl unfolding FL_def by blast+
  have fs: "fsl s = ?c" using single by (rule fsl_single)
  have blg: "bl s (unat (j_low s)) = ?g" using low_ok_bl_first[OF low] single by simp
  have ep: "epos (\<lambda>k. - Lf k) (- ?A) (unat (jseg s)) (bl s) (unat (j_low s)) = - ?A"
    using single by (simp add: epos_def)
  have gN: "?g < Suc N" using env_end[OF env] blg by simp
  have last: "?A + ?c * real (Suc N - ?g) = ysum inp (Suc N)"
    using env_last[OF env] unfolding ep blg fin by linarith
  have below: "Lb inp lam k \<le> ?A + ?c * real (k - ?g)" if "?g < k" "k \<le> N" for k
  proof -
    have "- ?A + - ?c * real (k - ?g) \<le> - Lf k"
      using env_last_below[OF env, of k] that unfolding ep blg by simp
    then show ?thesis using Lf[OF that(2)] by simp
  qed
  show ?thesis
  proof (rule Kfin_end[of "unat n" s' ?g ?c s])
    show "xo s' t = (if ?g \<le> t then ?c else xo s t)" if "t < unat n" for t using xo'[OF that] .
    show "?g < unat n" using gN N by simp
    show "\<bar>xsum s k - ysum inp k\<bar> \<le> lam" if "0 < k" "k \<le> ?g" for k using k1[OF that] .
    show "(xo s (k - 1) < xo s k \<longrightarrow> xsum s k - ysum inp k = lam) \<and>
        (xo s k < xo s (k - 1) \<longrightarrow> xsum s k - ysum inp k = - lam)" if "0 < k" "k < ?g" for k
      using k2[OF that] .
    show "?g = 0 \<or> (?A - ysum inp ?g = lam \<and> xo s (?g - 1) \<le> ?c) \<or>
       (?A - ysum inp ?g = - lam \<and> ?c \<le> xo s (?g - 1))" using anc unfolding fs .
    show "\<bar>?A + ?c * real (k - ?g) - ysum inp k\<bar> \<le> lam" if "?g < k" "k < unat n" for k
    proof -
      have kN: "k \<le> N" using that N by simp
      show ?thesis using tg[OF that(1) kN] below[OF that(1) kN] unfolding fs Ub_def Lb_def
        by (simp add: abs_le_iff)
    qed
    show "?A + ?c * real (unat n - ?g) = ysum inp (unat n)" using last N by simp
  qed
qed

text \<open>Leaving the closing step: the last sample is a stretch of its own.\<close>

lemma FL_last:
  assumes fl: "FL n inp lam (Lb inp lam) N N s" and N: "Suc N = unat n" "unat n = length inp"
    and lam: "0 \<le> lam"
    and single: "unat (jseg s) = unat (j_low s)"
    and xo': "\<And>t. t < N \<Longrightarrow> xo s' t = (if unat (indjseg s) \<le> t then output_low_curr s else xo s t)"
    and xN: "xo s' N = inp ! N + lam" and le: "inp ! N + lam \<le> output_low_curr s"
  shows "Kfin (unat n) inp lam s'"
proof -
  let ?g = "unat (indjseg s)" and ?c = "output_low_curr s" and ?A = "xsum s (unat (indjseg s))"
  have low: "low_ok N s"
    and env: "env (\<lambda>k. - Lb inp lam k) (- ?A) (unat (jseg s)) (unat (j_low s)) (bl s) (\<lambda>j. - sll s j) (- ?c) N"
    and tg: "\<And>k. ?g < k \<Longrightarrow> k \<le> N \<Longrightarrow> ?A + fsl s * real (k - ?g) \<le> Ub inp lam k"
    and k1: "\<And>k. 0 < k \<Longrightarrow> k \<le> ?g \<Longrightarrow> \<bar>xsum s k - ysum inp k\<bar> \<le> lam"
    and k2: "\<And>k. 0 < k \<Longrightarrow> k < ?g \<Longrightarrow>
        (xo s (k - 1) < xo s k \<longrightarrow> xsum s k - ysum inp k = lam) \<and>
        (xo s k < xo s (k - 1) \<longrightarrow> xsum s k - ysum inp k = - lam)"
    and anc: "?g = 0 \<or> (?A - ysum inp ?g = lam \<and> xo s (?g - 1) \<le> fsl s) \<or>
       (?A - ysum inp ?g = - lam \<and> fsl s \<le> xo s (?g - 1))"
    using fl unfolding FL_def by blast+
  have fs: "fsl s = ?c" using single by (rule fsl_single)
  have blg: "bl s (unat (j_low s)) = ?g" using low_ok_bl_first[OF low] single by simp
  have ep: "epos (\<lambda>k. - Lb inp lam k) (- ?A) (unat (jseg s)) (bl s) (unat (j_low s)) = - ?A"
    using single by (simp add: epos_def)
  have gN: "?g < N" using env_end[OF env] blg by simp
  have "- ?A + - ?c * real (N - ?g) = - Lb inp lam N"
    using env_last[OF env] unfolding ep blg .
  then have last: "?A + ?c * real (N - ?g) = ysum inp N - lam"
    by (simp add: Lb_def)
  have below: "Lb inp lam k \<le> ?A + ?c * real (k - ?g)" if "?g < k" "k \<le> N" for k
    using env_last_below[OF env, of k] that unfolding ep blg by simp
  have "Kfin (Suc N) inp lam s'"
  proof (rule Kfin_last[of N s' ?g ?c s])
    show "xo s' t = (if ?g \<le> t then ?c else xo s t)" if "t < N" for t using xo'[OF that] .
    show "xo s' N = inp ! N + lam" by (rule xN)
    show "N < length inp" using N by simp
    show "?g < N" by (rule gN)
    show "0 \<le> lam" by (rule lam)
    show "\<bar>xsum s k - ysum inp k\<bar> \<le> lam" if "0 < k" "k \<le> ?g" for k using k1[OF that] .
    show "(xo s (k - 1) < xo s k \<longrightarrow> xsum s k - ysum inp k = lam) \<and>
        (xo s k < xo s (k - 1) \<longrightarrow> xsum s k - ysum inp k = - lam)" if "0 < k" "k < ?g" for k
      using k2[OF that] .
    show "?g = 0 \<or> (?A - ysum inp ?g = lam \<and> xo s (?g - 1) \<le> ?c) \<or>
       (?A - ysum inp ?g = - lam \<and> ?c \<le> xo s (?g - 1))" using anc unfolding fs .
    show "\<bar>?A + ?c * real (k - ?g) - ysum inp k\<bar> \<le> lam" if "?g < k" "k < N" for k
    proof -
      have kN: "k \<le> N" using that by simp
      show ?thesis using tg[OF that(1) kN] below[OF that(1) kN] unfolding fs Ub_def Lb_def
        by (simp add: abs_le_iff)
    qed
    show "?A + ?c * real (N - ?g) = ysum inp N - lam" by (rule last)
    show "inp ! N + lam \<le> ?c" by (rule le)
  qed
  then show ?thesis using N by simp
qed

lemma Lb_last:
  assumes N: "N < length inp"
  shows "Lb (inp[N := inp ! N + lam]) lam (Suc N) = ysum inp (Suc N)"
proof -
  have "ysum (inp[N := inp ! N + lam]) (Suc N) = ysum (inp[N := inp ! N + lam]) N + inp ! N + lam"
    using ysum_Suc[of N "inp[N := inp ! N + lam]"] N by simp
  then show ?thesis using ysum_Suc[OF N] ysum_update[of N N inp "inp ! N + lam"] by (simp add: Lb_def)
qed

lemma Ub_last:
  assumes N: "N < length inp"
  shows "Ub (inp[N := inp ! N - lam]) lam (Suc N) = ysum inp (Suc N)"
proof -
  have "ysum (inp[N := inp ! N - lam]) (Suc N) = ysum (inp[N := inp ! N - lam]) N + (inp ! N - lam)"
    using ysum_Suc[of N "inp[N := inp ! N - lam]"] N by simp
  then show ?thesis using ysum_Suc[OF N] ysum_update[of N N inp "inp ! N - lam"] by (simp add: Ub_def)
qed

lemma low_env_update_inp:
  assumes "low_env inp lam N s"
  shows "low_env (inp[N := v]) lam N s"
  using up_env_update_inp[OF assms[unfolded low_env_def], of "- v"]
  by (simp add: low_env_def map_update)

text \<open>Lines 102-104: the lower envelope takes the end point of the signal.\<close>

lemma absorbed_FL:
  assumes inv: "Inv n inp lam N N s" and N: "N = unat i" "0 < N" "Suc N = unat n"
    and le: "output_low_curr s \<le> v"
    and r1: "low_absorb n i v s = Inr s1"
    and single: "unat (j_low s1) = unat (jseg s1) \<longrightarrow> output_low_curr s1 \<le> output_up_first s1"
  shows "FL n inp lam (Lb (inp[N := v]) lam) N (Suc N) s1 \<and> indjseg s1 = indjseg s"
proof -
  let ?g = "unat (indjseg s)" and ?js = "unat (jseg s)"
  let ?inp = "inp[N := v]"
  note p = Inv_parts[OF inv]
  have Nn: "N < unat n" using N by simp
  have i: "i < n" using Nn N by (simp add: word_less_nat_alt)
  have sv: "sinv n (unat i) s" using sinv_weaken[OF p(1) _ Nn] N by simp
  have len: "length ?inp = unat n" using p(2) by simp
  have env0: "low_env ?inp lam (unat i) s" using low_env_update_inp[OF p(5)] N by simp
  have x: "v = ?inp ! unat i" using N Nn p(2) by simp
  from low_absorb_env[OF r1 sv i len env0 x le] obtain c j where
    s1: "s1 = s\<lparr>output_buf := (output_buf s)[?g := Some (output_low_first s)],
                      output_low_curr := c, j_low := j\<rparr>"
    and j: "?js \<le> unat j" "unat j \<le> unat (j_low s)"
    and e: "env (\<lambda>k. - Lb ?inp lam k) (- xsum s ?g) ?js (unat j) (bl s) (\<lambda>j. - sll s j) (- c) (Suc (unat i))"
    and st: "?js < unat j \<longrightarrow> c < sll s (unat j - 1)"
    and tp: "sll s (unat j) \<le> c"
    by blast
  obtain t where "low_absorb n i v s = Inr t" "sinv n (unat i) t"
    using low_absorb_ok[OF sv i] by blast
  then have sv1: "sinv n N s1" using r1 N by simp
  have sel: "jseg s1 = jseg s" "indjseg s1 = indjseg s" "indstart_low s1 = indstart_low s"
    "output_low_first s1 = output_low_first s" "j_low s1 = j" "output_low_curr s1 = c"
    "output_up_first s1 = output_up_first s"
    by (simp_all add: s1)
  have xo1: "xo s1 t = xo s t" if "t \<noteq> ?g" for t
    using that by (simp add: s1 xo_upd_buf)
  have Lf: "Lb ?inp lam k = Lb inp lam k" if "k \<le> N" for k
    using that by (simp add: Lb_def ysum_update)
  have sg: "unat j = ?js \<longrightarrow> output_low_first s \<le> c \<and> c \<le> output_up_first s"
    using tp single by (auto simp: sel sll_def)
  have "FL n inp lam (Lb ?inp lam) N (Suc N) s1"
  proof (rule FL_init[OF inv N(2) Nn _ _ _ sel(1-4) xo1 order_refl Lf])
    show "bufs n s1" "low_ok N s1" "filled s1" using sv1 by (simp_all add: sinv_def)
    show "env (\<lambda>k. - Lb ?inp lam k) (- xsum s ?g) ?js (unat (j_low s1)) (bl s) (\<lambda>j. - sll s j)
        (- output_low_curr s1) (Suc N)" using e N by (simp add: sel)
    show "?js < unat (j_low s1) \<longrightarrow> output_low_curr s1 < sll s (unat (j_low s1) - 1)"
      using st by (simp add: sel)
    show "unat (j_low s1) = ?js \<longrightarrow>
        output_low_first s \<le> output_low_curr s1 \<and> output_low_curr s1 \<le> output_up_first s"
      using sg by (simp add: sel)
    show "unat (j_low s1) \<le> unat (j_low s)" using j by (simp add: sel)
  qed
  then show ?thesis using sel by simp
qed

text \<open>Lines 85-91.\<close>

lemma closeA:
  assumes inv: "Inv n inp lam N N s" and N: "N = unat (i :: u32)" "0 < N" "Suc N = unat n"
    and le: "inp ! N + lam \<le> output_low_curr s"
    and r1: "flush_low n s = Inr s1"
    and xo': "\<And>t. t < N \<Longrightarrow> xo s' t = (if unat (indjseg s1) \<le> t then output_low_first s1 else xo s1 t)"
    and xN: "xo s' N = inp ! N + lam"
  shows "Kfin (unat n) inp lam s'"
proof -
  let ?js = "unat (jseg s)" and ?jl = "unat (j_low s)"
  note p = Inv_parts[OF inv]
  have Nn: "N < unat n" using N by simp
  have i: "i < n" using Nn N by (simp add: word_less_nat_alt)
  have sv: "sinv n N s" using sinv_weaken[OF p(1) _ Nn] by simp
  have old: "env (\<lambda>k. - Lb inp lam k) (- xsum s (unat (indjseg s))) ?js ?jl (bl s) (\<lambda>j. - sll s j)
        (- output_low_curr s) N"
    and ostrict: "?js < ?jl \<longrightarrow> output_low_curr s < sll s (?jl - 1)"
    and otop: "sll s ?jl = output_low_curr s"
    using p(5) unfolding low_env_alt by blast+
  have sg: "?jl = ?js \<longrightarrow> output_low_first s \<le> output_low_curr s \<and> output_low_curr s \<le> output_up_first s"
    using otop p(7) by (auto simp: sll_def)
  have fl0: "FL n inp lam (Lb inp lam) N N s"
  proof (rule FL_init[OF inv N(2) Nn])
    show "bufs n s" "low_ok N s" "filled s" using sv by (simp_all add: sinv_def)
  qed (use old ostrict sg in simp_all)
  from flush_low_FL[OF r1 fl0[unfolded N(1)] i]
  have fl1: "FL n inp lam (Lb inp lam) N N s1" and js1: "unat (jseg s1) = ?jl"
    and sl: "sll s1 ?jl = sll s ?jl" and jl1: "j_low s1 = j_low s"
    and c1: "output_low_curr s1 = output_low_curr s"
    using N by simp_all
  have lf1: "output_low_first s1 = output_low_curr s1"
    using sl otop js1 c1 by (simp add: sll_def)
  show ?thesis
  proof (rule FL_last[OF fl1 N(3) _ _ _ _ xN])
    show "unat n = length inp" using p(2) by simp
    show "0 \<le> lam" using p(3) by simp
    show "unat (jseg s1) = unat (j_low s1)" using js1 jl1 by simp
    show "xo s' t = (if unat (indjseg s1) \<le> t then output_low_curr s1 else xo s1 t)" if "t < N" for t
      using xo'[OF that] lf1 by simp
    show "inp ! N + lam \<le> output_low_curr s1" using le c1 by simp
  qed
qed

text \<open>Lines 105-107.\<close>

lemma closeS:
  assumes inv: "Inv n inp lam N N s" and N: "N = unat i" "0 < N" "Suc N = unat n"
    and gt: "output_low_curr s \<le> inp ! N + lam"
    and r1: "low_absorb n i (inp ! N + lam) s = Inr s1"
    and single: "unat (j_low s1) = unat (jseg s1)" "output_low_curr s1 \<le> output_up_first s1"
    and xo': "\<And>t. t < unat n \<Longrightarrow> xo s' t = (if unat (indjseg s1) \<le> t then output_low_curr s1 else xo s1 t)"
  shows "Kfin (unat n) inp lam s'"
proof -
  have len: "N < length inp" using Inv_parts(2)[OF inv] N by simp
  have fl: "FL n inp lam (Lb (inp[N := inp ! N + lam]) lam) N (Suc N) s1"
    using absorbed_FL[OF inv N gt r1] single by simp
  show ?thesis
    by (rule FL_finish[OF fl N(3) _ Lb_last[OF len] xo']) (use single in simp_all)
qed

text \<open>Lines 123-130.\<close>

lemma closeC:
  assumes inv: "Inv n inp lam N N s" and N: "N = unat i" "0 < N" "Suc N = unat n"
    and gt: "output_low_curr s \<le> inp ! N + lam"
    and r1: "low_absorb n i (inp ! N + lam) s = Inr s1"
    and many: "unat (j_low s1) \<noteq> unat (jseg s1)"
    and r2: "flush_low n s1 = Inr s2"
    and xo': "\<And>t. t < unat n \<Longrightarrow> xo s' t = (if unat (indjseg s2) \<le> t then output_low_curr s2 else xo s2 t)"
  shows "Kfin (unat n) inp lam s'"
proof -
  have len: "N < length inp" using Inv_parts(2)[OF inv] N by simp
  have i: "i < n" using N by (simp add: word_less_nat_alt)
  have fl: "FL n inp lam (Lb (inp[N := inp ! N + lam]) lam) N (Suc N) s1"
    using absorbed_FL[OF inv N gt r1] many by simp
  from flush_low_FL[OF r2 fl[unfolded N(1)] i]
  have fl2: "FL n inp lam (Lb (inp[N := inp ! N + lam]) lam) N (Suc N) s2"
    and js2: "unat (jseg s2) = unat (j_low s1)" and jl2: "j_low s2 = j_low s1"
    using N by simp_all
  show ?thesis
    by (rule FL_finish[OF fl2 N(3) _ Lb_last[OF len] xo']) (use js2 jl2 in simp_all)
qed

text \<open>Lines 93-99, by symmetry.\<close>

lemma closeB:
  assumes inv: "Inv n inp lam N N s" and N: "N = unat (i :: u32)" "0 < N" "Suc N = unat n"
    and le: "output_up_curr s \<le> inp ! N - lam"
    and r1: "flush_up n s = Inr s1"
    and xo': "\<And>t. t < N \<Longrightarrow> xo s' t = (if unat (indjseg s1) \<le> t then output_up_first s1 else xo s1 t)"
    and xN: "xo s' N = inp ! N - lam"
  shows "Kfin (unat n) inp lam s'"
proof -
  have len: "N < length inp" using Inv_parts(2)[OF inv] N by simp
  have minv: "Inv n (map uminus inp) lam N N (mirror s)" using inv by (simp add: Inv_mirror)
  have m1: "flush_low n (mirror s) = Inr (mirror s1)"
    using r1 by (simp add: flush_up_mirror mres_Inr_iff)
  have "Kfin (unat n) (map uminus inp) lam (mirror s')"
  proof (rule closeA[OF minv N _ m1])
    show "map uminus inp ! N + lam \<le> output_low_curr (mirror s)" using le len by simp
    show "xo (mirror s') t =
        (if unat (indjseg (mirror s1)) \<le> t then output_low_first (mirror s1) else xo (mirror s1) t)"
      if "t < N" for t using xo'[OF that] by simp
    show "xo (mirror s') N = map uminus inp ! N + lam" using xN len by simp
  qed
  then show ?thesis by (simp add: Kfin_mirror)
qed

text \<open>Lines 109-121: the straight line from the anchor to the end point would cross the upper
  envelope, which therefore takes the end point.\<close>

lemma closeU:
  assumes inv: "Inv n inp lam N N s" and N: "N = unat i" "0 < N" "Suc N = unat n"
    and gt: "output_low_curr s \<le> inp ! N + lam" "inp ! N - lam \<le> output_up_curr s"
    and r1: "low_absorb n i (inp ! N + lam) s = Inr s1"
    and single: "unat (j_low s1) = unat (jseg s1)" "output_up_first s1 < output_low_curr s1"
    and r2: "up_absorb n i (inp ! N - lam) s1 = Inr s2"
    and r3: "flush_up n s2 = Inr s3"
    and xo': "\<And>t. t < unat n \<Longrightarrow> xo s' t = (if unat (indjseg s3) \<le> t then output_up_curr s3 else xo s3 t)"
  shows "Kfin (unat n) inp lam s'"
proof -
  let ?g = "unat (indjseg s)" and ?js = "unat (jseg s)"
  let ?A = "xsum s ?g" and ?uf = "output_up_first s"
  let ?inl = "inp[N := inp ! N + lam]" and ?inu = "inp[N := inp ! N - lam]"
  note p = Inv_parts[OF inv]
  have Nn: "N < unat n" using N by simp
  have len: "N < length inp" using p(2) N by simp
  have i: "i < n" using Nn N by (simp add: word_less_nat_alt)
  have sv: "sinv n (unat i) s" using sinv_weaken[OF p(1) _ Nn] N by simp
  have sv0: "sinv n (N - 1) s" using p(1) by simp
  have up0: "up_ok (N - 1) s" and low0: "low_ok (N - 1) s" using sv0 by (simp_all add: sinv_def)
  have env0: "low_env ?inl lam (unat i) s" using low_env_update_inp[OF p(5)] N by simp
  have "length ?inl = unat n" "inp ! N + lam = ?inl ! unat i" using p(2) N len by simp_all
  from low_absorb_env[OF r1 sv i this(1) env0 this(2)] gt(1) N obtain c j where
    s1: "s1 = s\<lparr>output_buf := (output_buf s)[?g := Some (output_low_first s)],
                      output_low_curr := c, j_low := j\<rparr>"
    and e: "env (\<lambda>k. - Lb ?inl lam k) (- ?A) ?js (unat j) (bl s) (\<lambda>j. - sll s j) (- c) (Suc N)"
    by auto
  have jj: "unat j = ?js" using single(1) by (simp add: s1)
  have blg: "bl s ?js = ?g" using low_ok_bl_first[OF low0] .
  have gN: "?g < Suc N" using env_end[OF e] jj blg by simp
  have "- ?A + - c * real (Suc N - ?g) = - Lb ?inl lam (Suc N)"
    using env_last[OF e] jj blg by (simp add: epos_def)
  then have L1: "?A + c * real (Suc N - ?g) = ysum inp (Suc N)"
    unfolding Lb_last[OF len] by linarith
  have ufc: "?uf < c" using single(2) by (simp add: s1)
  obtain t where "low_absorb n i (inp ! N + lam) s = Inr t" "sinv n (unat i) t"
    using low_absorb_ok[OF sv i] by blast
  then have sv1: "sinv n (unat i) s1" using r1 by simp
  have xo1: "xo s1 t = xo s t" if "t \<noteq> ?g" for t
    using that by (simp add: s1 xo_upd_buf)
  have bug: "?g < bu s j" if "?js < j" "j \<le> unat (j_up s)" for j
    using seg_ok_bu_gt[OF up0[unfolded up_ok_def] that] .
  have upe1: "up_env inp lam N s1"
  proof (rule up_env_frame[OF p(4)])
    show "xo s1 (bu s j) = xo s (bu s j)" if "?js < j" "j \<le> unat (j_up s)" for j
      using bug[OF that] by (simp add: xo1)
    show "xo s1 t = xo s t" if "t < ?g" for t using that by (simp add: xo1)
  qed (simp_all add: s1)
  have env1: "up_env ?inu lam (unat i) s1" using up_env_update_inp[OF upe1] N by simp
  have "length ?inu = unat n" "inp ! N - lam = ?inu ! unat i" "inp ! N - lam \<le> output_up_curr s1"
    using p(2) N len gt(2) by (simp_all add: s1)
  from up_absorb_env[OF r2 sv1 i this(1) env1 this(2,3)] N obtain cu ju where
    s2: "s2 = s1\<lparr>output_buf := (output_buf s1)[unat (indjseg s1) := Some (output_up_first s1)],
                      output_up_curr := cu, j_up := ju\<rparr>"
    and ju: "unat (jseg s1) \<le> unat ju" "unat ju \<le> unat (j_up s1)"
    and eu: "env (Ub ?inu lam) (xsum s1 (unat (indjseg s1))) (unat (jseg s1)) (unat ju) (bu s1) (slu s1) cu (Suc N)"
    and stu: "unat (jseg s1) < unat ju \<longrightarrow> slu s1 (unat ju - 1) < cu"
    and tpu: "cu \<le> slu s1 (unat ju)"
    by auto
  have g1: "indjseg s1 = indjseg s" "jseg s1 = jseg s" "j_up s1 = j_up s"
    "output_up_first s1 = ?uf" by (simp_all add: s1)
  have A1: "xsum s1 ?g = ?A" by (rule xsum_cong) (simp add: xo1)
  have bu1: "bu s1 = bu s" by (simp add: s1)
  have slu1: "slu s1 j = slu s j" if "?js \<le> j" "j \<le> unat (j_up s)" for j
  proof (cases "j = ?js")
    case True then show ?thesis by (simp add: slu_def g1)
  next
    case False
    then show ?thesis using bug[of j] that by (simp add: slu_def g1 bu1 xo1)
  qed
  have eu': "env (Ub ?inu lam) ?A ?js (unat ju) (bu s) (slu s) cu (Suc N)"
    by (rule env_cong[OF _ _ eu[unfolded g1 A1 bu1]]) (use ju slu1 in \<open>simp_all add: g1\<close>)
  have many: "unat ju \<noteq> ?js"
  proof
    assume eq: "unat ju = ?js"
    have bg: "bu s ?js = ?g" using up_ok_bu_first[OF up0] .
    have "?A + cu * real (Suc N - ?g) = Ub ?inu lam (Suc N)"
      using env_last[OF eu'] eq bg by (simp add: epos_def)
    then have "cu * real (Suc N - ?g) = c * real (Suc N - ?g)"
      using L1 unfolding Ub_last[OF len] by linarith
    moreover have "0 < Suc N - ?g" using gN by linarith
    then have "real (Suc N - ?g) \<noteq> 0" by (simp only: of_nat_eq_0_iff)
    ultimately have "cu = c" by (rule mult_right_cancel[THEN iffD1, rotated])
    moreover have "cu \<le> ?uf" using tpu eq by (simp add: slu_def g1)
    ultimately show False using ufc by simp
  qed
  then have lt: "?js < unat ju" using ju by (simp add: g1)
  obtain t2 where "up_absorb n i (inp ! N - lam) s1 = Inr t2" "sinv n (unat i) t2"
    using up_absorb_ok[OF sv1 i] by blast
  then have sv2: "sinv n N s2" using r2 N by simp
  have sel2: "jseg s2 = jseg s" "indjseg s2 = indjseg s" "indstart_up s2 = indstart_up s"
    "output_up_first s2 = ?uf" "j_up s2 = ju" "output_up_curr s2 = cu"
    by (simp_all add: s2 s1)
  have xo2: "xo s2 t = xo s t" if "t \<noteq> ?g" for t
    using that by (simp add: s2 xo_upd_buf g1 xo1)
  have minv: "Inv n (map uminus inp) lam N N (mirror s)" using inv by (simp add: Inv_mirror)
  define Lf where "Lf = (\<lambda>k. - Ub ?inu lam k)"
  have Lf: "Lf k = Lb (map uminus inp) lam k" if "k \<le> N" for k
    using that by (simp add: Lf_def Lb_neg Ub_def ysum_update)
  have nn: "(\<lambda>k. - Lf k) = Ub ?inu lam" by (simp add: Lf_def fun_eq_iff)
  have ns: "(\<lambda>j. - sll (mirror s) j) = slu s" by (simp add: sll_mirror fun_eq_iff)
  have fl: "FL n (map uminus inp) lam Lf N (Suc N) (mirror s2)"
  proof (rule FL_init[OF minv N(2) Nn _ _ _ _ _ _ _ _ order_refl Lf])
    show "bufs n (mirror s2)" "low_ok N (mirror s2)" "filled (mirror s2)"
      using sv2 sinv_mirror[of n N s2] by (simp_all add: sinv_def)
    show "jseg (mirror s2) = jseg (mirror s)" "indjseg (mirror s2) = indjseg (mirror s)"
      "indstart_low (mirror s2) = indstart_low (mirror s)"
      "output_low_first (mirror s2) = output_low_first (mirror s)"
      by (simp_all add: sel2)
    show "xo (mirror s2) t = xo (mirror s) t" if "t \<noteq> unat (indjseg (mirror s))" for t
      using that by (simp add: xo2)
    show "env (\<lambda>k. - Lf k) (- xsum (mirror s) (unat (indjseg (mirror s)))) (unat (jseg (mirror s)))
        (unat (j_low (mirror s2))) (bl (mirror s)) (\<lambda>j. - sll (mirror s) j)
        (- output_low_curr (mirror s2)) (Suc N)"
      unfolding nn ns using eu' by (simp add: sel2)
    show "unat (jseg (mirror s)) < unat (j_low (mirror s2)) \<longrightarrow>
        output_low_curr (mirror s2) < sll (mirror s) (unat (j_low (mirror s2)) - 1)"
      using stu ju slu1[of "unat ju - 1"] lt by (simp add: sel2 sll_mirror g1)
    show "unat (j_low (mirror s2)) = unat (jseg (mirror s)) \<longrightarrow>
        output_low_first (mirror s) \<le> output_low_curr (mirror s2) \<and>
        output_low_curr (mirror s2) \<le> output_up_first (mirror s)"
      using many by (simp add: sel2)
    show "unat (j_low (mirror s2)) \<le> unat (j_low (mirror s))" using ju by (simp add: sel2 g1)
  qed
  have m3: "flush_low n (mirror s2) = Inr (mirror s3)"
    using r3 by (simp add: flush_up_mirror mres_Inr_iff)
  from flush_low_FL[OF m3 fl[unfolded N(1)] i]
  have fl3: "FL n (map uminus inp) lam Lf N (Suc N) (mirror s3)"
    and js3: "unat (jseg (mirror s3)) = unat (j_low (mirror s2))"
    and jl3: "j_low (mirror s3) = j_low (mirror s2)"
    using N by simp_all
  have fin: "Lf (Suc N) = ysum (map uminus inp) (Suc N)"
    by (simp add: Lf_def Ub_last[OF len])
  have "Kfin (unat n) (map uminus inp) lam (mirror s')"
  proof (rule FL_finish[OF fl3 N(3) _ fin])
    show "unat (jseg (mirror s3)) = unat (j_low (mirror s3))" using js3 jl3 by simp
    show "xo (mirror s') t =
        (if unat (indjseg (mirror s3)) \<le> t then output_low_curr (mirror s3) else xo (mirror s3) t)"
      if "t < unat n" for t using xo'[OF that] by simp
  qed
  then show ?thesis by (simp add: Kfin_mirror)
qed

lemma fill_le_xo:
  assumes b: "bufs n s" and g: "unat k \<le> unat i" and last: "Suc (unat i) = unat n"
    and r: "fill_le n i v (output_buf s) k = Inr p"
  shows "\<forall>t < unat n. xo (set_output s p) t = (if unat k \<le> t then v else xo s t)"
proof -
  have i: "i < n" using last by (simp add: word_less_nat_alt)
  have "unat (i + 1) = Suc (unat i)" using i by (simp add: unat_inc)
  then have k: "k \<le> i + 1" using g by (simp add: word_le_nat_alt)
  have len: "length (output_buf s) = unat n" using b by (simp add: bufs_def)
  from fill_le_ok[OF len k i, of v] r obtain out' where
    p: "p = (out', i + 1)" and l': "length out' = unat n"
    and cells: "\<forall>t < unat n. out' ! t = (if unat k \<le> t \<and> t \<le> unat i then Some v else output_buf s ! t)"
    by auto
  show ?thesis
    using cells l' len last by (auto simp: xo_def cell_def set_output_def p)
qed

lemma fill_lt_wr_xo:
  assumes b: "bufs n s" and g: "unat k \<le> unat i" and last: "Suc (unat i) = unat n"
    and r: "fill_lt n i v (output_buf s) k = Inr p"
    and w: "wr n (fst p) (snd p) x = Inr out"
  shows "(\<forall>t < unat i. xo (s\<lparr>output_buf := out, indjseg := snd p\<rparr>) t = (if unat k \<le> t then v else xo s t)) \<and>
    xo (s\<lparr>output_buf := out, indjseg := snd p\<rparr>) (unat i) = x"
proof -
  have i: "i \<le> n" using last by (simp add: word_le_nat_alt)
  have k: "k \<le> i" using g by (simp add: word_le_nat_alt)
  have len: "length (output_buf s) = unat n" using b by (simp add: bufs_def)
  from fill_lt_ok[OF len k i, of v] r obtain out' where
    p: "p = (out', i)" and l': "length out' = unat n"
    and cells: "\<forall>t < unat n. out' ! t = (if unat k \<le> t \<and> t < unat i then Some v else output_buf s ! t)"
    by auto
  have out: "out = out'[unat i := Some x]" using wr_InrD[OF w] by (simp add: p)
  show ?thesis
    using cells l' len last by (auto simp: xo_def cell_def out)
qed

lemma word_eq_unat: "(a :: u32) = b \<longleftrightarrow> unat a = unat b"
  by (simp add: word_unat_eq_iff)

text \<open>Lines 84-132.\<close>

lemma finish_Kfin:
  assumes inv: "Inv n inp lam N N s" and N: "N = unat i" "0 < N" "Suc N = unat n"
    and r: "finish n inp lam i s = Inr s'"
  shows "Kfin (unat n) inp lam s'"
proof -
  note p = Inv_parts[OF inv]
  have Nn: "N < unat n" and in_n: "unat i < unat n" and last: "Suc (unat i) = unat n" using N by simp_all
  have i: "i < n" using Nn N by (simp add: word_less_nat_alt)
  have sv: "sinv n (unat i) s" using sinv_weaken[OF p(1) _ Nn] N by simp
  then have bf: "bufs n s" and low: "low_ok (unat i) s" and up: "up_ok (unat i) s" and fl: "filled s"
    by (auto simp: sinv_def)
  let ?x = "inp ! N"
  from r obtain x where rx: "rd_in inp i = Inr x" unfolding finish_def by (auto dest!: ebind_InrD)
  have x: "x = ?x" using rd_in_InrD[OF rx] N by simp
  note r' = r[unfolded finish_def rx ebind_Inr x]
  consider (a) "?x + lam \<le> output_low_curr s"
    | (b) "\<not> ?x + lam \<le> output_low_curr s" "?x - lam \<ge> output_up_curr s"
    | (c) "\<not> ?x + lam \<le> output_low_curr s" "\<not> ?x - lam \<ge> output_up_curr s" by blast
  then show ?thesis
  proof cases
    case a
    from r' a obtain s1 q out where
      1: "flush_low n s = Inr s1" and 2: "fill_lt n i (output_low_first s1) (output_buf s1) (indjseg s1) = Inr q"
      and 3: "wr n (fst q) (snd q) (?x + lam) = Inr out"
      and s': "s' = s1\<lparr>output_buf := out, indjseg := snd q\<rparr>"
      by (auto dest!: ebind_InrD)
    obtain t where "flush_low n s = Inr t" "bufs n t" "low_ok (unat i) t"
      using flush_low_ok[OF bf in_n low fl] by blast
    then have b1: "bufs n s1" and low1: "low_ok (unat i) s1" using 1 by simp_all
    have k: "unat (indjseg s1) \<le> unat i" using seg_ok_idx[OF low1[unfolded low_ok_def]] .
    note xo = fill_lt_wr_xo[OF b1 k last 2 3]
    show ?thesis
      by (rule closeA[OF inv N a 1]) (use xo N in \<open>simp_all add: s'\<close>)
  next
    case b
    from r' b obtain s1 q out where
      1: "flush_up n s = Inr s1" and 2: "fill_lt n i (output_up_first s1) (output_buf s1) (indjseg s1) = Inr q"
      and 3: "wr n (fst q) (snd q) (?x - lam) = Inr out"
      and s': "s' = s1\<lparr>output_buf := out, indjseg := snd q\<rparr>"
      by (auto dest!: ebind_InrD)
    obtain t where "flush_up n s = Inr t" "bufs n t" "up_ok (unat i) t"
      using flush_up_ok[OF bf in_n up fl] by blast
    then have b1: "bufs n s1" and up1: "up_ok (unat i) s1" using 1 by simp_all
    have k: "unat (indjseg s1) \<le> unat i" using seg_ok_idx[OF up1[unfolded up_ok_def]] .
    note xo = fill_lt_wr_xo[OF b1 k last 2 3]
    show ?thesis
      by (rule closeB[OF inv N b(2) 1]) (use xo N in \<open>simp_all add: s'\<close>)
  next
    case c
    have gt: "output_low_curr s \<le> ?x + lam" "?x - lam \<le> output_up_curr s" using c by simp_all
    from r' c obtain s1 where 1: "low_absorb n i (?x + lam) s = Inr s1"
      by (auto dest!: ebind_InrD)
    note r1 = r'[unfolded 1 ebind_Inr]
    obtain t where "low_absorb n i (?x + lam) s = Inr t" "sinv n (unat i) t"
      using low_absorb_ok[OF sv i] by blast
    then have sv1: "sinv n (unat i) s1" using 1 by simp
    then have b1: "bufs n s1" and low1: "low_ok (unat i) s1" and up1: "up_ok (unat i) s1"
      and fl1: "filled s1" by (auto simp: sinv_def)
    show ?thesis
    proof (cases "j_low s1 = jseg s1")
      case True
      then have single: "unat (j_low s1) = unat (jseg s1)" by simp
      show ?thesis
      proof (cases "output_up_first s1 \<ge> output_low_curr s1")
        case t2: True
        from r1 c True t2 obtain q where
          2: "fill_le n i (output_low_curr s1) (output_buf s1) (indjseg s1) = Inr q"
          and s': "s' = set_output s1 q"
          by (auto dest!: ebind_InrD)
        note xo = fill_le_xo[OF b1 sinv_idx[OF sv1] last 2]
        show ?thesis
          by (rule closeS[OF inv N gt(1) 1 single t2]) (use xo in \<open>simp add: s'\<close>)
      next
        case f2: False
        from r1 c True f2 obtain s2 s3 k q where
          2: "up_absorb n i (?x - lam) s1 = Inr s2" and 3: "flush_up n s2 = Inr s3"
          and 4: "rd n (indstart_up s3) (j_up s3) = Inr k"
          and 5: "fill_le n i (output_up_curr s3) (output_buf s3) k = Inr q"
          and s': "s' = set_output s3 q"
          by (auto dest!: ebind_InrD)
        obtain t2 where "up_absorb n i (?x - lam) s1 = Inr t2" "sinv n (unat i) t2"
          using up_absorb_ok[OF sv1 i] by blast
        then have sv2: "sinv n (unat i) s2" using 2 by simp
        then have b2: "bufs n s2" and up2: "up_ok (unat i) s2" and fl2: "filled s2"
          by (auto simp: sinv_def)
        obtain t3 where "flush_up n s2 = Inr t3" "bufs n t3" "up_ok (unat i) t3"
          "jseg t3 = j_up s2" "j_up t3 = j_up s2"
          using flush_up_ok[OF b2 in_n up2 fl2] by blast
        then have b3: "bufs n s3" and up3: "up_ok (unat i) s3" and j3: "jseg s3 = j_up s3"
          using 3 by simp_all
        note ok3 = up3[unfolded up_ok_def]
        have "indstart_up s3 ! unat (j_up s3) = Some (indjseg s3)"
          using seg_ok_first[OF ok3] j3 by simp
        then have k: "k = indjseg s3" using rd_InrD[OF 4] by simp
        note xo = fill_le_xo[OF b3 seg_ok_idx[OF ok3] last 5[unfolded k]]
        have lt: "output_up_first s1 < output_low_curr s1" using f2 by simp
        show ?thesis
          by (rule closeU[OF inv N gt 1 single lt 2 3]) (use xo in \<open>simp add: s'\<close>)
      qed
    next
      case False
      then have many: "unat (j_low s1) \<noteq> unat (jseg s1)" by (simp add: word_eq_unat)
      from r1 c False obtain s2 k q where
        2: "flush_low n s1 = Inr s2"
        and 4: "rd n (indstart_low s2) (j_low s2) = Inr k"
        and 5: "fill_le n i (output_low_curr s2) (output_buf s2) k = Inr q"
        and s': "s' = set_output s2 q"
        by (auto dest!: ebind_InrD)
      obtain t2 where "flush_low n s1 = Inr t2" "bufs n t2" "low_ok (unat i) t2"
        "jseg t2 = j_low s1" "j_low t2 = j_low s1"
        using flush_low_ok[OF b1 in_n low1 fl1] by blast
      then have b2: "bufs n s2" and low2: "low_ok (unat i) s2" and j2: "jseg s2 = j_low s2"
        using 2 by simp_all
      note ok2 = low2[unfolded low_ok_def]
      have "indstart_low s2 ! unat (j_low s2) = Some (indjseg s2)"
        using seg_ok_first[OF ok2] j2 by simp
      then have k: "k = indjseg s2" using rd_InrD[OF 4] by simp
      note xo = fill_le_xo[OF b2 seg_ok_idx[OF ok2] last 5[unfolded k]]
      show ?thesis
        by (rule closeC[OF inv N gt(1) 1 many 2]) (use xo in \<open>simp add: s'\<close>)
    qed
  qed
qed

text \<open>The state on entry to the main loop (lines 16-25).\<close>

lemma init_up_env:
  assumes f: "jseg s = 0" "j_up s = 0" "indjseg s = 0" "indstart_up s ! 0 = Some 0"
    "output_up_first s = inp ! 0 + lam" "output_up_curr s = inp ! 0 + lam"
    and len: "0 < length inp"
  shows "up_env inp lam 1 s"
proof -
  have b0: "bu s 0 = 0" using f by (simp add: bu_def)
  have U1: "Ub inp lam 1 = inp ! 0 + lam" using len by (simp add: Ub_def ysum_def)
  have "env (Ub inp lam) 0 0 0 (bu s) (slu s) (inp ! 0 + lam) 1"
  proof (rule env_single)
    show "bu s 0 < 1" using b0 by simp
    show "0 + (inp ! 0 + lam) * real (k - bu s 0) \<le> Ub inp lam k" if "bu s 0 < k" "k \<le> 1" for k
    proof -
      have "k = 1" using that b0 by simp
      then show ?thesis using U1 b0 by simp
    qed
    show "0 + (inp ! 0 + lam) * real (1 - bu s 0) = Ub inp lam 1" using U1 b0 by simp
  qed
  then show ?thesis using f by (simp add: up_env_def xsum_def slu_def)
qed

lemma init_Inv:
  assumes f: "jseg s = 0" "j_up s = 0" "j_low s = 0" "indjseg s = 0"
    "indstart_up s ! 0 = Some 0" "indstart_low s ! 0 = Some 0"
    "output_up_first s = inp ! 0 + lam" "output_up_curr s = inp ! 0 + lam"
    "output_low_first s = inp ! 0 - lam" "output_low_curr s = inp ! 0 - lam"
    and sv: "sinv n 0 s" and len: "length inp = unat n" and lam: "0 < lam"
  shows "Inv n inp lam 1 1 s"
proof -
  have "0 < unat n" using sv unfolding sinv_def by blast
  then have pos: "0 < length inp" unfolding len .
  have up: "up_env inp lam 1 s" by (rule init_up_env[OF f(1,2,4,5,7,8) pos])
  have pm: "0 < length (map uminus inp)" using pos by simp
  have m0: "map uminus inp ! 0 = - inp ! 0" using pos by (rule nth_map_uminus)
  have "up_env (map uminus inp) lam 1 (mirror s)"
  proof (rule init_up_env[OF _ _ _ _ _ _ pm])
    show "jseg (mirror s) = 0" by (simp add: f(1))
    show "j_up (mirror s) = 0" by (simp add: f(3))
    show "indjseg (mirror s) = 0" by (simp add: f(4))
    show "indstart_up (mirror s) ! 0 = Some 0" by (simp add: f(6))
    show "output_up_first (mirror s) = map uminus inp ! 0 + lam" unfolding m0 by (simp add: f(9))
    show "output_up_curr (mirror s) = map uminus inp ! 0 + lam" unfolding m0 by (simp add: f(10))
  qed
  then have low: "low_env inp lam 1 s" unfolding low_env_def .
  have d: "disj s" unfolding disj_def f(1-3) by auto
  have k: "Kpre inp lam s" unfolding Kpre_def f(4) by simp
  have "max (1::nat) 1 - 1 = 0" by simp
  then have sv': "sinv n (max 1 1 - 1) s" using sv by (simp only:)
  have le: "output_low_first s \<le> output_up_first s" unfolding f(7,9) using lam by linarith
  show ?thesis unfolding Inv_def
    by (intro conjI) (fact sv' len lam up low d le k)+
qed

lemma kkt_zero: "kkt 0 y y"
  by (simp add: kkt_def)

lemma kkt_single: "length y = 1 \<Longrightarrow> kkt lam y y"
  by (simp add: kkt_def)

text \<open>The function returns a buffer that fulfils the optimality condition.\<close>

lemma denoise_kkt:
  assumes len: "length inp = unat width" and ne: "width \<noteq> 0 \<or> lam = 0" and lam: "0 \<le> lam"
  shows "\<exists>ys. TV1D_denoise inp width lam = Inr (map Some ys) \<and> kkt lam inp ys"
proof (cases "lam = 0")
  case True
  have "TV1D_denoise inp width lam = Inr (map Some inp)"
    using copy_loop_copies[of width width inp "replicate (unat width) None" 0] len True
    by (simp add: TV1D_denoise_def)
  then show ?thesis using kkt_zero[of inp] True by blast
next
  case False
  then have w0: "width \<noteq> 0" and lpos: "0 < lam" using ne lam by simp_all
  then have wpos: "0 < unat width" by (simp add: unat_gt_0)
  have r0: "rd_in inp 0 = Inr (inp ! 0)" using wpos len by (simp add: rd_in_def)
  show ?thesis
  proof (cases "width = 1")
    case True
    then have "TV1D_denoise inp width lam = Inr (map Some [inp ! 0])"
      using False r0 by (simp add: TV1D_denoise_def Let_def wr_def)
    moreover have "[inp ! 0] = inp" using True len by (cases inp) simp_all
    moreover have "kkt lam inp inp" using True len by (intro kkt_single) simp
    ultimately show ?thesis by (intro exI[of _ inp]) simp
  next
    case w1: False
    then have w2: "2 \<le> unat width" using wpos
      by (metis One_nat_def Suc_1 Suc_leI le_neq_implies_less unat_1 word_unat_eq_iff)
    let ?N = "replicate (unat width) None"
    let ?s0 = "\<lparr>indstart_low = ?N, indstart_up = ?N, output_buf = replicate (unat width) None,
                j_low = 0, j_up = 0, jseg = 0, indjseg = 0,
                output_low_first = inp ! 0 - lam, output_low_curr = inp ! 0 - lam,
                output_up_first = inp ! 0 + lam, output_up_curr = inp ! 0 + lam\<rparr>"
    let ?a = "?N[0 := Some (0::u32)]"
    let ?s1 = "?s0\<lparr>indstart_low := ?a, indstart_up := ?a\<rparr>"
    have wa: "wr width ?N 0 (0::u32) = Inr ?a" using wpos w0 by (simp add: wr_def word_gt_0)
    have sv: "sinv width 0 ?s1"
      using wpos by (auto simp: sinv_def bufs_def low_ok_def up_ok_def filled_def seg_ok_def)
    have "Inv width inp lam 1 1 ?s1"
      by (rule init_Inv[OF _ _ _ _ _ _ _ _ _ _ sv len lpos]) (use wpos in simp_all)
    then have inv1: "Inv width inp lam (unat (1::u32)) (unat (1::u32)) ?s1" by simp
    have dec: "unat (width - 1) = unat width - 1" using w0 by (simp add: unat_minus_one)
    have le: "(1::u32) \<le> width - 1" using dec w2 by (simp add: word_le_nat_alt)
    have lt: "width - 1 < width" using dec wpos by (simp add: word_less_nat_alt)
    have sv1: "sinv width (unat (1::u32) - 1) ?s1" using sv by simp
    obtain s' where m: "main_loop width inp lam (width - 1) 1 ?s1 = Inr (width - 1, s')"
      and inv': "sinv width (unat (width - 1) - 1) s'"
      using main_loop_ok[OF sv1 _ le lt, of inp lam] len by auto
    have Inv': "Inv width inp lam (unat (width - 1)) (unat (width - 1)) s'"
      using main_loop_inv[OF m inv1 _ le lt] by simp
    have pos: "0 < width - 1" using dec w2 by (simp add: word_less_nat_alt)
    obtain s'' where f: "finish width inp lam (width - 1) s' = Inr s''"
      and ai: "all_init width (output_buf s'')"
      using finish_ok[OF inv' pos, of inp lam] dec wpos len by auto
    have K: "Kfin (unat width) inp lam s''"
      by (rule finish_Kfin[OF Inv' refl _ _ f]) (use dec w2 in simp_all)
    have res: "TV1D_denoise inp width lam = Inr (output_buf s'')"
      using False r0 w1 wa m f by (simp add: TV1D_denoise_def Let_def)
    let ?ys = "map the (output_buf s'')"
    have o: "output_buf s'' = map Some ?ys" and l: "length ?ys = length inp"
      using all_init_map[OF ai] len by simp_all
    have "kkt lam inp ?ys" by (rule Kfin_kkt[OF o l]) (use K len in simp)
    then show ?thesis using res o by (intro exI[of _ ?ys]) simp
  qed
qed

section \<open>Consequences of the optimality condition\<close>

lemma psum_sum_list: "psum xs (length xs) = sum_list xs"
  unfolding psum_def by (simp add: sum_list_sum_nth lessThan_atLeast0)





lemma sum_squares_pos:
  fixes x z :: "real list"
  assumes len: "length z = length x" and ne: "z \<noteq> x"
  shows "0 < (\<Sum>i<length x. (z ! i - x ! i)\<^sup>2)"
proof -
  obtain i where i: "i < length x" "z ! i \<noteq> x ! i"
    using ne len by (auto simp: list_eq_iff_nth_eq)
  have "0 < (z ! i - x ! i)\<^sup>2" using i(2) by simp
  also have "\<dots> \<le> (\<Sum>i<length x. (z ! i - x ! i)\<^sup>2)"
    using i(1) by (intro member_le_sum) simp_all
  finally show ?thesis .
qed




lemma replicate_two: "replicate 2 x = [x, x]"
  by (simp add: numeral_2_eq_2)


section \<open>The claims\<close>

text \<open>
  In every statement the caller's buffer \<open>inp\<close> holds exactly \<open>width\<close> samples:
  \<open>length inp = unat width\<close>. A returned buffer \<open>map Some ys\<close> is one whose cells
  have all been written, with contents \<open>ys\<close>.
\<close>

text \<open>
  C2. With \<open>lambda = 0\<close> the function returns an element-wise copy of the input, for an
  input of any length, and what it computes is the copy loop of lines 8-10 alone, on the
  freshly allocated buffer: none of the segment-tracking statements is reached.
\<close>

theorem identity_at_lambda_zero:
  "length inp = unat width \<Longrightarrow>
   TV1D_denoise inp width 0 = Inr (map Some inp) \<and>
   TV1D_denoise inp width 0 = copy_loop width inp width 0 (replicate (unat width) None)"
  using copy_loop_copies[of width width inp "replicate (unat width) None" 0]
  by (simp add: TV1D_denoise_def)

theorem identity_at_lambda_zero_witness:
  "length [3, 1, 2 :: real] = unat (3 :: u32) \<and>
   TV1D_denoise [3, 1, 2] 3 0 = Inr [Some 3, Some 1, Some 2]"
  using identity_at_lambda_zero[of "[3, 1, 2]" 3] by simp

text \<open>
  C6. On the empty input with a non-zero \<open>lambda\<close> the function reads \<^verbatim>\<open>input[0]\<close>
  (line 17), which is beyond the end of the buffer: the test \<^verbatim>\<open>width==1\<close> of line 22
  comes later and there is no test for \<^verbatim>\<open>width==0\<close>.
\<close>

theorem empty_input_out_of_bounds:
  "TV1D_denoise [] 0 1 = Inl OutOfBounds"
  by (simp add: TV1D_denoise_def Let_def rd_in_def)

text \<open>
  C7. For a one-element input \<open>[v]\<close> and every \<open>lambda \<ge> 0\<close> the result is the
  one-element buffer holding \<open>v\<close>.
\<close>

theorem single_element:
  "0 \<le> lam \<Longrightarrow> TV1D_denoise [v] 1 lam = Inr [Some v]"
  by (simp add: TV1D_denoise_def Let_def rd_in_def wr_def copy_loop.simps)

theorem single_element_witness:
  "(0::real) \<le> 2 \<and> TV1D_denoise [5] 1 2 = Inr [Some 5]"
  using single_element[of 2 5] by simp

text \<open>
  C3. For every \<open>lambda \<ge> 0\<close>, a buffer that the function returns has the length of the
  input; and the function does return a buffer, with every cell written, unless the input
  is empty and \<open>lambda\<close> is not zero (the out-of-bounds read of C6).
\<close>

theorem output_length:
  assumes "length inp = unat width" and "0 \<le> lam"
  shows "(\<forall>out. TV1D_denoise inp width lam = Inr out \<longrightarrow> length out = length inp) \<and>
         (width \<noteq> 0 \<or> lam = 0 \<longrightarrow>
            (\<exists>ys. TV1D_denoise inp width lam = Inr (map Some ys) \<and> length ys = length inp))"
proof (cases "width \<noteq> 0 \<or> lam = 0")
  case True
  then show ?thesis using denoise_returns[OF assms(1) True] by auto
next
  case False
  then have "TV1D_denoise inp width lam = Inl OutOfBounds"
    using assms(1) by (simp add: TV1D_denoise_def Let_def rd_in_def)
  then show ?thesis using False by simp
qed

theorem output_length_witness:
  "length [0, 4 :: real] = unat (2 :: u32) \<and> (0 :: real) \<le> 1 \<and>
   (\<exists>ys. TV1D_denoise [0, 4] 2 1 = Inr (map Some ys) \<and> length ys = length [0, 4 :: real])"
  using output_length[of "[0, 4]" 2 1] by simp

text \<open>
  C5. A negative \<open>lambda\<close> is not rejected: on the one-sample input \<open>[7]\<close> with
  \<open>lambda = -3\<close> the function returns the buffer \<open>[7]\<close>.
\<close>

theorem negative_lambda_not_rejected:
  "(- 3 :: real) < 0 \<and> TV1D_denoise [7] 1 (- 3) = Inr [Some 7]"
  by (simp add: TV1D_denoise_def Let_def rd_in_def wr_def)

text \<open>
  C5, as amended. The function has no test on the sign of \<open>lambda\<close>: for every non-empty
  input and every negative \<open>lambda\<close> it runs the same statements as for a positive one and
  returns a buffer of the length of the input, every cell written.
\<close>

theorem negative_lambda_returns:
  assumes "length inp = unat width" and "width \<noteq> 0" and "lam < 0"
  shows "\<exists>ys. TV1D_denoise inp width lam = Inr (map Some ys) \<and> length ys = length inp"
  using denoise_returns[OF assms(1)] assms(2) by simp

theorem negative_lambda_returns_witness:
  "length [0, 4, 1 :: real] = unat (3 :: u32) \<and> (3 :: u32) \<noteq> 0 \<and> (- 1 :: real) < 0 \<and>
   (\<exists>ys. TV1D_denoise [0, 4, 1] 3 (- 1) = Inr (map Some ys) \<and> length ys = length [0, 4, 1 :: real])"
  using negative_lambda_returns[of "[0, 4, 1]" 3 "- 1"] by simp

text \<open>
  C9. Every loop of the function is a total recursive function here, its termination proved
  from a measure on the unsigned loop variables, and on every non-empty input, as with
  \<open>lambda = 0\<close>, the function runs to completion and returns the output buffer. On the
  empty input with a non-zero \<open>lambda\<close> it does not: the read of \<^verbatim>\<open>input[0]\<close> at line 17
  is out of bounds, and no buffer is returned. So, for \<open>lambda \<ge> 0\<close>, the function
  runs to completion exactly when the input is not empty or \<open>lambda\<close> is zero, and not
  for inputs of every length.
\<close>

theorem completes_iff_nonempty_or_zero:
  assumes "length inp = unat width" and "0 \<le> lam"
  shows "(\<exists>out. TV1D_denoise inp width lam = Inr out) \<longleftrightarrow> (width \<noteq> 0 \<or> lam = 0)"
proof (cases "width \<noteq> 0 \<or> lam = 0")
  case True
  then show ?thesis using denoise_returns[OF assms(1) True] by blast
next
  case False
  then have "TV1D_denoise inp width lam = Inl OutOfBounds"
    using assms(1) by (simp add: TV1D_denoise_def Let_def rd_in_def)
  then show ?thesis using False by simp
qed

theorem completes_iff_nonempty_or_zero_witness:
  "length ([] :: real list) = unat (0 :: u32) \<and> (0 :: real) \<le> 2 \<and>
   \<not> (\<exists>out. TV1D_denoise [] 0 2 = Inr out)"
  using completes_iff_nonempty_or_zero[of "[]" 0 2] by simp

text \<open>
  C1. The output is not the minimiser of the objective as the specification writes it,
  \<open>sum (x_i - input_i)^2 + lambda * sum |x_(i+1) - x_i|\<close>: on the input \<open>[0, 4]\<close> with
  \<open>lambda = 1\<close> the function returns \<open>[1, 3]\<close>, where that objective is 4, and at
  \<open>[1/2, 7/2]\<close> it is 7/2.
\<close>

theorem spec_objective_not_minimised:
  "TV1D_denoise [0, 4] 2 1 = Inr [Some 1, Some 3] \<and>
   spec_objective 1 [0, 4] [1 / 2, 7 / 2] < spec_objective 1 [0, 4] [1, 3]"
  by (simp add: TV1D_denoise_def Let_def rd_in_def wr_def main_loop.simps finish_def
      flush_up.simps fill_lt.simps spec_objective_def sq_err_def power2_eq_square replicate_two)

text \<open>
  C1, as amended. For every input of length at least 2 and every \<open>lambda \<ge> 0\<close>, over the
  reals, the function returns the minimiser of the objective with the factor one half on
  the quadratic term, \<open>1/2 * sum (x_i - input_i)^2 + lambda * sum |x_(i+1) - x_i|\<close>, among
  the sequences of the length of the input: the objective is nowhere smaller, and
  everywhere else it is greater.
\<close>

theorem minimises_half_objective:
  assumes "length inp = unat width" and "2 \<le> length inp" and "0 \<le> lam"
  shows "\<exists>ys. TV1D_denoise inp width lam = Inr (map Some ys) \<and> length ys = length inp \<and>
     (\<forall>z. length z = length inp \<longrightarrow> half_objective lam inp ys \<le> half_objective lam inp z) \<and>
     (\<forall>z. length z = length inp \<and> z \<noteq> ys \<longrightarrow> half_objective lam inp ys < half_objective lam inp z)"
proof -
  have nn: "inp \<noteq> []" using assms(2) by auto
  then have w: "width \<noteq> 0 \<or> lam = 0" using assms(1) by auto
  obtain ys where r: "TV1D_denoise inp width lam = Inr (map Some ys)" and k: "kkt lam inp ys"
    using denoise_kkt[OF assms(1) w assms(3)] by blast
  have ly: "length ys = length inp" using k by (simp add: kkt_def)
  have le: "half_objective lam inp ys \<le> half_objective lam inp z" if "length z = length inp" for z
    by (rule kkt_optimal[OF k that nn])
  have lt: "half_objective lam inp ys < half_objective lam inp z"
    if "length z = length inp" "z \<noteq> ys" for z
  proof -
    have "0 < (\<Sum>i<length ys. (z ! i - ys ! i)\<^sup>2)"
      by (rule sum_squares_pos) (use that ly in simp_all)
    then have "0 < (\<Sum>i<length inp. (z ! i - ys ! i)\<^sup>2) / 2" using ly by simp
    then show ?thesis using kkt_optimal_strong[OF k that(1) nn] by linarith
  qed
  show ?thesis using r ly le lt by blast
qed

theorem minimises_half_objective_witness:
  "length [0, 4 :: real] = unat (2 :: u32) \<and> 2 \<le> length [0, 4 :: real] \<and> (0 :: real) \<le> 1 \<and>
   (\<exists>ys. TV1D_denoise [0, 4] 2 1 = Inr (map Some ys) \<and> length ys = length [0, 4 :: real] \<and>
     (\<forall>z. length z = length [0, 4 :: real] \<longrightarrow> half_objective 1 [0, 4] ys \<le> half_objective 1 [0, 4] z) \<and>
     (\<forall>z. length z = length [0, 4 :: real] \<and> z \<noteq> ys \<longrightarrow>
        half_objective 1 [0, 4] ys < half_objective 1 [0, 4] z))"
  using minimises_half_objective[of "[0, 4]" 2 1] by simp





text \<open>
  C10. For every non-empty input and every \<open>lambda \<ge> 0\<close>, over the reals, the function
  returns a buffer of the length of the input whose samples have the same sum as those of
  the input.
\<close>

theorem sum_preserved:
  assumes "length inp = unat width" and "inp \<noteq> []" and "0 \<le> lam"
  shows "\<exists>ys. TV1D_denoise inp width lam = Inr (map Some ys) \<and> length ys = length inp \<and>
     sum_list ys = sum_list inp"
proof -
  have w: "width \<noteq> 0 \<or> lam = 0" using assms(1,2) by auto
  obtain ys where r: "TV1D_denoise inp width lam = Inr (map Some ys)" and k: "kkt lam inp ys"
    using denoise_kkt[OF assms(1) w assms(3)] by blast
  have ly: "length ys = length inp" and p: "psum ys (length inp) = psum inp (length inp)"
    using k by (simp_all add: kkt_def)
  have "sum_list ys = sum_list inp" using p psum_sum_list[of ys] psum_sum_list[of inp] ly by simp
  then show ?thesis using r ly by blast
qed

theorem sum_preserved_witness:
  "length [0, 4, 1 :: real] = unat (3 :: u32) \<and> [0, 4, 1 :: real] \<noteq> [] \<and> (0 :: real) \<le> 1 \<and>
   (\<exists>ys. TV1D_denoise [0, 4, 1] 3 1 = Inr (map Some ys) \<and> length ys = length [0, 4, 1 :: real] \<and>
     sum_list ys = sum_list [0, 4, 1])"
  using sum_preserved[of "[0, 4, 1]" 3 1] by simp

end
